(* ===== verification/Vm_Prelude.thy ===== *)
theory Vm_Prelude
  imports Complex_Main "HOL-Library.Word" "HOL-Library.List_Lexorder"
begin

text \<open>
  Shared vocabulary of the development.

  \<^item> \<^bold>\<open>Values.\<close> A Go \<open>[]byte\<close> or \<open>string\<close> is a list of 8-bit words;
    \<open>List_Lexorder\<close> orders such lists lexicographically, which is what
    \<open>bytes.Compare\<close> and \<open>sort.Strings\<close> use.
  \<^item> \<^bold>\<open>Faults.\<close> A run of the code either returns (\<open>Inr\<close>) or stops with a fault:
    a Go panic with its message, or the exhaustion of the fuel that bounds a loop whose
    termination depends on the shape of the pointer structure.
  \<^item> \<^bold>\<open>Library routines.\<close> \<open>bytes.Compare\<close> and the binary search \<open>sort.Search\<close> are
    written out as the Go standard library has them; a locale states the contract
    their callers rely on.
\<close>

section \<open>Bytes and faults\<close>

type_synonym byte = "8 word"
type_synonym bytes = "byte list"
type_synonym kv = "bytes \<times> bytes"

datatype fault = Panic string | OutOfFuel

type_synonym 'a res = "fault + 'a"

definition rbind :: "'a res \<Rightarrow> ('a \<Rightarrow> 'b res) \<Rightarrow> 'b res" where
  "rbind m f = (case m of Inl e \<Rightarrow> Inl e | Inr x \<Rightarrow> f x)"

text \<open>Indexing a Go slice: an index outside the range is a run-time panic.\<close>

definition slice_index :: "'a list \<Rightarrow> int \<Rightarrow> 'a res" where
  "slice_index xs i =
     (if 0 \<le> i \<and> i < int (length xs) then Inr (xs ! nat i)
      else Inl (Panic ''index out of range''))"

text \<open>\<open>bytes.Compare\<close>: -1, 0 or 1.\<close>

fun bytes_Compare :: "bytes \<Rightarrow> bytes \<Rightarrow> int" where
  "bytes_Compare [] [] = 0"
| "bytes_Compare [] (y # ys) = -1"
| "bytes_Compare (x # xs) [] = 1"
| "bytes_Compare (x # xs) (y # ys) =
     (if x < y then -1 else if y < x then 1 else bytes_Compare xs ys)"

text \<open>
  \<open>sort.Search(n, f)\<close>: the halving loop over \<open>[i, j)\<close>. The predicate may update
  captured variables, so the loop threads a state \<open>s\<close> through the probes.
\<close>

function search_loop :: "(nat \<Rightarrow> 's \<Rightarrow> bool \<times> 's) \<Rightarrow> nat \<Rightarrow> nat \<Rightarrow> 's \<Rightarrow> nat \<times> 's" where
  "search_loop f i j s =
     (if i < j then
        let h = (i + j) div 2; r = f h s
        in if \<not> fst r then search_loop f (Suc h) j (snd r) else search_loop f i h (snd r)
      else (i, s))"
  by pat_completeness auto
termination
  by (relation "measure (\<lambda>(f, i, j, s). j - i)") auto

definition sort_Search_st :: "nat \<Rightarrow> (nat \<Rightarrow> 's \<Rightarrow> bool \<times> 's) \<Rightarrow> 's \<Rightarrow> nat \<times> 's" where
  "sort_Search_st n f s = search_loop f 0 n s"

definition sort_Search :: "nat \<Rightarrow> (nat \<Rightarrow> bool) \<Rightarrow> nat" where
  "sort_Search n f = fst (sort_Search_st n (\<lambda>i s. (f i, s)) ())"

declare search_loop.simps [simp del]

section \<open>Fact collections\<close>

named_theorems go_simps "evaluation of the Go library routines and of the fault monad"

lemma rbind_Inr [simp, go_simps]: "rbind (Inr x) f = f x"
  by (simp add: rbind_def)

lemma rbind_Inl [simp, go_simps]: "rbind (Inl e) f = Inl e"
  by (simp add: rbind_def)

lemma rbind_eq_Inr_iff: "rbind m f = Inr y \<longleftrightarrow> (\<exists>x. m = Inr x \<and> f x = Inr y)"
  by (cases m) auto

lemma rbind_InrE [elim!]:
  assumes "rbind m f = Inr y"
  obtains x where "m = Inr x" and "f x = Inr y"
  using assms by (cases m) auto

lemma rbind_cong [fundef_cong]:
  "m = m' \<Longrightarrow> (\<And>x. m' = Inr x \<Longrightarrow> f x = f' x) \<Longrightarrow> rbind m f = rbind m' f'"
  by (cases m') auto

lemma slice_index_nat [simp]: "i < length xs \<Longrightarrow> slice_index xs (int i) = Inr (xs ! i)"
  by (simp add: slice_index_def)

lemma slice_index_zero [simp]: "xs \<noteq> [] \<Longrightarrow> slice_index xs 0 = Inr (xs ! 0)"
  by (simp add: slice_index_def)

lemma slice_index_InrD:
  "slice_index xs i = Inr x \<Longrightarrow> 0 \<le> i \<and> i < int (length xs) \<and> x = xs ! nat i"
  by (simp add: slice_index_def split: if_splits)

section \<open>\<open>bytes.Compare\<close> is the lexicographic order\<close>

lemma bytes_Compare_self [simp]: "bytes_Compare a a = 0"
  by (induction a) auto

lemma bytes_Compare_cases:
  "bytes_Compare a b = (if a < b then -1 else if a = b then 0 else 1)"
  by (induction a b rule: bytes_Compare.induct) auto

lemma bytes_Compare_less [simp]: "bytes_Compare a b = -1 \<longleftrightarrow> a < b"
  by (simp add: bytes_Compare_cases)

lemma bytes_Compare_eq [simp]: "bytes_Compare a b = 0 \<longleftrightarrow> a = b"
  by (auto simp add: bytes_Compare_cases)

lemma bytes_Compare_nonneg [simp]: "0 \<le> bytes_Compare a b \<longleftrightarrow> b \<le> a"
  by (auto simp add: bytes_Compare_cases not_less)

lemma bytes_Compare_nonpos [simp]: "bytes_Compare a b \<le> 0 \<longleftrightarrow> a \<le> b"
  by (auto simp add: bytes_Compare_cases)

section \<open>The contract of a binary search\<close>

text \<open>
  A predicate is monotone below \<open>n\<close> when it stays true once it is true; the search
  then returns the least index at which it holds, or \<open>n\<close>.
\<close>

definition mono_below :: "nat \<Rightarrow> (nat \<Rightarrow> bool) \<Rightarrow> bool" where
  "mono_below n f \<longleftrightarrow> (\<forall>i j. i \<le> j \<longrightarrow> j < n \<longrightarrow> f i \<longrightarrow> f j)"

locale least_index =
  fixes search :: "nat \<Rightarrow> (nat \<Rightarrow> bool) \<Rightarrow> nat"
  assumes search_le: "search n f \<le> n"
    and search_below: "mono_below n f \<Longrightarrow> i < search n f \<Longrightarrow> \<not> f i"
    and search_at: "mono_below n f \<Longrightarrow> search n f < n \<Longrightarrow> f (search n f)"
begin

lemma search_unique:
  assumes "mono_below n f" and "m \<le> n" and "\<And>i. i < m \<Longrightarrow> \<not> f i" and "m < n \<Longrightarrow> f m"
  shows "search n f = m"
proof (rule linorder_cases [of "search n f" m])
  assume "search n f < m"
  with assms(1-3) search_at show ?thesis by fastforce
next
  assume "m < search n f"
  with assms(1,4) search_below search_le [of n f] show ?thesis by fastforce
qed simp

text \<open>On a strictly ascending key list the search splits the list at the key.\<close>

lemma mono_below_keys:
  assumes "sorted_wrt (<) (ks :: bytes list)"
  shows "mono_below (length ks) (\<lambda>i. bytes_Compare (ks ! i) k \<noteq> -1)"
  unfolding mono_below_def
proof (intro allI impI)
  fix i j
  assume ij: "i \<le> j" "j < length ks" and ge: "bytes_Compare (ks ! i) k \<noteq> - 1"
  have "ks ! i \<le> ks ! j"
    using assms ij by (cases "i = j") (auto simp: sorted_wrt_iff_nth_less less_imp_le)
  with ge show "bytes_Compare (ks ! j) k \<noteq> - 1" by auto
qed

lemma search_keys:
  assumes "sorted_wrt (<) (ks :: bytes list)"
  shows "search (length ks) (\<lambda>i. bytes_Compare (ks ! i) k \<noteq> -1)
         = length (takeWhile (\<lambda>x. x < k) ks)"
proof (rule search_unique [OF mono_below_keys [OF assms]])
  show "length (takeWhile (\<lambda>x. x < k) ks) \<le> length ks"
    by (rule length_takeWhile_le)
next
  fix i assume "i < length (takeWhile (\<lambda>x. x < k) ks)"
  then show "\<not> bytes_Compare (ks ! i) k \<noteq> - 1"
    by (metis bytes_Compare_less nth_mem set_takeWhileD takeWhile_nth)
next
  assume "length (takeWhile (\<lambda>x. x < k) ks) < length ks"
  then show "bytes_Compare (ks ! length (takeWhile (\<lambda>x. x < k) ks)) k \<noteq> - 1"
    using nth_length_takeWhile by fastforce
qed

end

text \<open>The halving loop keeps the answer inside its interval.\<close>

lemma search_loop_bounds: "i \<le> j \<Longrightarrow> i \<le> fst (search_loop f i j s) \<and> fst (search_loop f i j s) \<le> j"
proof (induction f i j s rule: search_loop.induct)
  case (1 f i j s)
  show ?case
  proof (cases "i < j")
    case True
    define h where "h = (i + j) div 2"
    have h: "i \<le> h" "h < j" using True by (auto simp: h_def)
    with 1(1)[OF True h_def refl] 1(2)[OF True h_def refl]
    show ?thesis
      using True by (subst (1 2) search_loop.simps) (auto simp: Let_def h_def)
  next
    case False
    with "1.prems" show ?thesis by (simp add: search_loop.simps)
  qed
qed

lemma search_loop_least:
  assumes "mono_below n g" and "\<And>h s. fst (f h s) = g h" and "i \<le> j" and "j \<le> n"
    and "\<And>m. m < i \<Longrightarrow> \<not> g m" and "j < n \<Longrightarrow> g j"
  shows "(\<forall>m < fst (search_loop f i j s). \<not> g m) \<and>
         (fst (search_loop f i j s) < n \<longrightarrow> g (fst (search_loop f i j s)))"
  using assms
proof (induction f i j s rule: search_loop.induct)
  case (1 f i j s)
  show ?case
  proof (cases "i < j")
    case True
    define h where "h = (i + j) div 2"
    have h: "i \<le> h" "h < j" using True by (auto simp: h_def)
    have below: "\<not> g m" if "\<not> g h" "m < Suc h" for m
      using that "1.prems"(1,4) h by (auto simp: mono_below_def less_Suc_eq_le)
    show ?thesis
    proof (cases "g h")
      case g: True
      have "search_loop f i j s = search_loop f i h (snd (f h s))"
        using True g "1.prems"(2) by (subst search_loop.simps) (simp add: Let_def h_def)
      with 1(2)[OF True h_def refl] g h "1.prems" show ?thesis by auto
    next
      case g: False
      have "search_loop f i j s = search_loop f (Suc h) j (snd (f h s))"
        using True g "1.prems"(2) by (subst search_loop.simps) (simp add: Let_def h_def)
      with 1(1)[OF True h_def refl] g h below "1.prems" show ?thesis by auto
    qed
  next
    case False
    with "1.prems" show ?thesis by (simp add: search_loop.simps)
  qed
qed

lemma sort_Search_least:
  assumes "mono_below n f"
  shows "(\<forall>m < sort_Search n f. \<not> f m) \<and> (sort_Search n f < n \<longrightarrow> f (sort_Search n f))"
  unfolding sort_Search_def sort_Search_st_def
  by (rule search_loop_least [OF assms]) auto

interpretation go_search: least_index sort_Search
proof
  fix n and f :: "nat \<Rightarrow> bool"
  show "sort_Search n f \<le> n"
    using search_loop_bounds [of 0 n] by (simp add: sort_Search_def sort_Search_st_def)
next
  fix n and f :: "nat \<Rightarrow> bool" and i
  assume "mono_below n f" and "i < sort_Search n f"
  then show "\<not> f i" using sort_Search_least by blast
next
  fix n and f :: "nat \<Rightarrow> bool"
  assume "mono_below n f" and "sort_Search n f < n"
  then show "f (sort_Search n f)" using sort_Search_least by blast
qed

section \<open>Ordered association lists\<close>

text \<open>
  The abstract contents of a bucket: key/value pairs with strictly ascending keys. A
  store replaces or inserts the pair at its place, a deletion drops it.
\<close>

abbreviation ascending :: "bytes list \<Rightarrow> bool" where
  "ascending ks \<equiv> sorted_wrt (<) ks"

definition alist_put :: "bytes \<Rightarrow> 'v \<Rightarrow> (bytes \<times> 'v) list \<Rightarrow> (bytes \<times> 'v) list" where
  "alist_put k v kvs = takeWhile (\<lambda>p. fst p < k) kvs @ (k, v) # dropWhile (\<lambda>p. fst p \<le> k) kvs"

definition alist_del :: "bytes \<Rightarrow> (bytes \<times> 'v) list \<Rightarrow> (bytes \<times> 'v) list" where
  "alist_del k kvs = filter (\<lambda>p. fst p \<noteq> k) kvs"

lemma ascending_append:
  "ascending (xs @ ys) \<longleftrightarrow> ascending xs \<and> ascending ys \<and> (\<forall>x\<in>set xs. \<forall>y\<in>set ys. x < y)"
  by (rule sorted_wrt_append)

lemma ascending_distinct: "ascending ks \<Longrightarrow> distinct ks"
  by (induction ks) auto

lemma filter_ascending:
  assumes "ascending (map f xs)"
  shows takeWhile_filter: "takeWhile (\<lambda>x. f x < k) xs = filter (\<lambda>x. f x < k) xs"
    and dropWhile_less_filter: "dropWhile (\<lambda>x. f x < k) xs = filter (\<lambda>x. k \<le> f x) xs"
    and dropWhile_le_filter: "dropWhile (\<lambda>x. f x \<le> k) xs = filter (\<lambda>x. k < f x) xs"
proof -
  have "takeWhile (\<lambda>x. f x < k) xs = filter (\<lambda>x. f x < k) xs \<and>
      dropWhile (\<lambda>x. f x < k) xs = filter (\<lambda>x. k \<le> f x) xs \<and>
      dropWhile (\<lambda>x. f x \<le> k) xs = filter (\<lambda>x. k < f x) xs"
    using assms
  proof (induction xs)
    case (Cons x xs)
    then have gt: "\<forall>y\<in>set xs. f x < f y" by simp
    have "filter (\<lambda>y. f y < k) xs = []" "filter (\<lambda>y. k \<le> f y) xs = xs" if "k \<le> f x"
      using gt that by (force simp: filter_empty_conv filter_id_conv)+
    moreover have "filter (\<lambda>y. k < f y) xs = xs" if "k \<le> f x"
      using gt that by (force simp: filter_id_conv)
    ultimately show ?case using Cons by (cases "f x < k") (auto simp: not_less)
  qed simp
  then show "takeWhile (\<lambda>x. f x < k) xs = filter (\<lambda>x. f x < k) xs"
    "dropWhile (\<lambda>x. f x < k) xs = filter (\<lambda>x. k \<le> f x) xs"
    "dropWhile (\<lambda>x. f x \<le> k) xs = filter (\<lambda>x. k < f x) xs" by auto
qed

lemma filter_less_greater:
  assumes "ascending (map f xs)"
  shows "filter (\<lambda>x. f x < k) xs @ filter (\<lambda>x. k < f x) xs = filter (\<lambda>x. f x \<noteq> k) xs"
  using assms
proof (induction xs)
  case (Cons x xs)
  then have gt: "\<forall>y\<in>set xs. f x < f y" by simp
  have "filter (\<lambda>y. f y < k) xs = []" if "k \<le> f x"
    using gt that by (force simp: filter_empty_conv)
  with Cons show ?case by (cases rule: linorder_cases [of "f x" k]) auto
qed simp

lemma alist_put_filter:
  assumes "ascending (map fst kvs)"
  shows "alist_put k v kvs = filter (\<lambda>p. fst p < k) kvs @ (k, v) # filter (\<lambda>p. k < fst p) kvs"
  by (simp add: alist_put_def filter_ascending [OF assms])

lemma ascending_filter: "ascending (map f xs) \<Longrightarrow> ascending (map f (filter P xs))"
  by (induction xs) auto

lemma ascending_alist_put:
  assumes "ascending (map fst kvs)"
  shows "ascending (map fst (alist_put k v kvs))"
  by (auto simp: alist_put_filter [OF assms] ascending_append ascending_filter [OF assms])

lemma ascending_alist_del:
  "ascending (map fst kvs) \<Longrightarrow> ascending (map fst (alist_del k kvs))"
  by (simp add: alist_del_def ascending_filter)

lemma map_of_alist_put:
  assumes "ascending (map fst kvs)"
  shows "map_of (alist_put k v kvs) = (map_of kvs)(k \<mapsto> v)"
proof
  fix x
  have none: "map_of (filter P kvs) x = None" if "\<And>v. \<not> P (x, v)" for P
    using that by (force simp: map_of_eq_None_iff)
  have all: "map_of (filter P kvs) x = map_of kvs x" if "\<And>v. P (x, v)" for P
    using that by (induction kvs) auto
  have lk: "map_of (filter (\<lambda>p. fst p < k) kvs) x = (if x < k then map_of kvs x else None)"
    using none [of "\<lambda>p. fst p < k"] all [of "\<lambda>p. fst p < k"] by auto
  have gk: "map_of (filter (\<lambda>p. k < fst p) kvs) x = (if k < x then map_of kvs x else None)"
    using none [of "\<lambda>p. k < fst p"] all [of "\<lambda>p. k < fst p"] by auto
  show "map_of (alist_put k v kvs) x = ((map_of kvs)(k \<mapsto> v)) x"
    by (auto simp: alist_put_filter [OF assms] map_add_def lk gk split: option.splits)
qed

lemma map_of_alist_del: "map_of (alist_del k kvs) = (map_of kvs)(k := None)"
  by (induction kvs) (auto simp: alist_del_def fun_eq_iff)

lemma alist_put_middle:
  assumes "\<forall>p\<in>set xs. fst p < k" and "\<forall>p\<in>set zs. k < fst p"
  shows "alist_put k v (xs @ ys @ zs) = xs @ alist_put k v ys @ zs"
proof -
  have zs: "takeWhile (\<lambda>p. fst p < k) zs = []" "dropWhile (\<lambda>p. fst p \<le> k) zs = zs"
    using assms(2) by (cases zs; auto)+
  have "takeWhile (\<lambda>p. fst p < k) (ys @ zs) = takeWhile (\<lambda>p. fst p < k) ys"
    by (cases "\<forall>p\<in>set ys. fst p < k") (simp_all add: takeWhile_append zs takeWhile_eq_all_conv [THEN iffD2])
  moreover have "dropWhile (\<lambda>p. fst p \<le> k) (ys @ zs) = dropWhile (\<lambda>p. fst p \<le> k) ys @ zs"
    by (cases "\<forall>p\<in>set ys. fst p \<le> k") (auto simp: dropWhile_append zs)
  ultimately show ?thesis
    using assms(1) by (simp add: alist_put_def less_imp_le)
qed

lemma alist_del_middle:
  assumes "\<forall>p\<in>set xs. fst p \<noteq> k" and "\<forall>p\<in>set zs. fst p \<noteq> k"
  shows "alist_del k (xs @ ys @ zs) = xs @ alist_del k ys @ zs"
  using assms by (simp add: alist_del_def)

lemma set_alist_put: "ascending (map fst kvs) \<Longrightarrow>
    fst ` set (alist_put k v kvs) = insert k (fst ` set kvs)"
  by (force simp: alist_put_filter image_iff)

end
