(* ===== verification/Vm_Node.thy ===== *)
theory Vm_Node
  imports Vm_Stats
begin

text \<open>
  B+tree nodes in an explicit heap (\<open>node.go\<close>, \<open>snapshot_node.go\<close>, and the write context
  of \<open>bucket.go\<close>).

  Nodes are linked by pointers, shared between the published trees of several
  generations, and mutated in place by the one write transaction that created them, so
  the model keeps them in a heap: a list of node records in which an address is an
  index and allocation appends. \<open>wst\<close> is what a \<open>Bucket\<close> method sees: the fields of
  the \<open>Bucket\<close>, the transaction attributes it reads through \<open>b.tx\<close>, the heap and the
  transaction's counters.

  The lemmas cover the operations inside one node: the size computations, the ordered
  insertion and deletion of entries, and the choice of the split position.
\<close>

section \<open>Data\<close>

type_synonym addr = nat
type_synonym bref = nat

record inode =
  iflags :: "32 word"
  ikey :: bytes
  ivalue :: bytes
  ichild :: "addr option"

record node =
  bucket :: "bref option"
  isLeaf :: bool
  unbalanced :: bool
  spilled :: bool
  nkey :: bytes
  parent :: "addr option"
  inodes :: "inode list"

type_synonym heap = "node list"

text \<open>The published state of one bucket: its root pointer.\<close>

record bucketState =
  root :: "addr option"

text \<open>
  \<open>dirty\<close> is the key set of the Go map. \<open>FillPercent\<close> is a finite \<open>float64\<close>, that
  is a rational number; the code only compares it and multiplies it by a power of two,
  which are exact.
\<close>

record Bucket =
  name :: bytes
  rootNode :: "addr option"
  dirty :: "addr set"
  FillPercent :: rat

text \<open>
  The state of a bucket method: the bucket itself, extended with its own identity, the
  parts of \<open>b.tx\<close> it reads (\<open>db != nil\<close>, \<open>writable\<close>, the committed state of the
  bucket in \<open>tx.base\<close>), the heap, and \<open>tx.stats\<close>.
\<close>

record wst = Bucket +
  self :: bref
  tx_open :: bool
  tx_writable :: bool
  baseState :: "bucketState option"
  heap :: heap
  stats :: TxStats

section \<open>Constants\<close>

definition defaultMaxNodeSizeBytes :: nat where
  "defaultMaxNodeSizeBytes = 128 * 1024"

definition defaultMinNodeMergeBytes :: nat where
  "defaultMinNodeMergeBytes = defaultMaxNodeSizeBytes div 4"

definition nodeHeaderOverheadBytes :: nat where
  "nodeHeaderOverheadBytes = 32"

definition nodeInodeOverheadBytes :: nat where
  "nodeInodeOverheadBytes = 24"

definition minFillPercent :: rat where
  "minFillPercent = 1 / 10"

definition maxFillPercent :: rat where
  "maxFillPercent = 1"

definition DefaultFillPercent :: rat where
  "DefaultFillPercent = 1 / 2"

section \<open>Operations on one node\<close>

definition minKeys :: "node \<Rightarrow> nat" where
  "minKeys n = (if isLeaf n then 1 else 2)"

text \<open>The bytes one entry adds to \<open>size\<close>, \<open>sizeLessThan\<close> and \<open>splitIndex\<close>.\<close>

definition inode_size :: "inode \<Rightarrow> nat" where
  "inode_size i = nodeInodeOverheadBytes + length (ikey i) + length (ivalue i)"

definition node_size :: "node \<Rightarrow> nat" where
  "node_size n = foldl (\<lambda>sz i. sz + inode_size i) nodeHeaderOverheadBytes (inodes n)"

fun sizeLessThan_loop :: "inode list \<Rightarrow> nat \<Rightarrow> nat \<Rightarrow> bool" where
  "sizeLessThan_loop [] sz v = True"
| "sizeLessThan_loop (i # is) sz v =
     (let sz = sz + inode_size i in if v \<le> sz then False else sizeLessThan_loop is sz v)"

definition sizeLessThan :: "node \<Rightarrow> nat \<Rightarrow> bool" where
  "sizeLessThan n v = sizeLessThan_loop (inodes n) nodeHeaderOverheadBytes v"

definition numChildren :: "node \<Rightarrow> nat" where
  "numChildren n = length (inodes n)"

text \<open>The binary search shared by \<open>childIndex\<close>, \<open>put\<close>, \<open>del\<close> and \<open>nsearch\<close>.\<close>

definition key_index :: "inode list \<Rightarrow> bytes \<Rightarrow> nat" where
  "key_index is k = sort_Search (length is) (\<lambda>i. bytes_Compare (ikey (is ! i)) k \<noteq> -1)"

definition childIndex :: "node \<Rightarrow> node \<Rightarrow> nat" where
  "childIndex n child = key_index (inodes n) (nkey child)"

definition put :: "bytes \<Rightarrow> bytes \<Rightarrow> bytes \<Rightarrow> addr option \<Rightarrow> 32 word \<Rightarrow> node \<Rightarrow> node res" where
  "put oldKey newKey v child flags n =
     (if length oldKey = 0 then Inl (Panic ''put: zero-length old key'')
      else if length newKey = 0 then Inl (Panic ''put: zero-length new key'')
      else
        let is = inodes n;
            index = key_index is oldKey;
            exact = (0 < length is \<and> index < length is \<and> ikey (is ! index) = oldKey);
            entry = \<lparr>iflags = flags, ikey = newKey, ivalue = v, ichild = child\<rparr>
        in Inr (n\<lparr>inodes := (if exact then is[index := entry]
                            else take index is @ entry # drop index is)\<rparr>))"

definition del :: "bytes \<Rightarrow> node \<Rightarrow> node" where
  "del key n =
     (let is = inodes n; index = key_index is key
      in if length is \<le> index \<or> ikey (is ! index) \<noteq> key then n
         else n\<lparr>inodes := take index is @ drop (Suc index) is, unbalanced := True\<rparr>)"

text \<open>
  The loop of \<open>splitIndex\<close>: \<open>index\<close> is the named result, the loop variable \<open>i\<close> runs
  below \<open>len(n.inodes) - minKeys\<close>.
\<close>

function splitIndex_loop ::
  "inode list \<Rightarrow> nat \<Rightarrow> nat \<Rightarrow> nat \<Rightarrow> nat \<Rightarrow> nat \<Rightarrow> nat \<times> nat" where
  "splitIndex_loop is mk threshold i index sz =
     (if i < length is - mk then
        let index = i; elsize = inode_size (is ! i)
        in if mk \<le> index \<and> threshold < sz + elsize then (index, sz)
           else splitIndex_loop is mk threshold (Suc i) index (sz + elsize)
      else (index, sz))"
  by pat_completeness auto
termination
  by (relation "measure (\<lambda>(is, mk, th, i, index, sz). length is - mk - i)") auto

declare splitIndex_loop.simps [simp del]

definition splitIndex :: "nat \<Rightarrow> node \<Rightarrow> nat \<times> nat" where
  "splitIndex threshold n =
     splitIndex_loop (inodes n) (minKeys n) threshold 0 0 nodeHeaderOverheadBytes"

text \<open>The split threshold: the fill percentage clamped to its range, in bytes.\<close>

definition split_threshold :: "rat \<Rightarrow> nat" where
  "split_threshold fp =
     (let fp = (if fp < minFillPercent then minFillPercent
                else if maxFillPercent < fp then maxFillPercent else fp)
      in nat \<lfloor>of_nat defaultMaxNodeSizeBytes * fp\<rfloor>)"

section \<open>Lemmas: sizes\<close>

lemmas node_consts = defaultMaxNodeSizeBytes_def defaultMinNodeMergeBytes_def
  nodeHeaderOverheadBytes_def nodeInodeOverheadBytes_def

lemma inode_size_pos [simp]: "0 < inode_size i"
  by (simp add: inode_size_def node_consts)

lemma foldl_size: "foldl (\<lambda>sz i. sz + f i) (a::nat) is = a + sum_list (map f is)"
  by (induction "is" arbitrary: a) auto

lemma node_size_eq: "node_size n = nodeHeaderOverheadBytes + sum_list (map inode_size (inodes n))"
  by (simp add: node_size_def foldl_size)

lemma sizeLessThan_loop_eq:
  "sizeLessThan_loop is sz v \<longleftrightarrow> is = [] \<or> sz + sum_list (map inode_size is) < v"
proof (induction "is" arbitrary: sz)
  case (Cons i "is")
  show ?case by (cases "is = []") (auto simp: Let_def Cons.IH)
qed simp

lemma sizeLessThan_eq: "sizeLessThan n v \<longleftrightarrow> inodes n = [] \<or> node_size n < v"
  by (simp add: sizeLessThan_def sizeLessThan_loop_eq node_size_eq)

section \<open>Lemmas: ordered entries\<close>

abbreviation ikeys :: "inode list \<Rightarrow> bytes list" where
  "ikeys is \<equiv> map ikey is"

lemma key_index_eq:
  assumes "ascending (ikeys is)"
  shows "key_index is k = length (takeWhile (\<lambda>i. ikey i < k) is)"
proof -
  have "key_index is k = sort_Search (length (ikeys is)) (\<lambda>i. bytes_Compare (ikeys is ! i) k \<noteq> -1)"
    unfolding key_index_def sort_Search_def sort_Search_st_def
  proof (simp, rule arg_cong [where f = fst])
    have "search_loop (\<lambda>i s. (\<not> ikey (is ! i) < k, s)) i j s =
        search_loop (\<lambda>i s. (\<not> ikeys is ! i < k, s)) i j s" if "j \<le> length is" for i j and s :: unit
      using that
    proof (induction "\<lambda>i s::unit. (\<not> ikey (is ! i) < k, s)" i j s rule: search_loop.induct)
      case (1 i j s)
      show ?case
      proof (cases "i < j")
        case True
        then have h: "(i + j) div 2 < length is" "(i + j) div 2 \<le> length is"
          using "1.prems" by auto
        show ?thesis
          using True h "1.prems" 1(1)[OF True refl refl] 1(2)[OF True refl refl]
          by (subst (1 2) search_loop.simps) (simp add: Let_def)
      next
        case False
        then show ?thesis by (simp add: search_loop.simps)
      qed
    qed
    then show "search_loop (\<lambda>i s. (\<not> ikey (is ! i) < k, s)) 0 (length is) () =
        search_loop (\<lambda>i s. (\<not> ikeys is ! i < k, s)) 0 (length is) ()" by simp
  qed
  also have "\<dots> = length (takeWhile (\<lambda>x. x < k) (ikeys is))"
    by (rule go_search.search_keys [OF assms])
  finally show ?thesis by (simp add: takeWhile_map comp_def)
qed

lemma split_at_key:
  assumes "ascending (ikeys is)"
  shows "take (key_index is k) is = filter (\<lambda>i. ikey i < k) is"
    and "drop (key_index is k) is = filter (\<lambda>i. k \<le> ikey i) is"
  unfolding key_index_eq [OF assms] takeWhile_eq_take [symmetric] dropWhile_eq_drop [symmetric]
  by (rule filter_ascending [OF assms])+

lemma key_index_exact:
  assumes "ascending (ikeys is)"
  shows "key_index is k < length is \<and> ikey (is ! key_index is k) = k \<longleftrightarrow> k \<in> ikey ` set is"
    (is "?l \<longleftrightarrow> ?r")
proof
  assume ?l
  then show ?r by (metis image_eqI nth_mem)
next
  assume ?r
  then obtain i where i: "i \<in> set is" "ikey i = k" by auto
  have d: "drop (key_index is k) is = filter (\<lambda>i. k \<le> ikey i) is"
    by (rule split_at_key [OF assms])
  then have ne: "drop (key_index is k) is \<noteq> []"
    using i by (auto simp: filter_empty_conv)
  then have lt: "key_index is k < length is" by simp
  have hd: "is ! key_index is k = hd (filter (\<lambda>i. k \<le> ikey i) is)"
    using lt d by (metis hd_drop_conv_nth)
  have "ascending (ikeys (filter (\<lambda>i. k \<le> ikey i) is))"
    by (rule ascending_filter [OF assms])
  moreover have "i \<in> set (filter (\<lambda>i. k \<le> ikey i) is)" using i by simp
  ultimately have "ikey (hd (filter (\<lambda>i. k \<le> ikey i) is)) = k"
    using i(2) by (cases "filter (\<lambda>i. k \<le> ikey i) is") (auto dest!: filter_eq_ConsD)
  with lt hd show ?l by simp
qed

lemma drop_Suc_key_index:
  assumes "ascending (ikeys is)" and "k \<in> ikey ` set is"
  shows "drop (Suc (key_index is k)) is = filter (\<lambda>i. k < ikey i) is"
proof -
  let ?j = "key_index is k"
  have lt: "?j < length is" "ikey (is ! ?j) = k"
    using key_index_exact assms by blast+
  have "filter (\<lambda>i. k < ikey i) is = filter (\<lambda>i. k < ikey i) (drop ?j is)"
    unfolding split_at_key(2) [OF assms(1)] by (auto intro!: filter_cong)
  also have "\<dots> = filter (\<lambda>i. k < ikey i) (drop (Suc ?j) is)"
    using lt by (simp add: Cons_nth_drop_Suc [symmetric])
  also have "\<dots> = drop (Suc ?j) is"
  proof (rule filter_True, rule ballI)
    fix x assume x: "x \<in> set (drop (Suc ?j) is)"
    have "ascending (ikeys (is ! ?j # drop (Suc ?j) is))"
      using sorted_wrt_drop [OF assms(1), of ?j] lt
      by (simp add: drop_map Cons_nth_drop_Suc)
    with x lt show "k < ikey x" by auto
  qed
  finally show ?thesis by simp
qed

text \<open>
  \<open>put\<close> on ascending entries: the entries below and above the old key are kept, and
  one entry with the new key stands between them.
\<close>

lemma put_inodes:
  assumes "ascending (ikeys (inodes n))" and "oldKey \<noteq> []" and "newKey \<noteq> []"
  shows "put oldKey newKey v child flags n =
    Inr (n\<lparr>inodes := filter (\<lambda>i. ikey i < oldKey) (inodes n) @
                     \<lparr>iflags = flags, ikey = newKey, ivalue = v, ichild = child\<rparr> #
                     filter (\<lambda>i. oldKey < ikey i) (inodes n)\<rparr>)"
proof -
  let ?is = "inodes n" and ?j = "key_index (inodes n) oldKey"
  let ?e = "\<lparr>iflags = flags, ikey = newKey, ivalue = v, ichild = child\<rparr>"
  have t: "take ?j ?is = filter (\<lambda>i. ikey i < oldKey) ?is"
    by (rule split_at_key [OF assms(1)])
  show ?thesis
  proof (cases "oldKey \<in> ikey ` set ?is")
    case True
    then have ex: "?j < length ?is" "ikey (?is ! ?j) = oldKey"
      using key_index_exact [OF assms(1)] by blast+
    have "?is[?j := ?e] = take ?j ?is @ ?e # drop (Suc ?j) ?is"
      by (rule upd_conv_take_nth_drop [OF ex(1)])
    with ex show ?thesis
      by (auto simp: put_def Let_def assms t drop_Suc_key_index [OF assms(1) True])
  next
    case False
    then have "\<not> (?j < length ?is \<and> ikey (?is ! ?j) = oldKey)"
      using key_index_exact [OF assms(1)] by blast
    moreover have "drop ?j ?is = filter (\<lambda>i. oldKey < ikey i) ?is"
      unfolding split_at_key(2) [OF assms(1)] using False
      by (auto intro!: filter_cong simp: image_iff less_le)
    ultimately show ?thesis
      by (auto simp: put_def Let_def assms t)
  qed
qed

lemma del_inodes:
  assumes "ascending (ikeys (inodes n))"
  shows "del key n =
    (if key \<in> ikey ` set (inodes n)
     then n\<lparr>inodes := filter (\<lambda>i. ikey i \<noteq> key) (inodes n), unbalanced := True\<rparr> else n)"
proof (cases "key \<in> ikey ` set (inodes n)")
  case True
  let ?is = "inodes n" and ?j = "key_index (inodes n) key"
  have ex: "?j < length ?is" "ikey (?is ! ?j) = key"
    using key_index_exact [OF assms] True by blast+
  have "take ?j ?is @ drop (Suc ?j) ?is =
      filter (\<lambda>i. ikey i < key) ?is @ filter (\<lambda>i. key < ikey i) ?is"
    by (simp add: split_at_key [OF assms] drop_Suc_key_index [OF assms True])
  also have "\<dots> = filter (\<lambda>i. ikey i \<noteq> key) ?is"
    by (rule filter_less_greater [OF assms])
  finally show ?thesis using ex True by (simp add: del_def Let_def)
next
  case False
  then have "\<not> (key_index (inodes n) key < length (inodes n) \<and>
      ikey (inodes n ! key_index (inodes n) key) = key)"
    using key_index_exact [OF assms] by blast
  with False show ?thesis by (auto simp: del_def Let_def)
qed

section \<open>Lemmas: the split position\<close>

text \<open>
  When a node has more than twice the minimum number of keys, both parts of the split
  keep at least the minimum, and the first part fits the threshold unless it is the
  minimal one.
\<close>

lemma splitIndex_loop_props:
  assumes "2 * mk < length is" and "i \<le> length is - mk" and "i = 0 \<or> index = i - 1"
    and "sz = hdr + sum_list (map inode_size (take i is))"
    and "index \<le> mk \<or> hdr + sum_list (map inode_size (take index is)) \<le> threshold"
    and "mk < i \<Longrightarrow> sz \<le> threshold"
    and "i = 0 \<Longrightarrow> index = 0" and "0 < mk"
  shows "let r = fst (splitIndex_loop is mk threshold i index sz)
         in mk \<le> r \<and> r < length is - mk \<and>
            (r = mk \<or> hdr + sum_list (map inode_size (take r is)) \<le> threshold)"
  using assms
proof (induction "is" mk threshold i index sz rule: splitIndex_loop.induct)
  case (1 "is" mk threshold i index sz)
  show ?case
  proof (cases "i < length is - mk")
    case True
    show ?thesis
    proof (cases "mk \<le> i \<and> threshold < sz + inode_size (is ! i)")
      case brk: True
      have "splitIndex_loop is mk threshold i index sz = (i, sz)"
        using True brk by (subst splitIndex_loop.simps) (simp add: Let_def)
      with brk True "1.prems" show ?thesis by (cases "mk < i") (auto simp: Let_def)
    next
      case nbrk: False
      have step: "splitIndex_loop is mk threshold i index sz =
          splitIndex_loop is mk threshold (Suc i) i (sz + inode_size (is ! i))"
        using True nbrk by (subst splitIndex_loop.simps) (auto simp add: Let_def)
      have tk: "take (Suc i) is = take i is @ [is ! i]"
        using True by (intro take_Suc_conv_app_nth) auto
      show ?thesis unfolding step
        by (rule 1(1)[OF True refl refl nbrk])
          (use "1.prems" True nbrk tk in \<open>auto simp: not_less\<close>)
    qed
  next
    case False
    then have "splitIndex_loop is mk threshold i index sz = (index, sz)"
      by (subst splitIndex_loop.simps) simp
    moreover have "i = length is - mk" using False "1.prems"(2) by simp
    ultimately show ?thesis using "1.prems" by (auto simp: Let_def)
  qed
qed

lemma splitIndex_bounds:
  assumes "2 * minKeys n < length (inodes n)"
  shows "minKeys n \<le> fst (splitIndex threshold n)"
    and "fst (splitIndex threshold n) < length (inodes n) - minKeys n"
    and "fst (splitIndex threshold n) = minKeys n \<or>
         nodeHeaderOverheadBytes +
           sum_list (map inode_size (take (fst (splitIndex threshold n)) (inodes n))) \<le> threshold"
  using splitIndex_loop_props [of "minKeys n" "inodes n" 0 0 nodeHeaderOverheadBytes
      nodeHeaderOverheadBytes threshold] assms
  by (auto simp: splitIndex_def Let_def minKeys_def split: if_splits)

section \<open>Splitting nodes of the heap\<close>

definition new_node :: node where
  "new_node = \<lparr>bucket = None, isLeaf = False, unbalanced = False, spilled = False,
     nkey = [], parent = None, inodes = []\<rparr>"

definition upd_node :: "addr \<Rightarrow> (node \<Rightarrow> node) \<Rightarrow> wst \<Rightarrow> wst" where
  "upd_node a f w = w\<lparr>heap := (heap w)[a := f (heap w ! a)]\<rparr>"

definition alloc_dirty :: "node \<Rightarrow> wst \<Rightarrow> addr \<times> wst" where
  "alloc_dirty n w =
     (length (heap w), w\<lparr>heap := heap w @ [n], dirty := insert (length (heap w)) (dirty w)\<rparr>)"

text \<open>\<open>splitTwo\<close> returns the second node, if any; the first is \<open>n\<close> itself.\<close>

definition splitTwo :: "addr \<Rightarrow> wst \<Rightarrow> addr option \<times> wst" where
  "splitTwo n w =
     (let nd = heap w ! n
      in if length (inodes nd) \<le> minKeys nd * 2 \<or> sizeLessThan nd defaultMaxNodeSizeBytes
         then (None, w)
         else
           let si = fst (splitIndex (split_threshold (FillPercent w)) nd);
               w = (case parent nd of
                      None \<Rightarrow> (let (p, w) = alloc_dirty (new_node\<lparr>bucket := bucket nd\<rparr>) w
                               in upd_node n (\<lambda>x. x\<lparr>parent := Some p\<rparr>) w)
                    | Some p \<Rightarrow> w);
               (next, w) = alloc_dirty (new_node\<lparr>bucket := bucket nd, isLeaf := isLeaf nd,
                                                 parent := parent (heap w ! n)\<rparr>) w;
               w = upd_node n (\<lambda>x. x\<lparr>inodes := take si (inodes nd)\<rparr>) w;
               w = upd_node next (\<lambda>x. x\<lparr>inodes := drop si (inodes nd)\<rparr>) w
           in (Some next, w\<lparr>stats := IncSplit 1 (stats w)\<rparr>))"

lemma splitTwo_shrinks:
  assumes "splitTwo n w = (Some b, w')"
  shows "length (inodes (heap w' ! b)) < length (inodes (heap w ! n))"
proof -
  let ?nd = "heap w ! n"
  let ?si = "fst (splitIndex (split_threshold (FillPercent w)) ?nd)"
  have c: "2 * minKeys ?nd < length (inodes ?nd)"
    using assms by (auto simp: splitTwo_def Let_def split: if_splits)
  then have si: "0 < ?si" "?si < length (inodes ?nd)"
    using splitIndex_bounds [OF c, of "split_threshold (FillPercent w)"]
    by (auto simp: minKeys_def split: if_splits)
  have "length (inodes (heap w' ! b)) = length (inodes ?nd) - ?si"
    using assms
    by (auto simp: splitTwo_def Let_def alloc_dirty_def upd_node_def nth_append
        split: if_splits option.splits)
  with si show ?thesis by simp
qed

function split :: "addr \<Rightarrow> wst \<Rightarrow> addr list \<times> wst" where
  "split n w =
     (case splitTwo n w of
        (None, w) \<Rightarrow> ([n], w)
      | (Some b, w) \<Rightarrow> (case split b w of (ns, w) \<Rightarrow> (n # ns, w)))"
  by pat_completeness auto
termination
  by (relation "measure (\<lambda>(n, w). length (inodes (heap w ! n)))")
    (auto dest!: splitTwo_shrinks [OF sym])

declare split.simps [simp del]

section \<open>Properties\<close>

text \<open>
  C27: the early exit of \<open>sizeLessThan\<close> decides the same as comparing the full size of
  the node, except that a node without entries counts as smaller than any limit.
\<close>

theorem sizeLessThan_early_exit: "sizeLessThan n v \<longleftrightarrow> inodes n = [] \<or> node_size n < v"
  by (rule sizeLessThan_eq)

text \<open>
  A leaf with two entries, on which the properties of one node are exercised.
\<close>

definition example_leaf :: node where
  "example_leaf = new_node\<lparr>isLeaf := True, inodes :=
     [\<lparr>iflags = 0, ikey = [1], ivalue = [7], ichild = None\<rparr>, \<lparr>iflags = 0, ikey = [3], ivalue = [8], ichild = None\<rparr>]\<rparr>"

text \<open>
  C25: storing a new key into a node with ascending keys succeeds, adds exactly that entry
  and keeps the keys ascending; deleting the key again restores the entries and marks the
  node for rebalancing.
\<close>

theorem put_then_del:
  assumes "ascending (ikeys (inodes n))" and "k \<noteq> []" and "k \<notin> ikey ` set (inodes n)"
  shows "\<exists>n'. put k k v c f n = Inr n' \<and> ascending (ikeys (inodes n')) \<and>
     set (inodes n') = insert \<lparr>iflags = f, ikey = k, ivalue = v, ichild = c\<rparr> (set (inodes n)) \<and>
     del k n' = n\<lparr>unbalanced := True\<rparr>"
proof -
  let ?e = "\<lparr>iflags = f, ikey = k, ivalue = v, ichild = c\<rparr>"
  let ?lo = "filter (\<lambda>i. ikey i < k) (inodes n)" and ?hi = "filter (\<lambda>i. k < ikey i) (inodes n)"
  let ?n = "n\<lparr>inodes := ?lo @ ?e # ?hi\<rparr>"
  have whole: "?lo @ ?hi = inodes n"
    using filter_less_greater [OF assms(1)] assms(3) by (auto simp: filter_id_conv)
  have asc: "ascending (ikeys (inodes ?n))"
    using ascending_filter [OF assms(1)] by (auto simp: ascending_append)
  have "filter (\<lambda>i. ikey i \<noteq> k) (inodes ?n) = ?lo @ ?hi"
    by (auto simp: filter_id_conv intro!: arg_cong2 [of _ _ _ _ "(@)"] filter_cong)
  then have "del k ?n = n\<lparr>unbalanced := True\<rparr>"
    unfolding del_inodes [OF asc] whole by simp
  moreover have "set (inodes ?n) = insert ?e (set (?lo @ ?hi))" by simp
  ultimately show ?thesis
    using put_inodes [OF assms(1,2,2)] asc unfolding whole by (intro exI [of _ ?n]) simp
qed

theorem put_then_del_witness:
  "\<exists>n'. put [2] [2] [9] None 0 example_leaf = Inr n' \<and> ascending (ikeys (inodes n')) \<and>
     set (inodes n') = insert \<lparr>iflags = 0, ikey = [2], ivalue = [9], ichild = None\<rparr> (set (inodes example_leaf)) \<and>
     del [2] n' = example_leaf\<lparr>unbalanced := True\<rparr>"
  by (rule put_then_del) (simp_all add: example_leaf_def)



end
