(* ===== verification/Vm_Tree.thy ===== *)
theory Vm_Tree
  imports Vm_Node
begin

text \<open>
  The abstraction of a pointer structure to a B+tree.

  A \<open>tree\<close> is the finite unfolding of the nodes below an address. \<open>repr h t\<close> says that
  the heap holds it, \<open>items\<close> reads off its key/value pairs from left to right, and
  \<open>ok lo hi\<close> is the ordering invariant a search relies on: the keys below a branch
  entry lie between its separator and the next one. The first entry of a branch has no
  lower bound of its own, because a key smaller than every separator is stored in the
  leftmost leaf before the separators are corrected by \<open>finalize\<close>.
\<close>

section \<open>Trees and their contents\<close>

datatype tree = Leaf addr "kv list" | Branch addr "(bytes \<times> tree) list"

lemma entry_size [termination_simp]:
  "e \<in> set ets \<Longrightarrow> size (snd e) < Suc (size_list (\<lambda>x. Suc (size (snd x))) ets)"
  by (induction ets) auto

fun raddr :: "tree \<Rightarrow> addr" where
  "raddr (Leaf a kvs) = a"
| "raddr (Branch a ets) = a"

fun items :: "tree \<Rightarrow> kv list" where
  "items (Leaf a kvs) = kvs"
| "items (Branch a ets) = concat (map (\<lambda>e. items (snd e)) ets)"

fun addrs :: "tree \<Rightarrow> addr list" where
  "addrs (Leaf a kvs) = [a]"
| "addrs (Branch a ets) = a # concat (map (\<lambda>e. addrs (snd e)) ets)"

fun height :: "tree \<Rightarrow> nat" where
  "height (Leaf a kvs) = 1"
| "height (Branch a ets) = Suc (fold max (map (\<lambda>e. height (snd e)) ets) 0)"

abbreviation items_of :: "(bytes \<times> tree) list \<Rightarrow> kv list" where
  "items_of ets \<equiv> concat (map (\<lambda>e. items (snd e)) ets)"

abbreviation addrs_of :: "(bytes \<times> tree) list \<Rightarrow> addr list" where
  "addrs_of ets \<equiv> concat (map (\<lambda>e. addrs (snd e)) ets)"

section \<open>Trees in the heap\<close>

definition leaf_entry :: "inode \<Rightarrow> kv \<Rightarrow> bool" where
  "leaf_entry i p \<longleftrightarrow> ikey i = fst p \<and> ivalue i = snd p \<and> ichild i = None"

definition branch_entry :: "inode \<Rightarrow> bytes \<times> tree \<Rightarrow> bool" where
  "branch_entry i e \<longleftrightarrow> ikey i = fst e \<and> ivalue i = [] \<and> ichild i = Some (raddr (snd e))"

fun repr :: "heap \<Rightarrow> tree \<Rightarrow> bool" where
  "repr h (Leaf a kvs) \<longleftrightarrow>
     a < length h \<and> isLeaf (h ! a) \<and> list_all2 leaf_entry (inodes (h ! a)) kvs"
| "repr h (Branch a ets) \<longleftrightarrow>
     a < length h \<and> \<not> isLeaf (h ! a) \<and> list_all2 branch_entry (inodes (h ! a)) ets \<and>
     list_all (\<lambda>e. repr h (snd e)) ets"

section \<open>The ordering invariant\<close>

definition bnd :: "bytes \<Rightarrow> bytes option \<Rightarrow> bytes \<Rightarrow> bool" where
  "bnd lo hi x \<longleftrightarrow> lo \<le> x \<and> (case hi of None \<Rightarrow> True | Some u \<Rightarrow> x < u)"

fun ok :: "bytes \<Rightarrow> bytes option \<Rightarrow> tree \<Rightarrow> bool"
  and oks :: "bytes \<Rightarrow> bytes option \<Rightarrow> (bytes \<times> tree) list \<Rightarrow> bool" where
  "ok lo hi (Leaf a kvs) \<longleftrightarrow>
     ascending (map fst kvs) \<and> list_all (\<lambda>p. bnd lo hi (fst p)) kvs"
| "ok lo hi (Branch a ets) \<longleftrightarrow> ets \<noteq> [] \<and> oks lo hi ets"
| "oks lo hi [] \<longleftrightarrow> True"
| "oks lo hi [(k, t)] \<longleftrightarrow> bnd lo hi k \<and> ok lo hi t"
| "oks lo hi ((k, t) # (k', t') # r) \<longleftrightarrow>
     bnd lo hi k \<and> k < k' \<and> ok lo (Some k') t \<and> oks k' hi ((k', t') # r)"

text \<open>A whole tree: ordered, and no address occurs twice.\<close>

definition btree :: "tree \<Rightarrow> bool" where
  "btree t \<longleftrightarrow> ok [] None t \<and> distinct (addrs t)"

section \<open>Induction and elementary facts\<close>

lemma tree_induct [case_names Leaf Branch, induct type: tree]:
  assumes "\<And>a kvs. P (Leaf a kvs)"
    and "\<And>a ets. (\<And>k t. (k, t) \<in> set ets \<Longrightarrow> P t) \<Longrightarrow> P (Branch a ets)"
  shows "P t"
proof (induction t rule: tree.induct)
  case (Branch a ets)
  show ?case by (rule assms(2)) (metis Branch snds.intros snd_conv)
qed (rule assms(1))

lemma raddr_in_addrs [simp]: "raddr t \<in> set (addrs t)"
  by (cases t) auto

lemma child_addrs: "(k, t) \<in> set ets \<Longrightarrow> set (addrs t) \<subseteq> set (addrs (Branch a ets))"
  by force

lemma repr_addrs: "repr h t \<Longrightarrow> a \<in> set (addrs t) \<Longrightarrow> a < length h"
  by (induction t) (force simp: list_all_iff)+

lemma repr_raddr: "repr h t \<Longrightarrow> raddr t < length h"
  by (cases t) auto

lemma repr_isLeaf:
  "repr h (Leaf a kvs) \<Longrightarrow> isLeaf (h ! a)"
  "repr h (Branch a ets) \<Longrightarrow> \<not> isLeaf (h ! a)"
  by auto

lemma list_all2_leaf_eq:
  "list_all2 leaf_entry is kvs \<Longrightarrow> list_all2 leaf_entry is kvs' \<Longrightarrow> kvs = kvs'"
  by (auto simp: list_all2_conv_all_nth leaf_entry_def intro!: nth_equalityI prod_eqI)

text \<open>The heap determines the tree below an address.\<close>

lemma repr_unique: "repr h t \<Longrightarrow> repr h t' \<Longrightarrow> raddr t = raddr t' \<Longrightarrow> t = t'"
proof (induction t arbitrary: t')
  case (Leaf a kvs)
  then obtain kvs' where "t' = Leaf a kvs'" by (cases t') auto
  with Leaf show ?case using list_all2_leaf_eq by simp blast
next
  case (Branch a ets)
  then obtain ets' where t': "t' = Branch a ets'" by (cases t') auto
  have "ets = ets'"
  proof (rule nth_equalityI)
    show len: "length ets = length ets'"
      using Branch.prems t' by (simp, metis list_all2_lengthD)
    fix i assume i: "i < length ets"
    have e: "branch_entry (inodes (h ! a) ! i) (ets ! i)"
      "branch_entry (inodes (h ! a) ! i) (ets' ! i)"
      using Branch.prems t' i len list_all2_nthD2 by (simp, blast)+
    have "snd (ets ! i) = snd (ets' ! i)"
    proof (rule Branch.IH)
      show "(fst (ets ! i), snd (ets ! i)) \<in> set ets" using i by simp
      show "repr h (snd (ets ! i))" "repr h (snd (ets' ! i))"
        using Branch.prems t' i len by (simp_all add: list_all_length)
      show "raddr (snd (ets ! i)) = raddr (snd (ets' ! i))"
        using e by (simp add: branch_entry_def)
    qed
    then show "ets ! i = ets' ! i" using e by (auto simp: branch_entry_def prod_eq_iff)
  qed
  then show ?case by (simp add: t')
qed

section \<open>Frame: changes off the tree\<close>

definition same_node :: "node \<Rightarrow> node \<Rightarrow> bool" where
  "same_node n m \<longleftrightarrow> isLeaf n = isLeaf m \<and> inodes n = inodes m"

definition agree :: "addr set \<Rightarrow> heap \<Rightarrow> heap \<Rightarrow> bool" where
  "agree A h h' \<longleftrightarrow> (\<forall>a\<in>A. a < length h \<longrightarrow> a < length h' \<and> same_node (h' ! a) (h ! a))"

lemma same_node_refl [simp]: "same_node n n"
  by (simp add: same_node_def)

lemma agree_refl [simp]: "agree A h h"
  by (simp add: agree_def)

lemma agree_trans: "agree A h h' \<Longrightarrow> agree A h' h'' \<Longrightarrow> agree A h h''"
  by (auto simp: agree_def same_node_def)

lemma agree_mono: "agree A h h' \<Longrightarrow> B \<subseteq> A \<Longrightarrow> agree B h h'"
  by (auto simp: agree_def)

lemma agree_append [simp]: "agree A h (h @ xs)"
  by (auto simp: agree_def nth_append)

lemma agree_update: "a \<notin> A \<or> same_node n (h ! a) \<Longrightarrow> agree A h (h[a := n])"
  by (cases "a < length h") (auto simp: agree_def nth_list_update list_update_beyond)

lemma repr_agree: "repr h t \<Longrightarrow> agree (set (addrs t)) h h' \<Longrightarrow> repr h' t"
proof (induction t)
  case (Leaf a kvs)
  then show ?case by (simp add: agree_def same_node_def)
next
  case (Branch a ets)
  have "repr h' t" if "(k, t) \<in> set ets" for k t
  proof (rule Branch.IH [OF that])
    show "repr h t" using that Branch.prems(1) by (force simp: list_all_iff)
    show "agree (set (addrs t)) h h'"
      by (rule agree_mono [OF Branch.prems(2) child_addrs [OF that]])
  qed
  with Branch.prems show ?case by (force simp: agree_def same_node_def list_all_iff)
qed

section \<open>Height is bounded by the heap\<close>

inductive subtree :: "tree \<Rightarrow> tree \<Rightarrow> bool" where
  subtree_child: "(k, t) \<in> set ets \<Longrightarrow> subtree t (Branch a ets)"
| subtree_step: "(k, t) \<in> set ets \<Longrightarrow> subtree s t \<Longrightarrow> subtree s (Branch a ets)"

lemma child_size: "(k, t) \<in> set ets \<Longrightarrow> size t < size (Branch a ets)"
  by (induction ets) auto

lemma subtree_size: "subtree s t \<Longrightarrow> size s < size t"
  by (induction rule: subtree.induct) (use child_size less_trans in blast)+

lemma subtree_repr: "subtree s t \<Longrightarrow> repr h t \<Longrightarrow> repr h s"
  by (induction rule: subtree.induct) (force simp: list_all_iff)+

lemma subtree_raddr_neq:
  assumes "subtree s t" and "repr h t"
  shows "raddr s \<noteq> raddr t"
  using repr_unique [of h s t] subtree_repr [OF assms] assms subtree_size by blast

lemma fold_max_bound: "(\<And>x. x \<in> set xs \<Longrightarrow> x \<le> b) \<Longrightarrow> a \<le> b \<Longrightarrow> fold max xs a \<le> (b::nat)"
  by (induction xs arbitrary: a) auto

lemma fold_max_ge: "x \<in> set xs \<or> x \<le> a \<Longrightarrow> x \<le> fold max xs (a::nat)"
proof (induction xs arbitrary: a)
  case (Cons y ys)
  have "x \<le> fold max ys (max y a)"
    by (rule Cons.IH) (use Cons.prems in auto)
  then show ?case by simp
qed simp

lemma fold_max_in: "fold max xs a \<in> insert (a::nat) (set xs)"
proof (induction xs arbitrary: a)
  case (Cons x xs)
  from Cons.IH [of "max x a"] show ?case by (auto simp: max_def split: if_splits)
qed simp

lemma child_height:
  assumes "(k, t) \<in> set ets"
  shows "height t < height (Branch a ets)"
proof -
  have "height t \<le> fold max (map (\<lambda>e. height (snd e)) ets) 0"
    by (rule fold_max_ge) (use assms in force)
  then show ?thesis by simp
qed

lemma height_pos [simp]: "0 < height t"
  by (cases t) auto

text \<open>A longest path visits distinct addresses, so a heap of \<open>n\<close> nodes has height at most \<open>n\<close>.\<close>

lemma height_le_card:
  assumes "repr h t"
  shows "\<exists>A. A \<subseteq> {a. a = raddr t \<or> (\<exists>s. subtree s t \<and> a = raddr s)} \<and> finite A \<and> card A = height t"
  using assms
proof (induction t)
  case (Leaf a kvs)
  show ?case by (rule exI [of _ "{a}"]) simp
next
  case (Branch a ets)
  show ?case
  proof (cases "ets = []")
    case True
    then show ?thesis by (intro exI [of _ "{a}"]) simp
  next
    case False
    define H where "H = fold max (map (\<lambda>e. height (snd e)) ets) 0"
    obtain k0 t0 where "(k0, t0) \<in> set ets" using False by (cases ets) auto
    then have "height t0 \<le> H" unfolding H_def by (intro fold_max_ge) force
    then have "H \<noteq> 0" using height_pos [of t0] by linarith
    then have "H \<in> set (map (\<lambda>e. height (snd e)) ets)"
      unfolding H_def using fold_max_in [of "map (\<lambda>e. height (snd e)) ets" 0] by simp
    then obtain k t where kt: "(k, t) \<in> set ets" "height t = H" by auto
    with Branch obtain A where A: "A \<subseteq> {a. a = raddr t \<or> (\<exists>s. subtree s t \<and> a = raddr s)}"
      "finite A" "card A = H"
      by (metis (no_types, lifting) list_all_iff repr.simps(2) snd_conv)
    let ?B = "{b. b = raddr (Branch a ets) \<or> (\<exists>s. subtree s (Branch a ets) \<and> b = raddr s)}"
    have sub: "\<exists>s. subtree s (Branch a ets) \<and> b = raddr s" if "b \<in> A" for b
      using that A(1) subtree_child [OF kt(1), of a] subtree_step [OF kt(1), of _ a] by blast
    then have "a \<notin> A"
      using subtree_raddr_neq [OF _ Branch.prems] by fastforce
    moreover have "insert a A \<subseteq> ?B" using sub by auto
    ultimately show ?thesis
      using A(2,3) by (intro exI [of _ "insert a A"]) (simp add: H_def)
  qed
qed

lemma height_le_heap:
  assumes "repr h t"
  shows "height t \<le> length h"
proof -
  obtain A where A: "A \<subseteq> {a. a = raddr t \<or> (\<exists>s. subtree s t \<and> a = raddr s)}" "card A = height t"
    using height_le_card [OF assms] by blast
  have "A \<subseteq> {..<length h}"
    using A(1) repr_raddr assms subtree_repr by blast
  then have "card A \<le> card {..<length h}" by (intro card_mono) auto
  with A(2) show ?thesis by simp
qed

section \<open>Order facts\<close>

definition hi_of :: "(bytes \<times> tree) list \<Rightarrow> bytes option \<Rightarrow> bytes option" where
  "hi_of ys hi = (case ys of [] \<Rightarrow> hi | (k, t) # r \<Rightarrow> Some k)"

definition lo_of :: "(bytes \<times> tree) list \<Rightarrow> bytes \<Rightarrow> bytes \<Rightarrow> bytes" where
  "lo_of xs lo k = (if xs = [] then lo else k)"

lemma hi_of_simps [simp]: "hi_of [] hi = hi" "hi_of ((k, t) # r) hi = Some k"
  by (simp_all add: hi_of_def)

lemma lo_of_simps [simp]: "lo_of [] lo k = lo" "xs \<noteq> [] \<Longrightarrow> lo_of xs lo k = k"
  by (simp_all add: lo_of_def)

lemma bnd_simps [simp]:
  "bnd lo None x \<longleftrightarrow> lo \<le> x" "bnd lo (Some u) x \<longleftrightarrow> lo \<le> x \<and> x < u"
  by (simp_all add: bnd_def)

lemma bnd_mono: "bnd lo (Some k) x \<Longrightarrow> bnd lo' hi k \<Longrightarrow> bnd lo hi x"
  by (cases hi) (auto intro: less_trans)

lemma bnd_lower: "bnd k hi x \<Longrightarrow> lo \<le> k \<Longrightarrow> bnd lo hi x"
  by (cases hi) auto

lemma oks_Cons:
  "oks lo hi ((k, t) # ys) \<longleftrightarrow>
     bnd lo hi k \<and> ok lo (hi_of ys hi) t \<and>
     (ys \<noteq> [] \<longrightarrow> k < fst (hd ys) \<and> oks (fst (hd ys)) hi ys)"
  by (cases ys) auto

lemma oks_hd_bnd: "oks lo hi ets \<Longrightarrow> ets \<noteq> [] \<Longrightarrow> bnd lo hi (fst (hd ets))"
  by (cases ets) (auto simp: oks_Cons)

lemma oks_append:
  "xs \<noteq> [] \<Longrightarrow> oks lo hi (xs @ (k, t) # ys) \<longleftrightarrow> oks lo (Some k) xs \<and> oks k hi ((k, t) # ys)"
proof (induction xs arbitrary: lo)
  case (Cons x xs)
  obtain k0 t0 where x: "x = (k0, t0)" by (cases x)
  have kb: "bnd lo (Some k) k0 \<longleftrightarrow> bnd lo hi k0 \<and> k0 < k" if "oks k hi ((k, t) # ys)"
    using oks_hd_bnd [OF that] by (cases hi) auto
  show ?case
  proof (cases xs)
    case Nil
    have "oks lo hi ((x # xs) @ (k, t) # ys) \<longleftrightarrow>
        bnd lo hi k0 \<and> k0 < k \<and> ok lo (Some k) t0 \<and> oks k hi ((k, t) # ys)"
      using Nil x by simp
    then show ?thesis using Nil x kb by auto
  next
    case C: (Cons y zs)
    obtain k1 t1 where y: "y = (k1, t1)" by (cases y)
    have "oks k1 hi (xs @ (k, t) # ys) \<longleftrightarrow> oks k1 (Some k) xs \<and> oks k hi ((k, t) # ys)"
      using Cons.IH [of k1] C by simp
    moreover have "k1 < k" if "oks k1 (Some k) xs"
      using oks_hd_bnd [OF that] C y by simp
    moreover have "oks lo hi ((x # xs) @ (k, t) # ys) \<longleftrightarrow>
        bnd lo hi k0 \<and> k0 < k1 \<and> ok lo (Some k1) t0 \<and> oks k1 hi (xs @ (k, t) # ys)"
      using C x y by simp
    moreover have "oks lo (Some k) (x # xs) \<longleftrightarrow>
        bnd lo (Some k) k0 \<and> k0 < k1 \<and> ok lo (Some k1) t0 \<and> oks k1 (Some k) xs"
      using C x y by simp
    ultimately show ?thesis using kb less_trans by blast
  qed
qed simp

lemma oks_split:
  "oks lo hi (xs @ (k, t) # ys) \<longleftrightarrow>
     (xs \<noteq> [] \<longrightarrow> oks lo (Some k) xs) \<and> oks (lo_of xs lo k) hi ((k, t) # ys)"
  by (cases "xs = []") (simp_all add: oks_append)

lemma oks_replace:
  assumes "oks lo hi (xs @ (k, t) # ys)" and "ok (lo_of xs lo k) (hi_of ys hi) t'"
  shows "oks lo hi (xs @ (k, t') # ys)"
  using assms by (auto simp: oks_split [of lo hi] oks_Cons)

lemma ok_child:
  assumes "ok lo hi (Branch a (xs @ (k, t) # ys))"
  shows "ok (lo_of xs lo k) (hi_of ys hi) t"
  using assms by (auto simp: oks_split oks_Cons)

lemma ok_items:
  "ok lo hi t \<Longrightarrow> (\<forall>p\<in>set (items t). bnd lo hi (fst p)) \<and> ascending (map fst (items t))"
  "oks lo hi ets \<Longrightarrow> (\<forall>p\<in>set (items_of ets). bnd lo hi (fst p)) \<and>
     ascending (map fst (items_of ets)) \<and> ascending (map fst ets) \<and>
     (\<forall>e\<in>set ets. bnd lo hi (fst e))"
proof (induction lo hi t and lo hi ets rule: ok_oks.induct)
  case (1 lo hi a kvs)
  then show ?case by (auto simp: list_all_iff)
next
  case (5 lo hi k t k' t' r)
  let ?r = "(k', t') # r"
  have p: "bnd lo hi k" "k < k'" "ok lo (Some k') t" "oks k' hi ?r"
    using "5.prems" by simp_all
  note I1 = "5.IH"(1) [OF p(3)] and I2 = "5.IH"(2) [OF p(4)]
  have lok: "lo \<le> k'" using p(1,2) by (cases hi) auto
  have kb: "bnd k' hi k'" using oks_hd_bnd [OF p(4)] by simp
  have b: "bnd lo hi (fst q)" "fst q < k'" if "q \<in> set (items t)" for q
  proof -
    have "bnd lo (Some k') (fst q)" using I1 that by blast
    then show "bnd lo hi (fst q)" "fst q < k'" using bnd_mono kb by auto
  qed
  have c: "bnd lo hi x" "k' \<le> x" if "bnd k' hi x" for x
    using that bnd_lower [OF that lok] by (auto simp: bnd_def)
  have low: "\<forall>q\<in>set (items_of ?r). bnd lo hi (fst q) \<and> k' \<le> fst q"
    "\<forall>e\<in>set ?r. bnd lo hi (fst e) \<and> k' \<le> fst e"
    using I2 c by blast+
  have lt: "fst q < fst q'" if "q \<in> set (items t)" "q' \<in> set (items_of ?r)" for q q'
    using b(2) [OF that(1)] low(1) that(2) less_le_trans by blast
  have i: "items_of ((k, t) # ?r) = items t @ items_of ?r" by simp
  have "ascending (map fst (items_of ((k, t) # ?r)))"
    unfolding i map_append ascending_append set_map using I1 I2 lt by blast
  moreover have "ascending (map fst ((k, t) # ?r))"
    using I2 p(2) low(2) by (auto dest: less_le_trans)
  moreover have "\<forall>q\<in>set (items_of ((k, t) # ?r)). bnd lo hi (fst q)"
    unfolding i set_append using b(1) low(1) by blast
  moreover have "\<forall>e\<in>set ((k, t) # ?r). bnd lo hi (fst e)"
    using low(2) p(1) by simp
  ultimately show ?case by blast
qed auto

lemma ok_ascending: "ok lo hi t \<Longrightarrow> ascending (map fst (items t))"
  using ok_items(1) by blast

lemma ok_bnd: "ok lo hi t \<Longrightarrow> p \<in> set (items t) \<Longrightarrow> bnd lo hi (fst p)"
  using ok_items(1) by blast

lemma oks_ascending_seps: "oks lo hi ets \<Longrightarrow> ascending (map fst ets)"
  using ok_items(2) by blast

text \<open>
  The child a search for \<open>key\<close> descends to: everything left of it is smaller and
  everything right of it is larger than the key.
\<close>

definition routes :: "bytes \<Rightarrow> (bytes \<times> tree) list \<Rightarrow> bytes \<Rightarrow> (bytes \<times> tree) list \<Rightarrow> bool" where
  "routes key xs k ys \<longleftrightarrow> (xs \<noteq> [] \<longrightarrow> k \<le> key) \<and> (ys \<noteq> [] \<longrightarrow> key < fst (hd ys))"

lemma routes_bnd:
  assumes "routes key xs k ys" and "bnd lo hi key"
  shows "bnd (lo_of xs lo k) (hi_of ys hi) key"
  using assms by (cases xs; cases ys; cases hi) (auto simp: routes_def)

lemma routes_items:
  assumes "oks lo hi (xs @ (k, t) # ys)" and "routes key xs k ys"
  shows "\<forall>p\<in>set (items_of xs). fst p < key" and "\<forall>p\<in>set (items_of ys). key < fst p"
proof -
  show "\<forall>p\<in>set (items_of xs). fst p < key"
  proof (cases "xs = []")
    case False
    then have "oks lo (Some k) xs" using assms(1) by (simp add: oks_append)
    then have "\<forall>p\<in>set (items_of xs). bnd lo (Some k) (fst p)"
      using ok_items(2) by blast
    moreover have "k \<le> key" using assms(2) False by (simp add: routes_def)
    ultimately show ?thesis by (auto dest: less_le_trans)
  qed simp
  show "\<forall>p\<in>set (items_of ys). key < fst p"
  proof (cases "ys = []")
    case False
    then have "oks (fst (hd ys)) hi ys"
      using assms(1) by (simp add: oks_split oks_Cons)
    then have "\<forall>p\<in>set (items_of ys). bnd (fst (hd ys)) hi (fst p)"
      using ok_items(2) by blast
    then have "\<forall>p\<in>set (items_of ys). fst (hd ys) \<le> fst p"
      by (auto simp: bnd_def)
    moreover have "key < fst (hd ys)" using assms(2) False by (simp add: routes_def)
    ultimately show ?thesis by (meson less_le_trans)
  qed simp
qed

end
