(* ===== verification/Vm_Cursor.thy ===== *)
theory Vm_Cursor
  imports Vm_Tree
begin

text \<open>
  Cursors (\<open>cursor.go\<close>).

  A tree cursor is a stack of references into the nodes from the root to a leaf; the
  model keeps the stack with its top first, so \<open>c.stack[len(c.stack)-1]\<close> is the head.
  Indices are Go \<open>int\<close>s and may be \<open>-1\<close> on an empty node. A directory cursor walks a
  sorted list of bucket names.

  The descents and the loops over empty leaves follow pointers, so they carry fuel:
  \<open>dfuel h\<close>, one more than the number of nodes in the heap. A path of a tree visits
  distinct nodes and the leaves of a tree with distinct addresses are no more than the
  nodes of the heap, so the fuel suffices; the lemmas show it. The exception is the loop
  of \<open>Last\<close>, which does not end when every leaf of a tree of several leaves is empty.
\<close>

section \<open>Cursor state\<close>

record elemRef =
  enode :: addr
  eindex :: int

text \<open>The result of a cursor movement: key, value and flags, or nil.\<close>

type_synonym item = "(bytes \<times> bytes \<times> 32 word) option"

definition count :: "heap \<Rightarrow> elemRef \<Rightarrow> int" where
  "count h r = int (length (inodes (h ! enode r)))"

definition ref_isLeaf :: "heap \<Rightarrow> elemRef \<Rightarrow> bool" where
  "ref_isLeaf h r = isLeaf (h ! enode r)"

definition dfuel :: "heap \<Rightarrow> nat" where
  "dfuel h = Suc (length h)"

section \<open>Tree cursor\<close>

definition keyValue :: "heap \<Rightarrow> elemRef list \<Rightarrow> item res" where
  "keyValue h st =
     (case st of
        [] \<Rightarrow> Inl (Panic ''index out of range'')
      | ref # _ \<Rightarrow>
          if count h ref = 0 \<or> count h ref \<le> eindex ref then Inr None
          else rbind (slice_index (inodes (h ! enode ref)) (eindex ref))
                 (\<lambda>i. Inr (Some (ikey i, ivalue i, iflags i))))"

text \<open>The child pointer of the element a reference points at; following nil panics.\<close>

definition ref_child :: "heap \<Rightarrow> elemRef \<Rightarrow> addr res" where
  "ref_child h ref =
     rbind (slice_index (inodes (h ! enode ref)) (eindex ref))
       (\<lambda>i. case ichild i of None \<Rightarrow> Inl (Panic ''nil pointer dereference'') | Some c \<Rightarrow> Inr c)"

fun goToFirstElementOnTheStack :: "nat \<Rightarrow> heap \<Rightarrow> elemRef list \<Rightarrow> elemRef list res" where
  "goToFirstElementOnTheStack 0 h st = Inl OutOfFuel"
| "goToFirstElementOnTheStack (Suc f) h [] = Inl (Panic ''index out of range'')"
| "goToFirstElementOnTheStack (Suc f) h (ref # st) =
     (if ref_isLeaf h ref then Inr (ref # st)
      else rbind (ref_child h ref)
             (\<lambda>c. goToFirstElementOnTheStack f h (\<lparr>enode = c, eindex = 0\<rparr> # ref # st)))"

fun cursor_last :: "nat \<Rightarrow> heap \<Rightarrow> elemRef list \<Rightarrow> elemRef list res" where
  "cursor_last 0 h st = Inl OutOfFuel"
| "cursor_last (Suc f) h [] = Inl (Panic ''index out of range'')"
| "cursor_last (Suc f) h (ref # st) =
     (if ref_isLeaf h ref then Inr (ref # st)
      else rbind (ref_child h ref)
             (\<lambda>c. let nextRef = \<lparr>enode = c, eindex = 0\<rparr>
                  in cursor_last f h (nextRef\<lparr>eindex := count h nextRef - 1\<rparr> # ref # st)))"

text \<open>The inner loop of \<open>next\<close>: pop until an index can be advanced.\<close>

fun next_climb :: "heap \<Rightarrow> elemRef list \<Rightarrow> elemRef list option" where
  "next_climb h [] = None"
| "next_climb h (e # st) =
     (if eindex e < count h e - 1 then Some (e\<lparr>eindex := eindex e + 1\<rparr> # st)
      else next_climb h st)"

fun cursor_next :: "nat \<Rightarrow> heap \<Rightarrow> elemRef list \<Rightarrow> (item \<times> elemRef list) res" where
  "cursor_next 0 h st = Inl OutOfFuel"
| "cursor_next (Suc f) h st =
     (case next_climb h st of
        None \<Rightarrow> Inr (None, st)
      | Some st \<Rightarrow>
          rbind (goToFirstElementOnTheStack (dfuel h) h st)
            (\<lambda>st. if count h (hd st) = 0 then cursor_next f h st
                  else rbind (keyValue h st) (\<lambda>r. Inr (r, st))))"

definition cursor_first :: "heap \<Rightarrow> addr option \<Rightarrow> (item \<times> elemRef list) res" where
  "cursor_first h rt =
     (case rt of
        None \<Rightarrow> Inl (Panic ''nil pointer dereference'')
      | Some n \<Rightarrow>
          rbind (goToFirstElementOnTheStack (dfuel h) h [\<lparr>enode = n, eindex = 0\<rparr>])
            (\<lambda>st. rbind (if count h (hd st) = 0
                         then rbind (cursor_next (dfuel h) h st) (\<lambda>(_, st). Inr st)
                         else Inr st)
                    (\<lambda>st. rbind (keyValue h st) (\<lambda>r. Inr (r, st)))))"

text \<open>
  The loop of \<open>prev\<close>: pop until an index can be decremented. \<open>None\<close> is the case in which
  the first element is reached with one reference left on the stack.
\<close>

fun prev_climb :: "elemRef list \<Rightarrow> elemRef list option" where
  "prev_climb [] = Some []"
| "prev_climb (e # st) =
     (if 0 < eindex e then Some (e\<lparr>eindex := eindex e - 1\<rparr> # st)
      else if st = [] then None else prev_climb st)"

definition cursor_prev :: "heap \<Rightarrow> addr option \<Rightarrow> elemRef list \<Rightarrow> (item \<times> elemRef list) res" where
  "cursor_prev h rt st =
     (case prev_climb st of
        None \<Rightarrow> rbind (cursor_first h rt) (\<lambda>(_, st). Inr (None, st))
      | Some [] \<Rightarrow> Inr (None, [])
      | Some st \<Rightarrow>
          rbind (cursor_last (dfuel h) h st)
            (\<lambda>st. rbind (keyValue h st) (\<lambda>r. Inr (r, st))))"

text \<open>The loop of \<open>Last\<close> that steps back over empty leaves.\<close>

fun Last_loop :: "nat \<Rightarrow> heap \<Rightarrow> addr option \<Rightarrow> elemRef list \<Rightarrow> elemRef list res" where
  "Last_loop 0 h rt st = Inl OutOfFuel"
| "Last_loop (Suc f) h rt st =
     (if 1 < length st \<and> count h (hd st) = 0
      then rbind (cursor_prev h rt st) (\<lambda>(_, st). Last_loop f h rt st)
      else Inr st)"

definition cursor_Last_tree ::
  "nat \<Rightarrow> heap \<Rightarrow> addr option \<Rightarrow> (item \<times> elemRef list) res" where
  "cursor_Last_tree fuel h rt =
     (case rt of
        None \<Rightarrow> Inl (Panic ''nil pointer dereference'')
      | Some n \<Rightarrow>
          let ref = \<lparr>enode = n, eindex = 0\<rparr>; ref = ref\<lparr>eindex := count h ref - 1\<rparr>
          in rbind (cursor_last (dfuel h) h [ref])
               (\<lambda>st. rbind (Last_loop fuel h rt st)
                  (\<lambda>st. if st = [] then Inr (None, st)
                        else rbind (keyValue h st) (\<lambda>r. Inr (r, st)))))"

text \<open>\<open>nsearch\<close>: position the top reference within its leaf.\<close>

definition nsearch :: "heap \<Rightarrow> bytes \<Rightarrow> elemRef list \<Rightarrow> elemRef list" where
  "nsearch h key st =
     (case st of [] \<Rightarrow> []
      | e # r \<Rightarrow> e\<lparr>eindex := int (key_index (inodes (h ! enode e)) key)\<rparr> # r)"

text \<open>
  The index chosen by \<open>searchNode\<close>: the closure given to \<open>sort.Search\<close> records an exact
  match in a captured variable; without one the search steps back to the entry before.
\<close>

definition searchNode_probe :: "inode list \<Rightarrow> bytes \<Rightarrow> nat \<Rightarrow> bool \<Rightarrow> bool \<times> bool" where
  "searchNode_probe is key i exact =
     (let ret = bytes_Compare (ikey (is ! i)) key
      in (ret \<noteq> -1, if ret = 0 then True else exact))"

definition searchNode_index :: "inode list \<Rightarrow> bytes \<Rightarrow> nat" where
  "searchNode_index is key =
     (let (index, exact) = sort_Search_st (length is) (searchNode_probe is key) False
      in if \<not> exact \<and> 0 < index then index - 1 else index)"

fun search :: "nat \<Rightarrow> heap \<Rightarrow> bytes \<Rightarrow> addr option \<Rightarrow> elemRef list \<Rightarrow> elemRef list res" where
  "search 0 h key n st = Inl OutOfFuel"
| "search (Suc f) h key None st = Inl (Panic ''cursor search: nil node'')"
| "search (Suc f) h key (Some n) st =
     (let e = \<lparr>enode = n, eindex = 0\<rparr>
      in if ref_isLeaf h e then Inr (nsearch h key (e # st))
         else
           let index = searchNode_index (inodes (h ! n)) key;
               st = e\<lparr>eindex := int index\<rparr> # st
           in rbind (slice_index (inodes (h ! n)) (int index))
                (\<lambda>i. search f h key (ichild i) st))"

definition cursor_seek ::
  "heap \<Rightarrow> addr option \<Rightarrow> bytes \<Rightarrow> (item \<times> elemRef list) res" where
  "cursor_seek h rt key =
     rbind (search (dfuel h) h key rt [])
       (\<lambda>st. rbind (keyValue h st) (\<lambda>r. Inr (r, st)))"

definition cursor_Seek_tree ::
  "heap \<Rightarrow> addr option \<Rightarrow> bytes \<Rightarrow> (item \<times> elemRef list) res" where
  "cursor_Seek_tree h rt key =
     rbind (cursor_seek h rt key)
       (\<lambda>(r, st). if count h (hd st) \<le> eindex (hd st) then cursor_next (dfuel h) h st
                  else Inr (r, st))"

section \<open>Directory cursor\<close>

record dirCursor =
  dir :: "bytes list"
  dirIdx :: int

definition dirKeyValue :: "dirCursor \<Rightarrow> bytes option" where
  "dirKeyValue c =
     (if dirIdx c < 0 \<or> int (length (dir c)) \<le> dirIdx c then None
      else Some (dir c ! nat (dirIdx c)))"

definition dir_First :: "dirCursor \<Rightarrow> bytes option \<times> dirCursor" where
  "dir_First c = (let c = c\<lparr>dirIdx := 0\<rparr> in (dirKeyValue c, c))"

definition dir_Last :: "dirCursor \<Rightarrow> bytes option \<times> dirCursor" where
  "dir_Last c =
     (if length (dir c) = 0 then (None, c\<lparr>dirIdx := 0\<rparr>)
      else let c = c\<lparr>dirIdx := int (length (dir c)) - 1\<rparr> in (dirKeyValue c, c))"

definition dir_Next :: "dirCursor \<Rightarrow> bytes option \<times> dirCursor" where
  "dir_Next c = (let c = c\<lparr>dirIdx := dirIdx c + 1\<rparr> in (dirKeyValue c, c))"

definition dir_Prev :: "dirCursor \<Rightarrow> bytes option \<times> dirCursor" where
  "dir_Prev c = (let c = c\<lparr>dirIdx := dirIdx c - 1\<rparr> in (dirKeyValue c, c))"

definition dir_Seek :: "bytes \<Rightarrow> dirCursor \<Rightarrow> bytes option \<times> dirCursor" where
  "dir_Seek seek c =
     (let c = c\<lparr>dirIdx := int (sort_Search (length (dir c))
                                (\<lambda>i. 0 \<le> bytes_Compare (dir c ! i) seek))\<rparr>
      in (dirKeyValue c, c))"

section \<open>The index chosen in a branch\<close>

lemma search_loop_fst:
  assumes "\<And>h s. fst (f h s) = g h"
  shows "fst (search_loop f i j s) = fst (search_loop (\<lambda>h u. (g h, u)) i j u)"
  using assms
proof (induction f i j s arbitrary: u rule: search_loop.induct)
  case (1 f i j s)
  show ?case
  proof (cases "i < j")
    case True
    let ?h = "(i + j) div 2"
    show ?thesis
      using True "1.prems" 1(1)[OF True refl refl _ "1.prems"] 1(2)[OF True refl refl _ "1.prems"]
      by (subst (1 2) search_loop.simps) (simp add: Let_def)
  next
    case False
    then show ?thesis by (simp add: search_loop.simps)
  qed
qed

lemma probe_simps [simp]:
  "fst (searchNode_probe is key i e) \<longleftrightarrow> \<not> ikey (is ! i) < key"
  "snd (searchNode_probe is key i e) \<longleftrightarrow> ikey (is ! i) = key \<or> e"
  by (auto simp: searchNode_probe_def Let_def)

lemma probe_loop_exact:
  assumes "j \<le> length is" and "search_loop (searchNode_probe is key) i j s = (r, e)"
  shows "(s \<longrightarrow> e) \<and> (e \<longrightarrow> s \<or> key \<in> ikey ` set is) \<and> (r < j \<and> ikey (is ! r) = key \<longrightarrow> e)"
  using assms
proof (induction "searchNode_probe is key" i j s rule: search_loop.induct)
  case (1 i j s)
  show ?case
  proof (cases "i < j")
    case True
    let ?h = "(i + j) div 2"
    have h: "?h < length is" "?h < j" using True "1.prems" by auto
    show ?thesis
    proof (cases "ikey (is ! ?h) < key")
      case lt: True
      have "search_loop (searchNode_probe is key) i j s =
          search_loop (searchNode_probe is key) (Suc ?h) j (snd (searchNode_probe is key ?h s))"
        using True lt by (subst search_loop.simps) (simp add: Let_def)
      then show ?thesis
        using 1(1)[OF True refl refl] lt "1.prems" by auto
    next
      case ge: False
      let ?s = "snd (searchNode_probe is key ?h s)"
      have step: "search_loop (searchNode_probe is key) i ?h ?s = (r, e)"
        using True ge "1.prems"(2) by (subst (asm) search_loop.simps) (simp add: Let_def)
      have IH: "(?s \<longrightarrow> e) \<and> (e \<longrightarrow> ?s \<or> key \<in> ikey ` set is) \<and> (r < ?h \<and> ikey (is ! r) = key \<longrightarrow> e)"
        by (rule 1(2)[OF True refl refl _ _ step]) (use ge h in auto)
      have "r \<le> ?h"
        using search_loop_bounds [of i ?h "searchNode_probe is key" ?s] step True by simp
      moreover have "ikey (is ! ?h) = key \<Longrightarrow> key \<in> ikey ` set is"
        using h by (metis image_eqI nth_mem)
      ultimately show ?thesis using IH by (auto simp: le_less)
    qed
  next
    case False
    then show ?thesis using "1.prems" search_loop.simps [of _ i j s] by simp
  qed
qed

lemma key_index_loop:
  "key_index is key = fst (search_loop (searchNode_probe is key) 0 (length is) s)"
  unfolding key_index_def sort_Search_def sort_Search_st_def
  by (rule search_loop_fst [symmetric]) simp

lemma searchNode_index_eq:
  assumes "ascending (ikeys is)"
  shows "searchNode_index is key =
    (if key \<notin> ikey ` set is \<and> 0 < key_index is key then key_index is key - 1
     else key_index is key)"
proof -
  obtain r e where re: "search_loop (searchNode_probe is key) 0 (length is) False = (r, e)"
    by fastforce
  have r: "r = key_index is key" using re by (simp add: key_index_loop [of _ _ False])
  have "e \<longleftrightarrow> key \<in> ikey ` set is"
    using probe_loop_exact [OF _ re] r key_index_exact [OF assms, of key] by auto
  then show ?thesis
    using re r by (simp add: searchNode_index_def sort_Search_st_def)
qed

lemma searchNode_routes:
  assumes "list_all2 branch_entry is ets" and "ascending (map fst ets)" and "ets \<noteq> []"
  shows "\<exists>xs k t ys. ets = xs @ (k, t) # ys \<and> length xs = searchNode_index is key \<and>
           routes key xs k ys"
proof -
  let ?j = "key_index is key" and ?i = "searchNode_index is key"
  have keys: "ikeys is = map fst ets"
    using assms(1) by (auto simp: list_all2_conv_all_nth branch_entry_def intro!: nth_equalityI)
  have asc: "ascending (ikeys is)" using keys assms(2) by simp
  have len: "length is = length ets" using assms(1) by (rule list_all2_lengthD)
  have ki: "ikey (is ! m) = fst (ets ! m)" if "m < length ets" for m
    using that keys len by (metis nth_map)
  have below: "fst (ets ! m) < key" if "m < ?j" "m < length ets" for m
  proof -
    have "m < length (takeWhile (\<lambda>i. ikey i < key) is)"
      using that(1) by (simp add: key_index_eq [OF asc])
    then have "ikey (is ! m) < key"
      using nth_mem set_takeWhileD takeWhile_nth by metis
    then show ?thesis using ki that(2) by simp
  qed
  have at: "key \<le> fst (ets ! ?j)" if "?j < length ets"
    using that nth_length_takeWhile [of "\<lambda>i. ikey i < key" "is"] len ki
    by (auto simp: key_index_eq [OF asc] not_less)
  have jle: "?j \<le> length ets"
    unfolding key_index_eq [OF asc] len [symmetric] by (rule length_takeWhile_le)
  define present where "present \<longleftrightarrow> key \<in> ikey ` set is"
  have i_eq: "?i = (if \<not> present \<and> 0 < ?j then ?j - 1 else ?j)"
    unfolding present_def by (rule searchNode_index_eq [OF asc])
  have pres: "present \<Longrightarrow> ?j < length ets \<and> fst (ets ! ?j) = key"
    using key_index_exact [OF asc, of key] ki len unfolding present_def by metis
  have i: "?i < length ets"
  proof (cases present)
    case False
    have "0 < length ets" using assms(3) by simp
    then show ?thesis using False i_eq jle by (cases "?j") auto
  qed (use pres i_eq in simp)
  obtain k t where kt: "ets ! ?i = (k, t)" by fastforce
  have dec: "ets = take ?i ets @ (k, t) # drop (Suc ?i) ets"
    using id_take_nth_drop [OF i] kt by simp
  have "routes key (take ?i ets) k (drop (Suc ?i) ets)"
    unfolding routes_def
  proof (intro conjI impI)
    assume "take ?i ets \<noteq> []"
    then have pos: "0 < ?i" by auto
    show "k \<le> key"
    proof (cases present)
      case True
      then show ?thesis using kt pres i_eq by simp
    next
      case False
      then have "?i < ?j" using i_eq pos by (auto split: if_splits)
      then show ?thesis using below [OF _ i] kt by simp
    qed
  next
    assume ne: "drop (Suc ?i) ets \<noteq> []"
    then have si: "Suc ?i < length ets" by simp
    have hd: "fst (hd (drop (Suc ?i) ets)) = fst (ets ! Suc ?i)"
      using si by (simp add: hd_drop_conv_nth)
    have mono: "fst (ets ! m) < fst (ets ! n)" if "m < n" "n < length ets" for m n
      using assms(2) that by (auto simp: sorted_wrt_iff_nth_less)
    show "key < fst (hd (drop (Suc ?i) ets))"
    proof (cases present)
      case True
      then have "?i = ?j" using i_eq by simp
      then show ?thesis using pres [OF True] hd mono [of ?j "Suc ?j"] si by simp
    next
      case False
      have "fst (ets ! Suc ?i) \<noteq> key"
      proof
        assume "fst (ets ! Suc ?i) = key"
        then have "key = ikey (is ! Suc ?i)" using ki [OF si] by simp
        then show False using False si len by (simp add: present_def)
      qed
      moreover have "key \<le> fst (ets ! Suc ?i)"
      proof (cases "?j = Suc ?i")
        case True
        then show ?thesis using at si by simp
      next
        case False
        then have "?j \<le> ?i" using i_eq \<open>\<not> present\<close> by (auto split: if_splits)
        then show ?thesis using at mono [of ?j "Suc ?i"] si by simp
      qed
      ultimately show ?thesis using hd by simp
    qed
  qed
  moreover have "length (take ?i ets) = ?i" using i by simp
  ultimately show ?thesis using dec by blast
qed

section \<open>Positions in a tree\<close>

text \<open>
  A path of child indices from the root ends at a leaf index. \<open>pos\<close> is the cursor stack
  of a path, \<open>after\<close> the pairs behind the position and \<open>rest\<close> those at or behind it.
  Partial paths, which stop at a branch entry, stand for the entry's whole subtree.
\<close>

fun pos :: "tree \<Rightarrow> nat list \<Rightarrow> elemRef list" where
  "pos t [] = []"
| "pos (Leaf a kvs) (i # is) = [\<lparr>enode = a, eindex = int i\<rparr>]"
| "pos (Branch a ets) (i # is) = pos (snd (ets ! i)) is @ [\<lparr>enode = a, eindex = int i\<rparr>]"

fun valid :: "tree \<Rightarrow> nat list \<Rightarrow> bool" where
  "valid t [] \<longleftrightarrow> False"
| "valid (Leaf a kvs) (i # is) \<longleftrightarrow> is = []"
| "valid (Branch a ets) (i # is) \<longleftrightarrow> i < length ets \<and> valid (snd (ets ! i)) is"

fun pvalid :: "tree \<Rightarrow> nat list \<Rightarrow> bool" where
  "pvalid t [] \<longleftrightarrow> False"
| "pvalid (Leaf a kvs) (i # is) \<longleftrightarrow> is = []"
| "pvalid (Branch a ets) (i # is) \<longleftrightarrow> i < length ets \<and> (is = [] \<or> pvalid (snd (ets ! i)) is)"

fun after :: "tree \<Rightarrow> nat list \<Rightarrow> kv list" where
  "after t [] = []"
| "after (Leaf a kvs) (i # is) = drop (Suc i) kvs"
| "after (Branch a ets) (i # is) = after (snd (ets ! i)) is @ items_of (drop (Suc i) ets)"

fun rest :: "tree \<Rightarrow> nat list \<Rightarrow> kv list" where
  "rest t [] = items t"
| "rest (Leaf a kvs) (i # is) = drop i kvs"
| "rest (Branch a ets) (i # is) = rest (snd (ets ! i)) is @ items_of (drop (Suc i) ets)"

fun cur :: "tree \<Rightarrow> nat list \<Rightarrow> kv option" where
  "cur t [] = None"
| "cur (Leaf a kvs) (i # is) = (if i < length kvs then Some (kvs ! i) else None)"
| "cur (Branch a ets) (i # is) = cur (snd (ets ! i)) is"

fun leaf_kvs :: "tree \<Rightarrow> nat list \<Rightarrow> kv list" where
  "leaf_kvs (Leaf a kvs) is = kvs"
| "leaf_kvs (Branch a ets) [] = []"
| "leaf_kvs (Branch a ets) (i # is) = (if i < length ets then leaf_kvs (snd (ets ! i)) is else [])"

text \<open>Every branch has an entry.\<close>

fun full :: "tree \<Rightarrow> bool" where
  "full (Leaf a kvs) = True"
| "full (Branch a ets) = (ets \<noteq> [] \<and> list_all (\<lambda>e. full (snd e)) ets)"

fun ext :: "tree \<Rightarrow> nat list \<Rightarrow> nat list" where
  "ext t [] = []"
| "ext (Leaf a kvs) (i # is) = [i]"
| "ext (Branch a ets) (i # is) =
     (if i < length ets then i # ext (snd (ets ! i)) (if is = [] then [0] else is) else [i])"

fun inc :: "tree \<Rightarrow> nat list \<Rightarrow> nat list option" where
  "inc t [] = None"
| "inc (Leaf a kvs) (i # is) = (if Suc i < length kvs then Some [Suc i] else None)"
| "inc (Branch a ets) (i # is) =
     (case inc (snd (ets ! i)) is of
        Some js \<Rightarrow> Some (i # js)
      | None \<Rightarrow> if Suc i < length ets then Some [Suc i] else None)"

fun nleaves :: "tree \<Rightarrow> nat" where
  "nleaves (Leaf a kvs) = 1"
| "nleaves (Branch a ets) = sum_list (map (\<lambda>e. nleaves (snd e)) ets)"

fun leaves_after :: "tree \<Rightarrow> nat list \<Rightarrow> nat" where
  "leaves_after t [] = 0"
| "leaves_after (Leaf a kvs) (i # is) = 0"
| "leaves_after (Branch a ets) (i # is) =
     leaves_after (snd (ets ! i)) is + sum_list (map (\<lambda>e. nleaves (snd e)) (drop (Suc i) ets))"

definition kv_of :: "item \<Rightarrow> kv option" where
  "kv_of r = map_option (\<lambda>(k, v, f). (k, v)) r"

lemma kv_of_simps [simp]: "kv_of None = None" "kv_of (Some (k, v, f)) = Some (k, v)"
  by (simp_all add: kv_of_def)

lemma kv_of_eq_None [simp]: "kv_of r = None \<longleftrightarrow> r = None"
  by (simp add: kv_of_def)

lemma ok_full: "ok lo hi t \<Longrightarrow> full t"
  "oks lo hi ets \<Longrightarrow> list_all (\<lambda>e. full (snd e)) ets"
  by (induction lo hi t and lo hi ets rule: ok_oks.induct) auto

lemma repr_child: "repr h (Branch a ets) \<Longrightarrow> i < length ets \<Longrightarrow> repr h (snd (ets ! i))"
  by (simp add: list_all_length)

lemma full_child: "full (Branch a ets) \<Longrightarrow> i < length ets \<Longrightarrow> full (snd (ets ! i))"
  by (simp add: list_all_length)

lemma nth_height: "i < length ets \<Longrightarrow> height (snd (ets ! i)) < height (Branch a ets)"
  by (rule child_height [of "fst (ets ! i)"]) simp

lemma items_of_nth_drop: "i < length ets \<Longrightarrow>
    items_of (drop i ets) = items (snd (ets ! i)) @ items_of (drop (Suc i) ets)"
  by (simp add: Cons_nth_drop_Suc [symmetric])

lemma repr_ref_child:
  assumes "repr h (Branch a ets)" and "i < length ets"
  shows "ref_child h \<lparr>enode = a, eindex = int i\<rparr> = Inr (raddr (snd (ets ! i)))"
proof -
  have l: "list_all2 branch_entry (inodes (h ! a)) ets" using assms by simp
  have "i < length (inodes (h ! a))" using assms(2) list_all2_lengthD [OF l] by simp
  moreover have "branch_entry (inodes (h ! a) ! i) (ets ! i)"
    using list_all2_nthD2 [OF l assms(2)] .
  ultimately show ?thesis by (simp add: ref_child_def branch_entry_def)
qed

lemma repr_count:
  "repr h (Leaf a kvs) \<Longrightarrow> count h \<lparr>enode = a, eindex = i\<rparr> = int (length kvs)"
  "repr h (Branch a ets) \<Longrightarrow> count h \<lparr>enode = a, eindex = i\<rparr> = int (length ets)"
  by (auto simp: count_def dest: list_all2_lengthD)

lemma pvalid_zero: "full t \<Longrightarrow> pvalid t [0]"
  by (cases t) auto

lemma pos_zero: "pos t [i] = [\<lparr>enode = raddr t, eindex = int i\<rparr>]"
  by (cases t) auto

lemma rest_zero: "full t \<Longrightarrow> rest t [0] = items t"
  by (cases t) (auto simp: neq_Nil_conv)

lemma rest_cur: "valid t p \<Longrightarrow>
    rest t p = (case cur t p of None \<Rightarrow> after t p | Some x \<Rightarrow> x # after t p)"
  by (induction t p rule: cur.induct) (auto simp: Cons_nth_drop_Suc split: option.splits)

text \<open>The descent to the first leaf under the top of the stack.\<close>

lemma goToFirst_spec:
  assumes "repr h t" and "full t" and "pvalid t js" and "height t \<le> f"
  shows "goToFirstElementOnTheStack f h (pos t js @ st) = Inr (pos t (ext t js) @ st)"
  using assms
proof (induction t arbitrary: js f st)
  case (Leaf a kvs)
  then obtain i f' where "js = [i]" "f = Suc f'" by (cases js; cases f) auto
  with Leaf show ?case by (simp add: ref_isLeaf_def)
next
  case (Branch a ets)
  then obtain i "is" f' where js: "js = i # is" and f: "f = Suc f'"
    by (cases js; cases f) auto
  then have i: "i < length ets" using Branch.prems by simp
  let ?c = "snd (ets ! i)" and ?ref = "\<lparr>enode = a, eindex = int i\<rparr>"
  have c: "(fst (ets ! i), ?c) \<in> set ets" using i by simp
  have rc: "repr h ?c" "full ?c" "height ?c < height (Branch a ets)"
    using repr_child [OF Branch.prems(1) i] full_child [OF Branch.prems(2) i] nth_height [OF i]
    by auto
  show ?case
  proof (cases "is = []")
    case True
    have "goToFirstElementOnTheStack f h (pos (Branch a ets) js @ st) =
        goToFirstElementOnTheStack f' h (pos ?c [0] @ ?ref # st)"
      using js True f Branch.prems(1) repr_ref_child [OF Branch.prems(1) i]
      by (simp add: ref_isLeaf_def pos_zero)
    also have "\<dots> = Inr (pos ?c (ext ?c [0]) @ ?ref # st)"
      by (rule Branch.IH [OF c rc(1,2) pvalid_zero]) (use rc Branch.prems(4) f in auto)
    finally show ?thesis using js True i by simp
  next
    case False
    have "goToFirstElementOnTheStack f h (pos ?c is @ ?ref # st) = Inr (pos ?c (ext ?c is) @ ?ref # st)"
      by (rule Branch.IH [OF c rc(1,2)]) (use rc Branch.prems js False in auto)
    then show ?thesis using js False i by simp
  qed
qed

lemma ext_valid: "full t \<Longrightarrow> pvalid t js \<Longrightarrow> valid t (ext t js) \<and> rest t (ext t js) = rest t js"
proof (induction t arbitrary: js)
  case (Branch a ets)
  then obtain i "is" where js: "js = i # is" by (cases js) auto
  then have i: "i < length ets" using Branch.prems by simp
  then have c: "(fst (ets ! i), snd (ets ! i)) \<in> set ets" "full (snd (ets ! i))"
    using full_child [OF Branch.prems(1)] by auto
  show ?case
    using Branch.IH [OF c] Branch.prems js i pvalid_zero [OF c(2)] rest_zero [OF c(2)]
    by (cases "is = []") auto
qed (auto simp: neq_Nil_conv elim!: pvalid.elims)

section \<open>Moving forward\<close>

lemma next_climb_pos:
  assumes "repr h t" and "valid t p"
  shows "next_climb h (pos t p @ st) =
    (case inc t p of Some js \<Rightarrow> Some (pos t js @ st) | None \<Rightarrow> next_climb h st)"
  using assms
proof (induction t p arbitrary: st rule: valid.induct)
  case (2 a kvs i "is")
  then show ?case using repr_count(1) [of h a kvs "int i"] by auto
next
  case (3 a ets i "is")
  let ?c = "snd (ets ! i)" and ?ref = "\<lparr>enode = a, eindex = int i\<rparr>"
  have i: "i < length ets" "valid ?c is" using "3.prems" by auto
  have "next_climb h (pos ?c is @ ?ref # st) =
      (case inc ?c is of Some js \<Rightarrow> Some (pos ?c js @ ?ref # st) | None \<Rightarrow> next_climb h (?ref # st))"
    by (rule "3.IH" [OF repr_child [OF "3.prems"(1) i(1)] i(2)])
  then show ?case
    using repr_count(2) [OF "3.prems"(1), of "int i"] by (auto split: option.splits)
qed simp

lemma inc_spec:
  assumes "full t" and "valid t p"
  shows "(case inc t p of
            Some js \<Rightarrow> pvalid t js \<and> rest t js = after t p
          | None \<Rightarrow> after t p = [] \<and> leaves_after t p = 0)"
  using assms
proof (induction t p rule: valid.induct)
  case (3 a ets i "is")
  let ?c = "snd (ets ! i)"
  have i: "i < length ets" "valid ?c is" using "3.prems" by auto
  have IH: "case inc ?c is of
            Some js \<Rightarrow> pvalid ?c js \<and> rest ?c js = after ?c is
          | None \<Rightarrow> after ?c is = [] \<and> leaves_after ?c is = 0"
    by (rule "3.IH" [OF full_child [OF "3.prems"(1) i(1)] i(2)])
  show ?case
  proof (cases "inc ?c is")
    case (Some js)
    then show ?thesis using IH i by simp
  next
    case None
    have "drop (Suc i) ets = []" if "\<not> Suc i < length ets" using that by simp
    then show ?thesis using IH None by (auto simp: items_of_nth_drop)
  qed
qed auto

lemma nleaves_pos: "full t \<Longrightarrow> 0 < nleaves t"
proof (induction t)
  case (Branch a ets)
  then obtain k t r where "ets = (k, t) # r" by (cases ets) auto
  with Branch show ?case by auto
qed simp

lemma sum_nleaves_drop: "i < length ets \<Longrightarrow>
  sum_list (map (\<lambda>e. nleaves (snd e)) (drop i ets)) =
  nleaves (snd (ets ! i)) + sum_list (map (\<lambda>e. nleaves (snd e)) (drop (Suc i) ets))"
  by (simp add: Cons_nth_drop_Suc [symmetric])

lemma leaves_after_first: "full t \<Longrightarrow> leaves_after t (ext t [0]) < nleaves t"
proof (induction t)
  case (Branch a ets)
  then have z: "0 < length ets" by simp
  let ?c = "snd (ets ! 0)"
  have "leaves_after ?c (ext ?c [0]) < nleaves ?c"
    by (rule Branch.IH [of "fst (ets ! 0)"]) (use z full_child [OF Branch.prems z] in auto)
  then show ?case using z sum_nleaves_drop [OF z] by simp
qed simp

text \<open>An advance either stays in a leaf with entries or leaves fewer leaves behind it.\<close>

lemma ext_zero_cur: "full t \<Longrightarrow> leaf_kvs t (ext t [0]) \<noteq> [] \<Longrightarrow> cur t (ext t [0]) \<noteq> None"
proof (induction t)
  case (Branch a ets)
  then have z: "0 < length ets" by simp
  show ?case
    using Branch.IH [of "fst (ets ! 0)" "snd (ets ! 0)"] Branch.prems z full_child [OF Branch.prems(1) z]
    by simp
qed simp

lemma inc_progress:
  assumes "full t" and "valid t p" and "inc t p = Some js"
  shows "(leaves_after t (ext t js) < leaves_after t p \<or> leaf_kvs t (ext t js) \<noteq> []) \<and>
         (leaf_kvs t (ext t js) \<noteq> [] \<longrightarrow> cur t (ext t js) \<noteq> None)"
  using assms
proof (induction t p arbitrary: js rule: valid.induct)
  case (2 a kvs i "is")
  then show ?case by (auto split: if_splits)
next
  case (3 a ets i "is")
  let ?c = "snd (ets ! i)"
  have i: "i < length ets" "valid ?c is" "full ?c"
    using "3.prems" full_child by auto
  show ?case
  proof (cases "inc ?c is")
    case (Some js')
    then have "js = i # js'" using "3.prems" by simp
    moreover have "js' \<noteq> []"
      using inc_spec [OF i(3,2)] Some by auto
    ultimately show ?thesis using "3.IH" [OF i(3,2) Some] i(1) by auto
  next
    case None
    then have js: "js = [Suc i]" and si: "Suc i < length ets"
      using "3.prems" by (auto split: if_splits)
    let ?d = "snd (ets ! Suc i)"
    have d: "full ?d" by (rule full_child [OF "3.prems"(1) si])
    show ?thesis
      using js si sum_nleaves_drop [OF si] leaves_after_first [OF d] ext_zero_cur [OF d] by auto
  qed
qed auto

text \<open>The top of the stack: the count and the element of the leaf.\<close>

lemma top_of_pos:
  assumes "repr h t" and "valid t p"
  shows "pos t p \<noteq> []" and "count h (hd (pos t p)) = int (length (leaf_kvs t p))"
    and "\<exists>r. keyValue h (pos t p @ st) = Inr r \<and> kv_of r = cur t p"
  using assms
proof (induction t p arbitrary: st rule: valid.induct)
  case (2 a kvs i "is")
  { case 1 show ?case by simp }
  { case 2 then show ?case using repr_count(1) by simp }
  { case 3
    have l: "list_all2 leaf_entry (inodes (h ! a)) kvs" using 3 by simp
    have c: "count h \<lparr>enode = a, eindex = int i\<rparr> = int (length kvs)"
      using repr_count(1) 3 by simp
    show ?case
    proof (cases "i < length kvs")
      case True
      then have "leaf_entry (inodes (h ! a) ! i) (kvs ! i)" "i < length (inodes (h ! a))"
        using list_all2_nthD2 [OF l] list_all2_lengthD [OF l] by auto
      then show ?thesis using True c by (auto simp: keyValue_def leaf_entry_def prod_eq_iff)
    qed (simp add: keyValue_def c) }
next
  case (3 a ets i "is")
  let ?c = "snd (ets ! i)"
  { case 1 then show ?case by simp }
  { case 2
    then have i: "i < length ets" "valid ?c is" by auto
    show ?case using "3.IH"(1,2) [OF repr_child [OF 2(1) i(1)] i(2)] i by (simp add: hd_append) }
  { case 3
    then have i: "i < length ets" "valid ?c is" by auto
    show ?case using "3.IH"(3) [OF repr_child [OF 3(1) i(1)] i(2)] by simp }
qed auto

lemma cur_None_empty: "valid t p \<Longrightarrow> leaf_kvs t p = [] \<Longrightarrow> cur t p = None"
  by (induction t p rule: valid.induct) auto

text \<open>
  \<open>next\<close>: enough fuel for the leaves behind the position, and the result is the first
  pair behind it.
\<close>

lemma cursor_next_spec:
  assumes "repr h t" and "full t" and "valid t p" and "leaves_after t p < f"
  shows "\<exists>r p'. cursor_next f h (pos t p) = Inr (r, pos t p') \<and> valid t p' \<and>
      (case after t p of
         [] \<Rightarrow> r = None \<and> after t p' = []
       | x # xs \<Rightarrow> kv_of r = Some x \<and> cur t p' = Some x \<and> after t p' = xs)"
  using assms(3,4)
proof (induction f arbitrary: p)
  case (Suc f)
  note rt = assms(1) and ft = assms(2)
  have climb: "next_climb h (pos t p) =
      (case inc t p of Some js \<Rightarrow> Some (pos t js) | None \<Rightarrow> None)"
    using next_climb_pos [OF rt Suc.prems(1), of "[]"] by (simp split: option.splits)
  show ?case
  proof (cases "inc t p")
    case None
    then show ?thesis
      using climb inc_spec [OF ft Suc.prems(1)] Suc.prems(1) by auto
  next
    case (Some js)
    let ?p = "ext t js"
    have js: "pvalid t js" "rest t js = after t p"
      using inc_spec [OF ft Suc.prems(1)] Some by auto
    have p: "valid t ?p" "rest t ?p = after t p"
      using ext_valid [OF ft js(1)] js(2) by auto
    have goto: "goToFirstElementOnTheStack (dfuel h) h (pos t js) = Inr (pos t ?p)"
      using goToFirst_spec [OF rt ft js(1), of "dfuel h" "[]"] height_le_heap [OF rt]
      by (simp add: dfuel_def)
    have cnt: "count h (hd (pos t ?p)) = int (length (leaf_kvs t ?p))"
      by (rule top_of_pos(2) [OF rt p(1)])
    note prog = inc_progress [OF ft Suc.prems(1) Some]
    show ?thesis
    proof (cases "leaf_kvs t ?p = []")
      case True
      have "leaves_after t ?p < f" using prog True Suc.prems(2) by auto
      from Suc.IH [OF p(1) this]
      have "\<exists>r p'. cursor_next f h (pos t ?p) = Inr (r, pos t p') \<and> valid t p' \<and>
          (case after t ?p of
             [] \<Rightarrow> r = None \<and> after t p' = []
           | x # xs \<Rightarrow> kv_of r = Some x \<and> cur t p' = Some x \<and> after t p' = xs)" .
      moreover have "after t ?p = after t p"
        using rest_cur [OF p(1)] cur_None_empty [OF p(1) True] p(2) by simp
      ultimately show ?thesis using climb Some goto cnt True by simp
    next
      case False
      then obtain x where x: "cur t ?p = Some x" using prog by auto
      then have "after t p = x # after t ?p"
        using rest_cur [OF p(1)] p(2) by simp
      moreover obtain r where "keyValue h (pos t ?p) = Inr r" "kv_of r = cur t ?p"
        using top_of_pos(3) [OF rt p(1), of "[]"] by auto
      ultimately show ?thesis using climb Some goto cnt False p(1) x by auto
    qed
  qed
qed simp

section \<open>The first element\<close>

lemma nleaves_le_addrs: "nleaves t \<le> length (addrs t)"
proof (induction t)
  case (Branch a ets)
  have "sum_list (map (\<lambda>e. nleaves (snd e)) ets) \<le> sum_list (map (\<lambda>e. length (addrs (snd e))) ets)"
    using Branch.IH by (intro sum_list_mono) (metis prod.collapse)
  then show ?case by (simp add: length_concat comp_def)
qed simp

lemma addrs_le_heap:
  assumes "repr h t" and "distinct (addrs t)"
  shows "length (addrs t) \<le> length h"
proof -
  have "set (addrs t) \<subseteq> {..<length h}" using repr_addrs [OF assms(1)] by auto
  then have "card (set (addrs t)) \<le> card {..<length h}" by (intro card_mono) auto
  then show ?thesis using assms(2) by (simp add: distinct_card)
qed

lemma sum_nleaves_le: "i < length ets \<Longrightarrow>
  nleaves (snd (ets ! i)) + sum_list (map (\<lambda>e. nleaves (snd e)) (drop (Suc i) ets)) \<le> nleaves (Branch a ets)"
  using sum_nleaves_drop [of i ets]
  by (metis add.commute append_take_drop_id le_add2 map_append nleaves.simps(2) sum_list_append)

lemma leaves_after_less: "full t \<Longrightarrow> valid t p \<Longrightarrow> leaves_after t p < nleaves t"
proof (induction t p rule: valid.induct)
  case (3 a ets i "is")
  then have i: "i < length ets" "valid (snd (ets ! i)) is" by auto
  have "leaves_after (snd (ets ! i)) is < nleaves (snd (ets ! i))"
    by (rule "3.IH" [OF full_child [OF "3.prems"(1) i(1)] i(2)])
  then show ?case using sum_nleaves_le [OF i(1), of a] by simp
qed auto

lemma leaves_after_fuel:
  assumes "repr h t" and "full t" and "distinct (addrs t)" and "valid t p"
  shows "leaves_after t p < dfuel h"
  using leaves_after_less [OF assms(2,4)] nleaves_le_addrs [of t] addrs_le_heap [OF assms(1,3)]
  by (simp add: dfuel_def)

lemma cur_items: "valid t p \<Longrightarrow> cur t p = Some x \<Longrightarrow> x \<in> set (items t)"
proof (induction t p rule: valid.induct)
  case (3 a ets i "is")
  then have "x \<in> set (items (snd (ets ! i)))" "ets ! i \<in> set ets" by auto
  then show ?case by auto
qed (auto split: if_splits)

lemma cursor_first_spec:
  assumes "repr h t" and "full t" and "distinct (addrs t)"
  shows "\<exists>r p. cursor_first h (Some (raddr t)) = Inr (r, pos t p) \<and> valid t p \<and>
      (case items t of
         [] \<Rightarrow> r = None \<and> after t p = []
       | x # xs \<Rightarrow> kv_of r = Some x \<and> cur t p = Some x \<and> after t p = xs)"
proof -
  let ?p = "ext t [0]"
  have p: "valid t ?p" "rest t ?p = items t"
    using ext_valid [OF assms(2) pvalid_zero [OF assms(2)]] rest_zero [OF assms(2)] by auto
  have goto: "goToFirstElementOnTheStack (dfuel h) h [\<lparr>enode = raddr t, eindex = 0\<rparr>] = Inr (pos t ?p)"
    using goToFirst_spec [OF assms(1,2) pvalid_zero [OF assms(2)], of "dfuel h" "[]"]
      height_le_heap [OF assms(1)] by (simp add: dfuel_def pos_zero)
  have cnt: "count h (hd (pos t ?p)) = int (length (leaf_kvs t ?p))"
    by (rule top_of_pos(2) [OF assms(1) p(1)])
  show ?thesis
  proof (cases "leaf_kvs t ?p = []")
    case True
    have a: "after t ?p = items t"
      using rest_cur [OF p(1)] cur_None_empty [OF p(1) True] p(2) by simp
    obtain r p' where n: "cursor_next (dfuel h) h (pos t ?p) = Inr (r, pos t p')" "valid t p'"
      "case items t of [] \<Rightarrow> r = None \<and> after t p' = []
         | x # xs \<Rightarrow> kv_of r = Some x \<and> cur t p' = Some x \<and> after t p' = xs"
      using cursor_next_spec [OF assms(1,2) p(1) leaves_after_fuel [OF assms p(1)]] a by auto
    obtain r' where kv: "keyValue h (pos t p') = Inr r'" "kv_of r' = cur t p'"
      using top_of_pos(3) [OF assms(1) n(2), of "[]"] by auto
    have "cursor_first h (Some (raddr t)) = Inr (r', pos t p')"
      using goto cnt True n(1) kv(1) by (simp add: cursor_first_def)
    moreover have "cur t p' = None" if "items t = []"
      using cur_items [OF n(2)] that by (cases "cur t p'") auto
    ultimately show ?thesis using n(2,3) kv(2) by (cases "items t") auto
  next
    case False
    then obtain x where x: "cur t ?p = Some x" using ext_zero_cur [OF assms(2)] by auto
    then have "items t = x # after t ?p" using rest_cur [OF p(1)] p(2) by simp
    moreover obtain r where "keyValue h (pos t ?p) = Inr r" "kv_of r = cur t ?p"
      using top_of_pos(3) [OF assms(1) p(1), of "[]"] by auto
    ultimately show ?thesis using goto cnt False p(1) x by (auto simp: cursor_first_def)
  qed
qed

section \<open>Searching\<close>

text \<open>The pairs before and behind the leaf a path leads to, and the tree with that leaf replaced.\<close>

fun pre_leaf :: "tree \<Rightarrow> nat list \<Rightarrow> kv list" where
  "pre_leaf (Leaf a kvs) is = []"
| "pre_leaf (Branch a ets) [] = []"
| "pre_leaf (Branch a ets) (i # is) =
     items_of (take i ets) @ (if i < length ets then pre_leaf (snd (ets ! i)) is else [])"

fun post_leaf :: "tree \<Rightarrow> nat list \<Rightarrow> kv list" where
  "post_leaf (Leaf a kvs) is = []"
| "post_leaf (Branch a ets) [] = []"
| "post_leaf (Branch a ets) (i # is) =
     (if i < length ets then post_leaf (snd (ets ! i)) is else []) @ items_of (drop (Suc i) ets)"

fun set_leaf :: "tree \<Rightarrow> nat list \<Rightarrow> kv list \<Rightarrow> tree" where
  "set_leaf (Leaf a kvs) is kvs' = Leaf a kvs'"
| "set_leaf (Branch a ets) [] kvs' = Branch a ets"
| "set_leaf (Branch a ets) (i # is) kvs' =
     (if i < length ets
      then Branch a (ets[i := (fst (ets ! i), set_leaf (snd (ets ! i)) is kvs')])
      else Branch a ets)"

lemma items_around: "valid t p \<Longrightarrow> items t = pre_leaf t p @ leaf_kvs t p @ post_leaf t p"
proof (induction t p rule: valid.induct)
  case (3 a ets i "is")
  then have i: "i < length ets" by simp
  have "items_of ets = items_of (take i ets) @ items (snd (ets ! i)) @ items_of (drop (Suc i) ets)"
    using items_of_nth_drop [OF i] append_take_drop_id [of i ets]
    by (metis concat_append map_append)
  then show ?case using 3 i by simp
qed auto

lemma rest_around: "valid t p \<Longrightarrow> rest t p = drop (last p) (leaf_kvs t p) @ post_leaf t p"
  by (induction t p rule: valid.induct) (auto elim: valid.elims)

lemma cur_around: "valid t p \<Longrightarrow>
    cur t p = (if last p < length (leaf_kvs t p) then Some (leaf_kvs t p ! last p) else None)"
  by (induction t p rule: valid.induct) (auto elim: valid.elims)

lemma items_set_leaf: "valid t p \<Longrightarrow> items (set_leaf t p kvs) = pre_leaf t p @ kvs @ post_leaf t p"
proof (induction t p rule: valid.induct)
  case (3 a ets i "is")
  then have i: "i < length ets" by simp
  show ?case using 3 i by (simp add: upd_conv_take_nth_drop)
qed auto

lemma search_spec:
  assumes "repr h t" and "ok lo hi t" and "bnd lo hi key" and "height t \<le> f"
  shows "\<exists>p. search f h key (Some (raddr t)) st = Inr (pos t p @ st) \<and> valid t p \<and>
     last p = length (takeWhile (\<lambda>q. fst q < key) (leaf_kvs t p)) \<and>
     (\<forall>q\<in>set (pre_leaf t p). fst q < key) \<and> (\<forall>q\<in>set (post_leaf t p). key < fst q) \<and>
     (\<forall>kvs. ascending (map fst kvs) \<longrightarrow> fst ` set kvs \<subseteq> insert key (fst ` set (leaf_kvs t p)) \<longrightarrow>
        ok lo hi (set_leaf t p kvs))"
  using assms
proof (induction t arbitrary: lo hi f st)
  case (Leaf a kvs)
  then obtain f' where f: "f = Suc f'" by (cases f) auto
  have l: "list_all2 leaf_entry (inodes (h ! a)) kvs" using Leaf by simp
  have keys: "map ikey (inodes (h ! a)) = map fst kvs"
    using l by (auto simp: list_all2_conv_all_nth leaf_entry_def intro!: nth_equalityI)
  have "key_index (inodes (h ! a)) key = length (takeWhile (\<lambda>x. x < key) (map ikey (inodes (h ! a))))"
    using key_index_eq [of "inodes (h ! a)" key] keys Leaf.prems(2)
    unfolding takeWhile_map by (simp add: comp_def)
  also have "\<dots> = length (takeWhile (\<lambda>q. fst q < key) kvs)"
    unfolding keys takeWhile_map by (simp add: comp_def)
  finally have "search f h key (Some (raddr (Leaf a kvs))) st =
      Inr (pos (Leaf a kvs) [length (takeWhile (\<lambda>q. fst q < key) kvs)] @ st)"
    using Leaf.prems(1) f by (simp add: ref_isLeaf_def nsearch_def)
  moreover have "ok lo hi (Leaf a kvs')"
    if "ascending (map fst kvs')" "fst ` set kvs' \<subseteq> insert key (fst ` set kvs)" for kvs'
    using that Leaf.prems(2,3) by (fastforce simp: list_all_iff)
  ultimately show ?case
    by (intro exI [of _ "[length (takeWhile (\<lambda>q. fst q < key) kvs)]"]) auto
next
  case (Branch a ets)
  then obtain f' where f: "f = Suc f'" by (cases f) auto
  have l: "list_all2 branch_entry (inodes (h ! a)) ets" and o: "oks lo hi ets" "ets \<noteq> []"
    using Branch.prems by auto
  obtain xs k t ys where e: "ets = xs @ (k, t) # ys"
    and i: "length xs = searchNode_index (inodes (h ! a)) key" and r: "routes key xs k ys"
    using searchNode_routes [OF l oks_ascending_seps [OF o(1)] o(2)] by blast
  have lt: "length xs < length ets" using e by simp
  have nth: "ets ! length xs = (k, t)" using e by simp
  have entry: "branch_entry (inodes (h ! a) ! length xs) (k, t)" "length xs < length (inodes (h ! a))"
    using list_all2_nthD2 [OF l lt] nth lt list_all2_lengthD [OF l] by auto
  let ?st = "\<lparr>enode = a, eindex = int (length xs)\<rparr> # st"
  have step: "search f h key (Some (raddr (Branch a ets))) st = search f' h key (Some (raddr t)) ?st"
    using Branch.prems(1) f entry by (simp add: ref_isLeaf_def Let_def i [symmetric] branch_entry_def)
  have c: "ok (lo_of xs lo k) (hi_of ys hi) t"
    by (rule ok_child [of _ _ a]) (use Branch.prems(2) e in simp)
  have rt: "repr h t" "height t \<le> f'"
    using repr_child [OF Branch.prems(1) lt] nth nth_height [OF lt, of a] Branch.prems(4) f by auto
  obtain p where p: "search f' h key (Some (raddr t)) ?st = Inr (pos t p @ ?st)" "valid t p"
     "last p = length (takeWhile (\<lambda>q. fst q < key) (leaf_kvs t p))"
     "\<forall>q\<in>set (pre_leaf t p). fst q < key" "\<forall>q\<in>set (post_leaf t p). key < fst q"
     "\<And>kvs. ascending (map fst kvs) \<Longrightarrow> fst ` set kvs \<subseteq> insert key (fst ` set (leaf_kvs t p)) \<Longrightarrow>
        ok (lo_of xs lo k) (hi_of ys hi) (set_leaf t p kvs)"
    using Branch.IH [OF _ rt(1) c routes_bnd [OF r Branch.prems(3)] rt(2), of k ?st] e by auto
  have out: "\<forall>p\<in>set (items_of xs). fst p < key" "\<forall>p\<in>set (items_of ys). key < fst p"
    using routes_items [OF _ r] o(1) e by blast+
  have tk: "take (length xs) ets = xs" "drop (Suc (length xs)) ets = ys" using e by auto
  have pne: "p \<noteq> []" using p(2) by auto
  have "ok lo hi (set_leaf (Branch a ets) (length xs # p) kvs)"
    if "ascending (map fst kvs)" "fst ` set kvs \<subseteq> insert key (fst ` set (leaf_kvs t p))" for kvs
  proof -
    have "oks lo hi (xs @ (k, set_leaf t p kvs) # ys)"
      by (rule oks_replace [OF _ p(6) [OF that]]) (use o(1) e in simp)
    then show ?thesis using lt nth e by simp
  qed
  then show ?case
    using p out lt nth step pne
    by (intro exI [of _ "length xs # p"]) (auto simp: tk simp del: set_leaf.simps)
qed

lemma dropWhile_drop: "drop (length (takeWhile P xs)) xs = dropWhile P xs"
  by (simp add: dropWhile_eq_drop)

text \<open>
  What \<open>seek\<close> leaves on the stack: a path into the leaf that holds the place of the key,
  with exactly the pairs not below the key at or behind it.
\<close>

lemma search_path:
  assumes "repr h t" and "btree t"
  shows "\<exists>p. search (dfuel h) h key (Some (raddr t)) [] = Inr (pos t p) \<and> valid t p \<and>
     rest t p = filter (\<lambda>q. key \<le> fst q) (items t) \<and>
     last p = length (takeWhile (\<lambda>q. fst q < key) (leaf_kvs t p)) \<and>
     (\<forall>q\<in>set (pre_leaf t p). fst q < key) \<and> (\<forall>q\<in>set (post_leaf t p). key < fst q) \<and>
     (\<forall>kvs. ascending (map fst kvs) \<longrightarrow> fst ` set kvs \<subseteq> insert key (fst ` set (leaf_kvs t p)) \<longrightarrow>
        ok [] None (set_leaf t p kvs))"
proof -
  have o: "ok [] None t" using assms(2) by (simp add: btree_def)
  have hf: "height t \<le> dfuel h" using height_le_heap [OF assms(1)] by (simp add: dfuel_def)
  obtain p where p: "search (dfuel h) h key (Some (raddr t)) [] = Inr (pos t p @ [])" "valid t p"
     "last p = length (takeWhile (\<lambda>q. fst q < key) (leaf_kvs t p))"
     "\<forall>q\<in>set (pre_leaf t p). fst q < key" "\<forall>q\<in>set (post_leaf t p). key < fst q"
     "\<forall>kvs. ascending (map fst kvs) \<longrightarrow> fst ` set kvs \<subseteq> insert key (fst ` set (leaf_kvs t p)) \<longrightarrow>
        ok [] None (set_leaf t p kvs)"
    using search_spec [OF assms(1) o _ hf, of key "[]"] by auto
  have asc: "ascending (map fst (leaf_kvs t p))"
    using ok_ascending [OF o] items_around [OF p(2)] by (simp add: ascending_append)
  have "rest t p = dropWhile (\<lambda>q. fst q < key) (leaf_kvs t p) @ post_leaf t p"
    using rest_around [OF p(2)] p(3) by (simp add: dropWhile_drop)
  also have "\<dots> = filter (\<lambda>q. key \<le> fst q) (leaf_kvs t p) @ post_leaf t p"
    by (simp add: dropWhile_less_filter [OF asc])
  also have "\<dots> = filter (\<lambda>q. key \<le> fst q) (items t)"
  proof -
    have "filter (\<lambda>q. key \<le> fst q) (pre_leaf t p) = []"
      using p(4) by (simp add: filter_empty_conv not_le)
    moreover have "filter (\<lambda>q. key \<le> fst q) (post_leaf t p) = post_leaf t p"
      using p(5) by (simp add: filter_id_conv less_imp_le)
    ultimately show ?thesis using items_around [OF p(2)] by simp
  qed
  finally show ?thesis using p by auto
qed

lemma cursor_seek_spec:
  assumes "repr h t" and "btree t"
  shows "\<exists>r p. cursor_seek h (Some (raddr t)) key = Inr (r, pos t p) \<and> valid t p \<and>
     kv_of r = cur t p \<and> rest t p = filter (\<lambda>q. key \<le> fst q) (items t) \<and>
     (case map_of (items t) key of
        Some v \<Rightarrow> cur t p = Some (key, v) | None \<Rightarrow> \<forall>v. cur t p \<noteq> Some (key, v))"
proof -
  obtain p where p: "search (dfuel h) h key (Some (raddr t)) [] = Inr (pos t p)" "valid t p"
     "rest t p = filter (\<lambda>q. key \<le> fst q) (items t)"
     "last p = length (takeWhile (\<lambda>q. fst q < key) (leaf_kvs t p))"
     "\<forall>q\<in>set (pre_leaf t p). fst q < key" "\<forall>q\<in>set (post_leaf t p). key < fst q"
    using search_path [OF assms, of key] by auto
  obtain r where r: "keyValue h (pos t p) = Inr r" "kv_of r = cur t p"
    using top_of_pos(3) [OF assms(1) p(2), of "[]"] by auto
  have o: "ascending (map fst (items t))"
    using assms(2) ok_ascending by (auto simp: btree_def)
  then have d: "distinct (map fst (items t))" by (rule ascending_distinct)
  have "case map_of (items t) key of
        Some v \<Rightarrow> cur t p = Some (key, v) | None \<Rightarrow> \<forall>v. cur t p \<noteq> Some (key, v)"
  proof (cases "map_of (items t) key")
    case None
    then have "(key, v) \<notin> set (items t)" for v by (force simp: map_of_eq_None_iff)
    then show ?thesis using None cur_items [OF p(2)] by auto
  next
    case (Some v)
    then have kv: "(key, v) \<in> set (items t)" by (rule map_of_SomeD)
    then have leaf: "(key, v) \<in> set (leaf_kvs t p)"
      using items_around [OF p(2)] p(5,6) by auto
    have asc: "ascending (map fst (leaf_kvs t p))"
      using o items_around [OF p(2)] by (simp add: ascending_append)
    have "dropWhile (\<lambda>q. fst q < key) (leaf_kvs t p) \<noteq> []"
      using leaf by (metis dropWhile_eq_Nil_conv fst_conv less_irrefl)
    then have lt: "last p < length (leaf_kvs t p)"
      unfolding p(4) by (metis dropWhile_drop drop_all linorder_not_less)
    then have "leaf_kvs t p ! last p \<in> set (items t)" "\<not> fst (leaf_kvs t p ! last p) < key"
      using items_around [OF p(2)] nth_length_takeWhile [of "\<lambda>q. fst q < key" "leaf_kvs t p"] p(4)
      by auto
    obtain j where j: "j < length (leaf_kvs t p)" "leaf_kvs t p ! j = (key, v)"
      using leaf by (auto simp: in_set_conv_nth)
    have "\<not> j < last p"
      using j p(4) by (metis fst_conv less_irrefl nth_mem set_takeWhileD takeWhile_nth)
    moreover have "\<not> last p < j"
      using asc j lt \<open>\<not> fst (leaf_kvs t p ! last p) < key\<close> by (force simp: sorted_wrt_iff_nth_less)
    ultimately have "j = last p" by simp
    then show ?thesis using Some j cur_around [OF p(2)] by simp
  qed
  then show ?thesis using p(1,2,3) r by (auto simp: cursor_seek_def)
qed

text \<open>\<open>Seek\<close> finds the first pair whose key is not below the given one.\<close>

lemma cursor_Seek_spec:
  assumes "repr h t" and "btree t"
  shows "\<exists>r p. cursor_Seek_tree h (Some (raddr t)) key = Inr (r, pos t p) \<and> valid t p \<and>
      (case filter (\<lambda>q. key \<le> fst q) (items t) of
         [] \<Rightarrow> r = None \<and> after t p = []
       | x # xs \<Rightarrow> kv_of r = Some x \<and> cur t p = Some x \<and> after t p = xs)"
proof -
  have f: "full t" and d: "distinct (addrs t)"
    using assms(2) ok_full(1) by (auto simp: btree_def)
  obtain r p where s: "cursor_seek h (Some (raddr t)) key = Inr (r, pos t p)" "valid t p"
     "kv_of r = cur t p" "rest t p = filter (\<lambda>q. key \<le> fst q) (items t)"
    using cursor_seek_spec [OF assms, of key] by auto
  have top: "count h (hd (pos t p)) = int (length (leaf_kvs t p))"
    by (rule top_of_pos(2) [OF assms(1) s(2)])
  have idx: "eindex (hd (pos t p)) = int (last p)"
    using s(2)
  proof (induction t p rule: valid.induct)
    case (3 a ets i "is")
    then have "pos (snd (ets ! i)) is \<noteq> []" "is \<noteq> []" by (auto elim: valid.elims)
    then show ?case using 3 by simp
  qed auto
  show ?thesis
  proof (cases "last p < length (leaf_kvs t p)")
    case True
    then have "cur t p \<noteq> None" using cur_around [OF s(2)] by simp
    then obtain x where "cur t p = Some x" by auto
    then have "filter (\<lambda>q. key \<le> fst q) (items t) = x # after t p"
      using rest_cur [OF s(2)] s(4) by simp
    then show ?thesis
      using s True top idx \<open>cur t p = Some x\<close> by (auto simp: cursor_Seek_tree_def)
  next
    case False
    then have "after t p = filter (\<lambda>q. key \<le> fst q) (items t)"
      using rest_cur [OF s(2)] cur_around [OF s(2)] s(4) by simp
    then show ?thesis
      using cursor_next_spec [OF assms(1) f s(2) leaves_after_fuel [OF assms(1) f d s(2)]]
        s(1) top idx False by (auto simp: cursor_Seek_tree_def)
  qed
qed

section \<open>Iteration\<close>

text \<open>
  The loop \<open>for k, v := c.First(); k != nil; k, v = c.Next() { fn(k, v) }\<close> of
  \<open>Bucket.ForEach\<close>, \<open>recursivelyInspect\<close> and \<open>serializeSnapshot\<close>, with its early exit
  on an error of the callback. \<open>each\<close> is its specification over a list.
\<close>

fun iter_loop :: "nat \<Rightarrow> ('c \<Rightarrow> ('i option \<times> 'c) res) \<Rightarrow> ('i \<Rightarrow> 's \<Rightarrow> error option \<times> 's) \<Rightarrow>
    'i option \<Rightarrow> 'c \<Rightarrow> 's \<Rightarrow> (error option \<times> 's) res" where
  "iter_loop 0 nxt fn x c s = Inl OutOfFuel"
| "iter_loop (Suc f) nxt fn None c s = Inr (None, s)"
| "iter_loop (Suc f) nxt fn (Some x) c s =
     (case fn x s of
        (Some e, s) \<Rightarrow> Inr (Some e, s)
      | (None, s) \<Rightarrow> rbind (nxt c) (\<lambda>(y, c). iter_loop f nxt fn y c s))"

fun each :: "('i \<Rightarrow> 's \<Rightarrow> error option \<times> 's) \<Rightarrow> 'i list \<Rightarrow> 's \<Rightarrow> error option \<times> 's" where
  "each fn [] s = (None, s)"
| "each fn (x # xs) s =
     (case fn x s of (Some e, s) \<Rightarrow> (Some e, s) | (None, s) \<Rightarrow> each fn xs s)"

fun hd_opt :: "'a list \<Rightarrow> 'a option" where
  "hd_opt [] = None"
| "hd_opt (x # xs) = Some x"

text \<open>
  The contract of a forward cursor: started on a content, it yields the first element,
  and every step yields the first of the elements that remain.
\<close>

locale forward_iter =
  fixes start :: "'c \<Rightarrow> ('i option \<times> 'c) res"
    and nxt :: "'c \<Rightarrow> ('i option \<times> 'c) res"
    and holds :: "'c \<Rightarrow> 'i list \<Rightarrow> bool"
    and here :: "'c \<Rightarrow> 'i list \<Rightarrow> bool"
  assumes start_here: "holds c xs \<Longrightarrow> \<exists>c'. start c = Inr (hd_opt xs, c') \<and> here c' (tl xs)"
    and nxt_here: "here c xs \<Longrightarrow> \<exists>c'. nxt c = Inr (hd_opt xs, c') \<and> here c' (tl xs)"
begin

lemma iter_loop_each:
  assumes "here c (tl xs)" and "length xs < f"
  shows "iter_loop f nxt fn (hd_opt xs) c s = Inr (each fn xs s)"
  using assms
proof (induction xs arbitrary: c f s)
  case Nil
  then show ?case by (cases f) auto
next
  case (Cons x xs)
  then obtain f' where f: "f = Suc f'" by (cases f) auto
  obtain c' where c': "nxt c = Inr (hd_opt xs, c')" "here c' (tl xs)"
    using nxt_here [of c xs] Cons.prems(1) by auto
  show ?case
    using f c' Cons.IH [OF c'(2), of f'] Cons.prems(2)
    by (auto split: prod.splits option.splits)
qed

text \<open>A whole traversal visits the content in order and stops at the first error.\<close>

lemma traversal:
  assumes "holds c xs" and "length xs < f"
  shows "rbind (start c) (\<lambda>(x, c). iter_loop f nxt fn x c s) = Inr (each fn xs s)"
  using start_here [OF assms(1)] iter_loop_each [OF _ assms(2)] by fastforce

end

lemma each_no_error:
  "(\<And>x s. x \<in> set xs \<Longrightarrow> fn x s = (None, g x s)) \<Longrightarrow> each fn xs s = (None, fold g xs s)"
  by (induction xs arbitrary: s) auto

text \<open>The directory cursor is such an iterator over its sorted names.\<close>

interpretation dir_iter: forward_iter
  "\<lambda>c. Inr (dir_First c)" "\<lambda>c. Inr (dir_Next c)" "\<lambda>c xs. dir c = xs"
  "\<lambda>c xs. 0 \<le> dirIdx c \<and> xs = drop (Suc (nat (dirIdx c))) (dir c)"
proof
  fix c :: dirCursor and xs
  assume "dir c = xs"
  then show "\<exists>c'. Inr (dir_First c) = Inr (hd_opt xs, c') \<and>
      0 \<le> dirIdx c' \<and> tl xs = drop (Suc (nat (dirIdx c'))) (dir c')"
    by (cases xs) (auto simp: dir_First_def dirKeyValue_def Let_def)
next
  fix c :: dirCursor and xs
  assume "0 \<le> dirIdx c \<and> xs = drop (Suc (nat (dirIdx c))) (dir c)"
  then have i: "0 \<le> dirIdx c" and xs: "xs = drop (Suc (nat (dirIdx c))) (dir c)" by auto
  have n: "nat (dirIdx c + 1) = Suc (nat (dirIdx c))" using i by simp
  have "hd_opt xs = (if Suc (nat (dirIdx c)) < length (dir c)
      then Some (dir c ! Suc (nat (dirIdx c))) else None)"
  proof (cases xs)
    case (Cons y ys)
    then have "\<not> length (dir c) \<le> Suc (nat (dirIdx c))" using xs by auto
    then show ?thesis using Cons nth_via_drop [of "Suc (nat (dirIdx c))" "dir c"] xs by simp
  qed (use xs in simp)
  moreover have "dirKeyValue (c\<lparr>dirIdx := dirIdx c + 1\<rparr>) =
      (if Suc (nat (dirIdx c)) < length (dir c) then Some (dir c ! Suc (nat (dirIdx c))) else None)"
    using i n by (auto simp: dirKeyValue_def)
  moreover have "tl xs = drop (Suc (Suc (nat (dirIdx c)))) (dir c)"
    unfolding xs by (simp add: drop_Suc tl_drop)
  ultimately show "\<exists>c'. Inr (dir_Next c) = Inr (hd_opt xs, c') \<and>
      0 \<le> dirIdx c' \<and> tl xs = drop (Suc (nat (dirIdx c'))) (dir c')"
    using i n by (auto simp: dir_Next_def Let_def)
qed

section \<open>Properties\<close>

text \<open>
  A tree of two leaves whose pairs have all been deleted, as a write transaction sees it
  between a \<open>Delete\<close> and the rebalancing of its commit.
\<close>

definition empty_leaves :: heap where
  "empty_leaves = [new_node\<lparr>isLeaf := True, nkey := [1]\<rparr>, new_node\<lparr>isLeaf := True, nkey := [5]\<rparr>,
     new_node\<lparr>inodes := [\<lparr>iflags = 0, ikey = [1], ivalue = [], ichild = Some 0\<rparr>,
                         \<lparr>iflags = 0, ikey = [5], ivalue = [], ichild = Some 1\<rparr>]\<rparr>]"

definition empty_leaves_tree :: tree where
  "empty_leaves_tree = Branch 2 [([1], Leaf 0 []), ([5], Leaf 1 [])]"

lemma prev_on_empty:
  "cursor_prev empty_leaves (Some 2) [\<lparr>enode = 1, eindex = -1\<rparr>, \<lparr>enode = 2, eindex = 1\<rparr>] =
     Inr (None, [\<lparr>enode = 0, eindex = -1\<rparr>, \<lparr>enode = 2, eindex = 0\<rparr>])"
  "cursor_prev empty_leaves (Some 2) [\<lparr>enode = 1, eindex = 0\<rparr>, \<lparr>enode = 2, eindex = 1\<rparr>] =
     Inr (None, [\<lparr>enode = 0, eindex = -1\<rparr>, \<lparr>enode = 2, eindex = 0\<rparr>])"
  "cursor_prev empty_leaves (Some 2) [\<lparr>enode = 0, eindex = -1\<rparr>, \<lparr>enode = 2, eindex = 0\<rparr>] =
     Inr (None, [\<lparr>enode = 1, eindex = 0\<rparr>, \<lparr>enode = 2, eindex = 1\<rparr>])"
  by code_simp+

lemma empty_leaf_count: "count empty_leaves \<lparr>enode = 0, eindex = i\<rparr> = 0" "count empty_leaves \<lparr>enode = 1, eindex = i\<rparr> = 0"
  by (simp_all add: count_def empty_leaves_def new_node_def)

lemma Last_loop_stuck:
  "Last_loop f empty_leaves (Some 2) [\<lparr>enode = 1, eindex = 0\<rparr>, \<lparr>enode = 2, eindex = 1\<rparr>] = Inl OutOfFuel \<and>
   Last_loop f empty_leaves (Some 2) [\<lparr>enode = 0, eindex = -1\<rparr>, \<lparr>enode = 2, eindex = 0\<rparr>] = Inl OutOfFuel"
  by (induction f) (simp_all add: prev_on_empty empty_leaf_count del: One_nat_def)


end
