(* ===== verification/Vm_Bucket.thy ===== *)
theory Vm_Bucket
  imports Vm_Cursor
begin

text \<open>
  Buckets (\<open>bucket.go\<close>) and the cursor methods that go through them.

  A bucket method works on a \<open>wst\<close>. A write first copies the nodes on the path from the
  root to the leaf it touches (copy on write): the copies are the \<open>dirty\<close> nodes of the
  transaction, and only they are ever changed.
\<close>

section \<open>Construction and views\<close>

definition MaxKeySize :: nat where
  "MaxKeySize = 32768"

definition MaxValueSize :: nat where
  "MaxValueSize = 2 ^ 31 - 2"

definition newBucket :: "bytes \<Rightarrow> Bucket" where
  "newBucket nm = \<lparr>name = nm, rootNode = None, dirty = {}, FillPercent = DefaultFillPercent\<rparr>"

definition rootView :: "wst \<Rightarrow> addr option" where
  "rootView w =
     (case rootNode w of
        Some r \<Rightarrow> Some r
      | None \<Rightarrow> (case baseState w of Some bs \<Rightarrow> root bs | None \<Rightarrow> None))"

section \<open>Copy on write\<close>

definition copyNode :: "bref \<Rightarrow> node \<Rightarrow> node" where
  "copyNode b orig = new_node\<lparr>bucket := Some b, isLeaf := isLeaf orig, nkey := nkey orig,
     inodes := inodes orig\<rparr>"

text \<open>The node \<open>writableRoot\<close> materialises: a copy of the published root or an empty leaf.\<close>

definition materialized :: "wst \<Rightarrow> node" where
  "materialized w =
     (case baseState w of
        None \<Rightarrow> new_node\<lparr>bucket := Some (self w), isLeaf := True\<rparr>
      | Some bs \<Rightarrow>
          (case root bs of
             None \<Rightarrow> new_node\<lparr>bucket := Some (self w), isLeaf := True\<rparr>
           | Some a \<Rightarrow> copyNode (self w) (heap w ! a)))"

definition writableRoot :: "wst \<Rightarrow> addr \<times> wst" where
  "writableRoot w =
     (case rootNode w of
        Some r \<Rightarrow> (r, w)
      | None \<Rightarrow> let (r, w) = alloc_dirty (materialized w) w in (r, w\<lparr>rootNode := Some r\<rparr>))"

definition childForWrite :: "addr \<Rightarrow> int \<Rightarrow> wst \<Rightarrow> (addr \<times> wst) res" where
  "childForWrite p idx w =
     rbind (slice_index (inodes (heap w ! p)) idx)
       (\<lambda>i. case ichild i of
              None \<Rightarrow> Inl (Panic ''nil pointer dereference'')
            | Some child \<Rightarrow>
                if child \<in> dirty w then Inr (child, w)
                else
                  let (c, w) = alloc_dirty ((copyNode (self w) (heap w ! child))\<lparr>parent := Some p\<rparr>) w
                  in Inr (c, upd_node p (\<lambda>n. n\<lparr>inodes := (inodes n)[nat idx := i\<lparr>ichild := Some c\<rparr>]\<rparr>) w))"

definition childAt :: "addr \<Rightarrow> int \<Rightarrow> wst \<Rightarrow> (addr \<times> wst) res" where
  "childAt n index w =
     (if isLeaf (heap w ! n) then Inl (Panic ''invalid childAt on a leaf node'')
      else childForWrite n index w)"

text \<open>\<open>Cursor.node\<close>: walk the stack from the root, copying every node on the way.\<close>

fun node_walk :: "elemRef list \<Rightarrow> addr \<Rightarrow> wst \<Rightarrow> (addr \<times> wst) res" where
  "node_walk [] n w =
     (if isLeaf (heap w ! n) then Inr (n, w)
      else Inl (Panic ''assertion failed: expected leaf node''))"
| "node_walk (ref # refs) n w =
     (if isLeaf (heap w ! n) then Inl (Panic ''assertion failed: expected branch node'')
      else rbind (childAt n (eindex ref) w) (\<lambda>(c, w). node_walk refs c w))"

definition cursor_node :: "elemRef list \<Rightarrow> wst \<Rightarrow> (addr \<times> wst) res" where
  "cursor_node st w =
     (if st = []
      then Inl (Panic ''assertion failed: accessing a node with a zero-length cursor stack'')
      else let (n, w) = writableRoot w in node_walk (rev (tl st)) n w)"

section \<open>Cursor methods\<close>

definition bucket_Cursor :: "wst \<Rightarrow> wst" where
  "bucket_Cursor w = w\<lparr>stats := IncCursorCount 1 (stats w)\<rparr>"

definition tx_assert :: "wst \<Rightarrow> 'a res \<Rightarrow> 'a res" where
  "tx_assert w m = (if tx_open w then m else Inl (Panic ''assertion failed: tx closed''))"

text \<open>The public movements return key and value without the flags.\<close>

definition drop_flags :: "(item \<times> elemRef list) res \<Rightarrow> (kv option \<times> elemRef list) res" where
  "drop_flags m = rbind m (\<lambda>(r, st). Inr (kv_of r, st))"

definition cursor_First :: "wst \<Rightarrow> (kv option \<times> elemRef list) res" where
  "cursor_First w = tx_assert w (drop_flags (cursor_first (heap w) (rootView w)))"

definition cursor_Last :: "nat \<Rightarrow> wst \<Rightarrow> (kv option \<times> elemRef list) res" where
  "cursor_Last fuel w = tx_assert w (drop_flags (cursor_Last_tree fuel (heap w) (rootView w)))"

definition cursor_Next :: "wst \<Rightarrow> elemRef list \<Rightarrow> (kv option \<times> elemRef list) res" where
  "cursor_Next w st = tx_assert w (drop_flags (cursor_next (dfuel (heap w)) (heap w) st))"

definition cursor_Prev :: "wst \<Rightarrow> elemRef list \<Rightarrow> (kv option \<times> elemRef list) res" where
  "cursor_Prev w st = tx_assert w (drop_flags (cursor_prev (heap w) (rootView w) st))"

definition cursor_Seek :: "wst \<Rightarrow> bytes \<Rightarrow> (kv option \<times> elemRef list) res" where
  "cursor_Seek w key = tx_assert w (drop_flags (cursor_Seek_tree (heap w) (rootView w) key))"

definition cursor_Delete :: "elemRef list \<Rightarrow> wst \<Rightarrow> (error option \<times> wst) res" where
  "cursor_Delete st w =
     (if \<not> tx_open w then Inr (Some ErrTxClosed, w)
      else if \<not> tx_writable w then Inr (Some ErrTxNotWritable, w)
      else rbind (keyValue (heap w) st)
             (\<lambda>r. let key = (case kv_of r of None \<Rightarrow> [] | Some (k, v) \<Rightarrow> k)
                  in rbind (cursor_node st w)
                       (\<lambda>(n, w). Inr (None, upd_node n (del key) w))))"

section \<open>Bucket methods\<close>

text \<open>\<open>bytes.Equal\<close> does not distinguish a nil slice from an empty one.\<close>

definition item_key :: "item \<Rightarrow> bytes" where
  "item_key r = (case r of None \<Rightarrow> [] | Some (k, v, f) \<Rightarrow> k)"

definition bucket_Get :: "bytes \<Rightarrow> wst \<Rightarrow> (bytes option \<times> wst) res" where
  "bucket_Get key w =
     (let w = bucket_Cursor w
      in rbind (cursor_seek (heap w) (rootView w) key)
           (\<lambda>(r, st). if key \<noteq> item_key r then Inr (None, w)
                      else Inr (map_option (\<lambda>(k, v, f). v) r, w)))"

definition bucket_Put :: "bytes \<Rightarrow> bytes \<Rightarrow> wst \<Rightarrow> (error option \<times> wst) res" where
  "bucket_Put key v w =
     (if \<not> tx_open w then Inr (Some ErrTxClosed, w)
      else if \<not> tx_writable w then Inr (Some ErrTxNotWritable, w)
      else if length key = 0 then Inr (Some ErrKeyRequired, w)
      else if MaxKeySize < length key then Inr (Some ErrKeyTooLarge, w)
      else if MaxValueSize < length v then Inr (Some ErrValueTooLarge, w)
      else
        let w = bucket_Cursor w
        in rbind (cursor_seek (heap w) (rootView w) key)
             (\<lambda>(_, st). rbind (cursor_node st w)
                (\<lambda>(n, w). rbind (put key key v None 0 (heap w ! n))
                   (\<lambda>nd. Inr (None, upd_node n (\<lambda>_. nd) w)))))"

definition bucket_Delete :: "bytes \<Rightarrow> wst \<Rightarrow> (error option \<times> wst) res" where
  "bucket_Delete key w =
     (if \<not> tx_open w then Inr (Some ErrTxClosed, w)
      else if \<not> tx_writable w then Inr (Some ErrTxNotWritable, w)
      else
        let w = bucket_Cursor w
        in rbind (cursor_seek (heap w) (rootView w) key)
             (\<lambda>(r, st). if key \<noteq> item_key r then Inr (None, w)
                        else rbind (cursor_node st w)
                               (\<lambda>(n, w). Inr (None, upd_node n (del key) w))))"

text \<open>
  Iteration fuel: one step per entry of the heap and two to spare. \<open>fn\<close> updates a state
  of its own; a callback that writes to the bucket it iterates over is not modelled.
\<close>

definition ifuel :: "heap \<Rightarrow> nat" where
  "ifuel h = Suc (Suc (sum_list (map (\<lambda>n. length (inodes n)) h)))"

definition step_Next :: "wst \<times> elemRef list \<Rightarrow> (kv option \<times> (wst \<times> elemRef list)) res" where
  "step_Next c = (case c of (w, st) \<Rightarrow> rbind (cursor_Next w st) (\<lambda>(x, st). Inr (x, (w, st))))"

definition step_First :: "wst \<times> elemRef list \<Rightarrow> (kv option \<times> (wst \<times> elemRef list)) res" where
  "step_First c = (case c of (w, st) \<Rightarrow> rbind (cursor_First w) (\<lambda>(x, st). Inr (x, (w, st))))"

definition bucket_ForEach ::
  "(kv \<Rightarrow> 's \<Rightarrow> error option \<times> 's) \<Rightarrow> 's \<Rightarrow> wst \<Rightarrow> ((error option \<times> 's) \<times> wst) res" where
  "bucket_ForEach fn s w =
     (if \<not> tx_open w then Inr ((Some ErrTxClosed, s), w)
      else
        let w = bucket_Cursor w
        in rbind (rbind (step_First (w, []))
                    (\<lambda>(x, c). iter_loop (ifuel (heap w)) step_Next fn x c s))
             (\<lambda>r. Inr (r, w)))"

section \<open>Whole-tree walks\<close>

text \<open>\<open>forEachNodeDFS\<close>: pre-order, calling \<open>fn\<close> with every node and its depth.\<close>

fun forEachNodeDFS ::
    "nat \<Rightarrow> heap \<Rightarrow> (node \<Rightarrow> nat \<Rightarrow> 's \<Rightarrow> 's) \<Rightarrow> nat \<Rightarrow> addr option \<Rightarrow> 's \<Rightarrow> 's res"
  and forEachNodeDFS_children ::
    "nat \<Rightarrow> heap \<Rightarrow> (node \<Rightarrow> nat \<Rightarrow> 's \<Rightarrow> 's) \<Rightarrow> nat \<Rightarrow> inode list \<Rightarrow> 's \<Rightarrow> 's res" where
  "forEachNodeDFS 0 h fn depth n s = Inl OutOfFuel"
| "forEachNodeDFS (Suc f) h fn depth None s = Inl (Panic ''nil pointer dereference'')"
| "forEachNodeDFS (Suc f) h fn depth (Some n) s =
     (let s = fn (h ! n) depth s
      in if isLeaf (h ! n) then Inr s
         else forEachNodeDFS_children f h fn (Suc depth) (inodes (h ! n)) s)"
| "forEachNodeDFS_children f h fn depth [] s = Inr s"
| "forEachNodeDFS_children f h fn depth (i # is) s =
     rbind (forEachNodeDFS f h fn depth (ichild i) s)
       (\<lambda>s. forEachNodeDFS_children f h fn depth is s)"

definition forEachNode :: "(node \<Rightarrow> nat \<Rightarrow> 's \<Rightarrow> 's) \<Rightarrow> wst \<Rightarrow> 's \<Rightarrow> 's res" where
  "forEachNode fn w s =
     (case rootView w of
        None \<Rightarrow> Inr s
      | Some r \<Rightarrow> forEachNodeDFS (dfuel (heap w)) (heap w) fn 0 (Some r) s)"

record BucketStats =
  KeyN :: nat
  Depth :: nat
  BranchInuse :: nat
  LeafInuse :: nat

definition BucketStats_zero :: BucketStats where
  "BucketStats_zero = \<lparr>KeyN = 0, Depth = 0, BranchInuse = 0, LeafInuse = 0\<rparr>"

definition stats_visit :: "node \<Rightarrow> nat \<Rightarrow> BucketStats \<Rightarrow> BucketStats" where
  "stats_visit n depth s =
     (let s = (if isLeaf n
               then s\<lparr>KeyN := KeyN s + length (inodes n),
                      LeafInuse := LeafInuse s + foldl (\<lambda>used i. used + (nodeInodeOverheadBytes
                        + length (ikey i) + length (ivalue i))) nodeHeaderOverheadBytes (inodes n)\<rparr>
               else s\<lparr>BranchInuse := BranchInuse s + foldl (\<lambda>used i. used + (nodeInodeOverheadBytes
                        + length (ikey i))) nodeHeaderOverheadBytes (inodes n)\<rparr>)
      in if Depth s < depth + 1 then s\<lparr>Depth := depth + 1\<rparr> else s)"

definition bucket_Stats :: "wst \<Rightarrow> BucketStats res" where
  "bucket_Stats w = forEachNode stats_visit w BucketStats_zero"

definition BucketStats_Add :: "BucketStats \<Rightarrow> BucketStats \<Rightarrow> BucketStats" where
  "BucketStats_Add s other =
     (let s = s\<lparr>KeyN := KeyN s + KeyN other\<rparr>;
          s = (if Depth s < Depth other then s\<lparr>Depth := Depth other\<rparr> else s);
          s = s\<lparr>BranchInuse := BranchInuse s + BranchInuse other\<rparr>
      in s\<lparr>LeafInuse := LeafInuse s + LeafInuse other\<rparr>)"

text \<open>\<open>Bucket.size\<close>: the walk that sums the node sizes.\<close>

definition bucket_size :: "wst \<Rightarrow> nat res" where
  "bucket_size w =
     (case rootView w of
        None \<Rightarrow> Inr 0
      | Some r \<Rightarrow> forEachNodeDFS (dfuel (heap w)) (heap w) (\<lambda>n d sz. sz + node_size n) 0 (Some r) 0)"

datatype BucketStructure =
  BucketStructure (SName: bytes) (SKeyN: nat) (SChildren: "BucketStructure list")

definition recursivelyInspect :: "bytes \<Rightarrow> wst \<Rightarrow> (BucketStructure \<times> wst) res" where
  "recursivelyInspect nm w =
     (let w = bucket_Cursor w
      in rbind (rbind (cursor_first (heap w) (rootView w))
                  (\<lambda>(x, c). iter_loop (ifuel (heap w)) (\<lambda>st. cursor_next (dfuel (heap w)) (heap w) st)
                     (\<lambda>_ n. (None, Suc n)) x c (0::nat)))
           (\<lambda>(_, n). Inr (BucketStructure nm n [], w)))"

definition bucket_Inspect :: "wst \<Rightarrow> (BucketStructure \<times> wst) res" where
  "bucket_Inspect w = recursivelyInspect (name w) w"


section \<open>Ownership: only the transaction's own nodes change\<close>

text \<open>
  \<open>owned\<close>: the dirty nodes are allocated, point back at the bucket (so \<open>n.bucket\<close> in the
  node methods is the bucket at hand), their parent pointers stay among them, and so does
  the materialised root. \<open>evolves w w'\<close>: between \<open>w\<close> and \<open>w'\<close> nodes were allocated
  and dirty nodes were changed, and nothing else; every node that is not dirty, which
  includes every published node, is exactly as before.
\<close>

definition owned :: "wst \<Rightarrow> bool" where
  "owned w \<longleftrightarrow>
     (\<forall>a\<in>dirty w. a < length (heap w) \<and> bucket (heap w ! a) = Some (self w) \<and>
                   (\<forall>p. parent (heap w ! a) = Some p \<longrightarrow> p \<in> dirty w)) \<and>
     (\<forall>r. rootNode w = Some r \<longrightarrow> r \<in> dirty w)"

definition evolves :: "wst \<Rightarrow> wst \<Rightarrow> bool" where
  "evolves w w' \<longleftrightarrow>
     length (heap w) \<le> length (heap w') \<and>
     (\<forall>a<length (heap w). a \<notin> dirty w \<longrightarrow> heap w' ! a = heap w ! a) \<and>
     dirty w \<subseteq> dirty w' \<and> (\<forall>a\<in>dirty w' - dirty w. length (heap w) \<le> a) \<and>
     {length (heap w)..<length (heap w')} \<subseteq> dirty w' \<and>
     name w' = name w \<and> self w' = self w \<and> tx_open w' = tx_open w \<and>
     tx_writable w' = tx_writable w \<and> baseState w' = baseState w \<and> FillPercent w' = FillPercent w"

lemma evolves_refl [simp]: "evolves w w"
  by (simp add: evolves_def)

lemma evolves_trans [trans]:
  assumes "evolves w w'" and "evolves w' w''"
  shows "evolves w w''"
proof -
  have len: "length (heap w) \<le> length (heap w')" "length (heap w') \<le> length (heap w'')"
    and old: "\<And>a. a < length (heap w) \<Longrightarrow> a \<notin> dirty w \<Longrightarrow> heap w' ! a = heap w ! a"
    "\<And>a. a < length (heap w') \<Longrightarrow> a \<notin> dirty w' \<Longrightarrow> heap w'' ! a = heap w' ! a"
    and new: "\<And>a. a \<in> dirty w' \<Longrightarrow> a \<notin> dirty w \<Longrightarrow> length (heap w) \<le> a"
    "\<And>a. a \<in> dirty w'' \<Longrightarrow> a \<notin> dirty w' \<Longrightarrow> length (heap w') \<le> a"
    using assms by (simp_all add: evolves_def)
  have "heap w'' ! a = heap w ! a" if "a < length (heap w)" "a \<notin> dirty w" for a
  proof -
    have "a \<notin> dirty w'" using new(1) [of a] that by linarith
    then show ?thesis using old that len by simp
  qed
  moreover have "length (heap w) \<le> a" if "a \<in> dirty w''" "a \<notin> dirty w" for a
    using new that len by (cases "a \<in> dirty w'") fastforce+
  moreover have "{length (heap w)..<length (heap w'')} \<subseteq> dirty w''"
  proof -
    have "{length (heap w)..<length (heap w'')} = {length (heap w)..<length (heap w')} \<union> {length (heap w')..<length (heap w'')}"
      using len by auto
    then show ?thesis using assms unfolding evolves_def by blast
  qed
  moreover have "dirty w \<subseteq> dirty w''" using assms by (auto simp: evolves_def)
  ultimately show ?thesis using assms len unfolding evolves_def by simp
qed

text \<open>A well-behaved step of a write transaction.\<close>

definition step :: "wst \<Rightarrow> wst \<Rightarrow> bool" where
  "step w w' \<longleftrightarrow> owned w \<longrightarrow> owned w' \<and> evolves w w'"

lemma step_refl [simp]: "step w w"
  by (simp add: step_def)

lemma step_trans [trans]: "step w w' \<Longrightarrow> step w' w'' \<Longrightarrow> step w w''"
  unfolding step_def using evolves_trans by blast

lemma step_stats [simp]: "step w (w\<lparr>stats := s\<rparr>)"
  by (simp add: step_def owned_def evolves_def)

lemma step_bucket_Cursor [simp]: "step w (bucket_Cursor w)"
  by (simp add: bucket_Cursor_def)

lemma step_upd_node:
  assumes "a \<in> dirty w" and "bucket (f (heap w ! a)) = bucket (heap w ! a)"
    and "\<And>p. parent (f (heap w ! a)) = Some p \<Longrightarrow> p \<in> dirty w"
  shows "step w (upd_node a f w)"
  using assms by (auto simp: step_def owned_def evolves_def upd_node_def nth_list_update)

lemma step_upd_same_parent:
  assumes "a \<in> dirty w" and "bucket (f (heap w ! a)) = bucket (heap w ! a)"
    and "parent (f (heap w ! a)) = parent (heap w ! a)"
  shows "step w (upd_node a f w)"
proof -
  have "step w (upd_node a f w)" if "owned w"
    by (rule step_upd_node) (use assms that in \<open>auto simp: owned_def\<close>)
  then show ?thesis by (auto simp: step_def)
qed

lemma step_alloc:
  assumes "alloc_dirty n w = (a, w')" and "bucket n = Some (self w)"
    and "\<And>p. parent n = Some p \<Longrightarrow> p \<in> dirty w"
  shows "step w w'" and "a \<in> dirty w'" and "dirty w \<subseteq> dirty w'"
proof -
  show "step w w'"
  proof -
    have w': "w' = w\<lparr>heap := heap w @ [n], dirty := insert (length (heap w)) (dirty w)\<rparr>"
      using assms(1) by (auto simp: alloc_dirty_def)
    have "evolves w w'" by (auto simp: evolves_def w' nth_append)
    moreover have "owned w'" if "owned w"
      using that assms(2,3) unfolding owned_def w' by (auto simp: nth_append less_SucI)
    ultimately show ?thesis by (simp add: step_def)
  qed
  show "a \<in> dirty w'" "dirty w \<subseteq> dirty w'" using assms by (auto simp: alloc_dirty_def)
qed

lemma copyNode_simps [simp]: "parent (copyNode b n) = None" "bucket (copyNode b n) = Some b"
  "\<not> spilled (copyNode b n)"
  by (simp_all add: copyNode_def new_node_def)

lemma materialized_simps [simp]:
  "parent (materialized w) = None" "bucket (materialized w) = Some (self w)"
  by (simp_all add: materialized_def new_node_def split: option.splits)

lemma writableRoot_step:
  assumes "writableRoot w = (r, w')" and "owned w"
  shows "owned w'" and "evolves w w'" and "r \<in> dirty w'" and "rootNode w' = Some r"
proof -
  have "owned w' \<and> evolves w w' \<and> r \<in> dirty w' \<and> rootNode w' = Some r"
  proof (cases "rootNode w")
    case None
    obtain w1 where w1: "alloc_dirty (materialized w) w = (r, w1)" "w' = w1\<lparr>rootNode := Some r\<rparr>"
      using assms(1) None by (auto simp: writableRoot_def split: prod.splits)
    have "owned w1" "evolves w w1" "r \<in> dirty w1"
      using step_alloc [OF w1(1)] assms(2) by (auto simp: step_def)
    then show ?thesis by (auto simp: owned_def evolves_def w1(2))
  qed (use assms in \<open>auto simp: writableRoot_def owned_def\<close>)
  then show "owned w'" "evolves w w'" "r \<in> dirty w'" "rootNode w' = Some r" by auto
qed

lemma childForWrite_step:
  assumes "childForWrite p idx w = Inr (c, w')" and "p \<in> dirty w"
  shows "step w w'" and "c \<in> dirty w'" and "dirty w \<subseteq> dirty w'"
proof -
  obtain i child where i: "slice_index (inodes (heap w ! p)) idx = Inr i" "ichild i = Some child"
    using assms(1) by (auto simp: childForWrite_def split: option.splits)
  have "step w w' \<and> c \<in> dirty w' \<and> dirty w \<subseteq> dirty w'"
  proof (cases "child \<in> dirty w")
    case False
    let ?n = "(copyNode (self w) (heap w ! child))\<lparr>parent := Some p\<rparr>"
    obtain w1 where w1: "alloc_dirty ?n w = (c, w1)"
      "w' = upd_node p (\<lambda>n. n\<lparr>inodes := (inodes n)[nat idx := i\<lparr>ichild := Some c\<rparr>]\<rparr>) w1"
      using assms(1) i False by (auto simp: childForWrite_def split: prod.splits)
    have a: "step w w1" "c \<in> dirty w1" "dirty w \<subseteq> dirty w1"
      using step_alloc [OF w1(1)] assms(2) by auto
    have "step w1 w'" unfolding w1(2)
      by (rule step_upd_same_parent) (use assms(2) a in auto)
    with a show ?thesis using step_trans by (auto simp: w1(2) upd_node_def)
  qed (use assms i in \<open>auto simp: childForWrite_def\<close>)
  then show "step w w'" "c \<in> dirty w'" "dirty w \<subseteq> dirty w'" by auto
qed

lemma childAt_step:
  assumes "childAt p idx w = Inr (c, w')" and "p \<in> dirty w"
  shows "step w w'" and "c \<in> dirty w'" and "dirty w \<subseteq> dirty w'"
  using childForWrite_step [of p idx w c w'] assms by (auto simp: childAt_def split: if_splits)

lemma node_walk_step:
  assumes "node_walk refs n w = Inr (n', w')" and "n \<in> dirty w"
  shows "step w w' \<and> n' \<in> dirty w' \<and> isLeaf (heap w' ! n')"
  using assms
proof (induction refs n w arbitrary: n' w' rule: node_walk.induct)
  case (2 ref refs n w)
  then obtain c w1 where c: "childAt n (eindex ref) w = Inr (c, w1)" "\<not> isLeaf (heap w ! n)"
    "node_walk refs c w1 = Inr (n', w')"
    by (auto split: if_splits)
  then show ?case
    using "2.IH" [OF c(2) c(1) refl c(3)] childAt_step [OF c(1) "2.prems"(2)] step_trans by blast
qed (auto split: if_splits)

lemma cursor_node_step:
  assumes "cursor_node st w = Inr (n, w')" and "owned w"
  shows "owned w'" and "evolves w w'" and "n \<in> dirty w'"
proof -
  obtain r w1 where r: "writableRoot w = (r, w1)" "node_walk (rev (tl st)) r w1 = Inr (n, w')"
    using assms(1) by (auto simp: cursor_node_def split: if_splits prod.splits)
  have "owned w' \<and> evolves w w' \<and> n \<in> dirty w'"
    using writableRoot_step [OF r(1) assms(2)] node_walk_step [OF r(2)] evolves_trans
    by (auto simp: step_def)
  then show "owned w'" "evolves w w'" "n \<in> dirty w'" by auto
qed

lemma put_parent: "put k k' v c f n = Inr n' \<Longrightarrow> parent n' = parent n \<and> bucket n' = bucket n"
  by (auto simp: put_def Let_def split: if_splits)

lemma del_parent [simp]: "parent (del k n) = parent n" "bucket (del k n) = bucket n"
  by (simp_all add: del_def Let_def)

text \<open>
  Whatever a write does, and whatever the heap looks like, it changes only nodes this
  transaction owns.
\<close>

lemma bucket_Put_step: "bucket_Put k v w = Inr (e, w') \<Longrightarrow> step w w'"
proof -
  assume a: "bucket_Put k v w = Inr (e, w')"
  have "step w w'" if o: "owned w"
  proof (cases "e = None")
    case True
    let ?w = "bucket_Cursor w"
    have o1: "owned ?w" "evolves w ?w" using o step_bucket_Cursor by (auto simp: step_def)
    obtain r st n w2 nd where s: "cursor_node st ?w = Inr (n, w2)"
      "put k k v None 0 (heap w2 ! n) = Inr nd" "w' = upd_node n (\<lambda>_. nd) w2"
      using a True by (auto simp: bucket_Put_def Let_def split: if_splits)
    have "step w2 w'" unfolding s(3)
      by (rule step_upd_same_parent) (use cursor_node_step [OF s(1) o1(1)] put_parent [OF s(2)] in auto)
    then show ?thesis
      using cursor_node_step [OF s(1) o1(1)] o1 evolves_trans unfolding step_def by blast
  qed (use a in \<open>auto simp: bucket_Put_def Let_def split: if_splits\<close>)
  then show ?thesis by (auto simp: step_def)
qed

lemma del_step:
  assumes "cursor_node st w = Inr (n, w1)" and "owned w"
  shows "owned (upd_node n (del k) w1) \<and> evolves w (upd_node n (del k) w1)"
proof -
  have "step w1 (upd_node n (del k) w1)"
    by (rule step_upd_same_parent) (use cursor_node_step [OF assms] in auto)
  then show ?thesis using cursor_node_step [OF assms] evolves_trans unfolding step_def by blast
qed

lemma bucket_Delete_step: "bucket_Delete k w = Inr (e, w') \<Longrightarrow> step w w'"
proof -
  assume a: "bucket_Delete k w = Inr (e, w')"
  have "owned w' \<and> evolves w w'" if o: "owned w"
  proof -
    have o1: "owned (bucket_Cursor w)" "evolves w (bucket_Cursor w)"
      using o step_bucket_Cursor by (auto simp: step_def)
    from a consider "w' = w" | "w' = bucket_Cursor w"
      | st n w1 where "cursor_node st (bucket_Cursor w) = Inr (n, w1)" "w' = upd_node n (del k) w1"
      by (auto simp: bucket_Delete_def Let_def split: if_splits)
    then show ?thesis
    proof cases
      case 3
      then show ?thesis using del_step [OF 3(1) o1(1)] o1(2) evolves_trans by blast
    qed (use o o1 in auto)
  qed
  then show ?thesis by (auto simp: step_def)
qed

lemma cursor_Delete_step: "cursor_Delete st w = Inr (e, w') \<Longrightarrow> step w w'"
  unfolding step_def using del_step
  by (auto simp: cursor_Delete_def Let_def split: if_splits)


section \<open>The write context of a tree\<close>

text \<open>
  \<open>wlinked\<close>: a child's own key is the separator its parent holds for it, and a dirty
  child hangs below a dirty parent, to which it points back.
\<close>

definition wchild :: "heap \<Rightarrow> addr set \<Rightarrow> addr \<Rightarrow> bytes \<times> tree \<Rightarrow> bool" where
  "wchild h D a e \<longleftrightarrow> nkey (h ! raddr (snd e)) = fst e \<and>
     (raddr (snd e) \<in> D \<longrightarrow> a \<in> D \<and> parent (h ! raddr (snd e)) = Some a)"

fun wlinked :: "heap \<Rightarrow> addr set \<Rightarrow> tree \<Rightarrow> bool" where
  "wlinked h D (Leaf a kvs) \<longleftrightarrow> True"
| "wlinked h D (Branch a ets) \<longleftrightarrow> list_all (\<lambda>e. wchild h D a e \<and> wlinked h D (snd e)) ets"

definition intree :: "heap \<Rightarrow> addr set \<Rightarrow> tree \<Rightarrow> bool" where
  "intree h D t \<longleftrightarrow> repr h t \<and> wlinked h D t"

text \<open>The state of a bucket whose current view is the tree \<open>t\<close>.\<close>

definition fresh :: "wst \<Rightarrow> bool" where
  "fresh w \<longleftrightarrow> (\<forall>a\<in>dirty w. \<not> spilled (heap w ! a))"

text \<open>No pair was deleted: no node of the transaction waits for \<^verbatim>\<open>rebalance\<close>.\<close>

definition balanced :: "wst \<Rightarrow> bool" where
  "balanced w \<longleftrightarrow> (\<forall>a\<in>dirty w. \<not> unbalanced (heap w ! a))"

definition winv :: "wst \<Rightarrow> tree \<Rightarrow> bool" where
  "winv w t \<longleftrightarrow> intree (heap w) (dirty w) t \<and> btree t \<and> rootView w = Some (raddr t) \<and> owned w \<and>
     dirty w \<subseteq> set (addrs t) \<and> fresh w \<and>
     (case rootNode w of None \<Rightarrow> dirty w = {} | Some r \<Rightarrow> parent (heap w ! r) = None)"

text \<open>Copying changes addresses only: the tree with its addresses erased stays the same.\<close>

fun shape :: "tree \<Rightarrow> tree" where
  "shape (Leaf a kvs) = Leaf 0 kvs"
| "shape (Branch a ets) = Branch 0 (map (\<lambda>e. (fst e, shape (snd e))) ets)"

text \<open>What writing keeps of the tree: its branches and their keys.\<close>

fun skel :: "tree \<Rightarrow> tree" where
  "skel (Leaf a kvs) = Leaf 0 []"
| "skel (Branch a ets) = Branch 0 (map (\<lambda>e. (fst e, skel (snd e))) ets)"

fun readdr :: "addr \<Rightarrow> tree \<Rightarrow> tree" where
  "readdr b (Leaf a kvs) = Leaf b kvs"
| "readdr b (Branch a ets) = Branch b ets"

fun leaf_addr :: "tree \<Rightarrow> nat list \<Rightarrow> addr" where
  "leaf_addr (Leaf a kvs) is = a"
| "leaf_addr (Branch a ets) [] = a"
| "leaf_addr (Branch a ets) (i # is) = (if i < length ets then leaf_addr (snd (ets ! i)) is else a)"

lemma items_shape: "items (shape t) = items t"
proof (induction t)
  case (Branch a ets)
  have "map (\<lambda>e. items (shape (snd e))) ets = map (\<lambda>e. items (snd e)) ets"
    by (rule map_cong [OF refl]) (metis Branch prod.collapse)
  then show ?case by (simp only: shape.simps items.simps map_map comp_def snd_conv)
qed simp

lemma ok_shape: "ok lo hi (shape t) \<longleftrightarrow> ok lo hi t"
  "oks lo hi (map (\<lambda>e. (fst e, shape (snd e))) ets) \<longleftrightarrow> oks lo hi ets"
  by (induction lo hi t and lo hi ets rule: ok_oks.induct) auto

lemma valid_shape: "valid (shape t) p \<longleftrightarrow> valid t p"
  by (induction t p rule: valid.induct) auto

lemma leaf_kvs_shape: "valid t p \<Longrightarrow> leaf_kvs (shape t) p = leaf_kvs t p"
  by (induction t p rule: valid.induct) auto

lemma set_leaf_shape: "valid t p \<Longrightarrow> shape (set_leaf t p kvs) = set_leaf (shape t) p kvs"
  by (induction t p rule: valid.induct) (auto simp: map_update)

lemma skel_shape: "skel (shape t) = skel t"
  by (induction t) (auto simp: map_eq_conv)

lemma skel_set_leaf: "valid t p \<Longrightarrow> skel (set_leaf t p kvs) = skel t"
  by (induction t p rule: valid.induct) (auto simp: map_update intro!: list_update_same_conv [THEN iffD2])

lemma skel_leaf: "skel t = Leaf 0 [] \<longleftrightarrow> (\<exists>a. t = Leaf a (items t))"
  by (cases t) auto

lemma shape_readdr [simp]: "shape (readdr b t) = shape t"
  by (cases t) auto

lemma raddr_readdr [simp]: "raddr (readdr b t) = b"
  by (cases t) auto

lemma addrs_set_leaf: "valid t p \<Longrightarrow> addrs (set_leaf t p kvs) = addrs t"
proof (induction t p rule: valid.induct)
  case (3 a ets i "is")
  then have "map (\<lambda>e. addrs (snd e)) (ets[i := (fst (ets ! i), set_leaf (snd (ets ! i)) is kvs)]) =
      map (\<lambda>e. addrs (snd e)) ets"
    by (intro nth_equalityI) (auto simp: nth_list_update)
  then show ?case using 3 by (simp del: map_update)
qed auto

lemma raddr_set_leaf: "valid t p \<Longrightarrow> raddr (set_leaf t p kvs) = raddr t"
  by (cases p; cases t) auto

section \<open>Trees under changes of the heap\<close>

text \<open>The nodes in \<open>A\<close> and whether they are dirty are the same in both heaps.\<close>

definition same_on :: "addr set \<Rightarrow> heap \<Rightarrow> addr set \<Rightarrow> heap \<Rightarrow> addr set \<Rightarrow> bool" where
  "same_on A h D h' D' \<longleftrightarrow>
     length h \<le> length h' \<and> (\<forall>b\<in>A. h' ! b = h ! b \<and> (b \<in> D' \<longleftrightarrow> b \<in> D))"

lemma same_on_mono: "same_on A h D h' D' \<Longrightarrow> B \<subseteq> A \<Longrightarrow> same_on B h D h' D'"
  by (auto simp: same_on_def)

lemma same_on_agree: "same_on A h D h' D' \<Longrightarrow> agree A h h'"
  by (auto simp: same_on_def agree_def)

lemma intree_Branch:
  "intree h D (Branch a ets) \<longleftrightarrow> a < length h \<and> \<not> isLeaf (h ! a) \<and>
     list_all2 branch_entry (inodes (h ! a)) ets \<and>
     (\<forall>e\<in>set ets. wchild h D a e \<and> intree h D (snd e))"
  unfolding intree_def repr.simps wlinked.simps list_all_iff by blast

lemma wchild_same:
  "wchild h D a e \<Longrightarrow> same_on A h D h' D' \<Longrightarrow> raddr (snd e) \<in> A \<Longrightarrow> (a \<in> D \<Longrightarrow> a \<in> D') \<Longrightarrow> wchild h' D' a e"
  by (auto simp: wchild_def same_on_def)

lemma intree_same: "intree h D t \<Longrightarrow> same_on (set (addrs t)) h D h' D' \<Longrightarrow> intree h' D' t"
proof (induction t)
  case (Leaf a kvs)
  then show ?case by (auto simp: intree_def same_on_def)
next
  case (Branch a ets)
  have a: "a < length h'" "h' ! a = h ! a" "a \<in> D' \<longleftrightarrow> a \<in> D"
    using Branch.prems by (auto simp: same_on_def intree_Branch)
  have "wchild h' D' a e \<and> intree h' D' (snd e)" if e: "e \<in> set ets" for e
  proof -
    have e': "(fst e, snd e) \<in> set ets" using e by simp
    have s: "same_on (set (addrs (snd e))) h D h' D'"
      by (rule same_on_mono [OF Branch.prems(2) child_addrs [OF e']])
    have "wchild h D a e" "intree h D (snd e)"
      using Branch.prems(1) e unfolding intree_Branch by blast+
    then show ?thesis
      using wchild_same [OF _ s raddr_in_addrs] Branch.IH [OF e' _ s] a(3) by blast
  qed
  then show ?case using Branch.prems(1) a unfolding intree_Branch by simp
qed

text \<open>Replacing one child by another at the same address.\<close>

lemma siblings_same:
  assumes "intree h D (Branch a (xs @ (k, c) # ys))"
    and "same_on (set (addrs_of xs) \<union> set (addrs_of ys)) h D h' D'" and "a \<in> D \<Longrightarrow> a \<in> D'"
    and "e \<in> set xs \<union> set ys"
  shows "wchild h' D' a e \<and> intree h' D' (snd e)"
proof -
  have "set (addrs (snd e)) \<subseteq> set (addrs_of xs) \<union> set (addrs_of ys)"
    using assms(4) by auto
  then have s: "same_on (set (addrs (snd e))) h D h' D'" by (rule same_on_mono [OF assms(2)])
  have "wchild h D a e" "intree h D (snd e)"
    using assms(1,4) unfolding intree_Branch by auto
  then show ?thesis using wchild_same [OF _ s raddr_in_addrs assms(3)] intree_same [OF _ s] by blast
qed

lemma intree_replace:
  assumes "intree h D (Branch a (xs @ (k, c) # ys))" and "intree h' D' c'" and "raddr c' = raddr c"
    and "same_on (insert a (set (addrs_of xs) \<union> set (addrs_of ys))) h D h' D'"
    and "nkey (h' ! raddr c) = nkey (h ! raddr c)" and "parent (h' ! raddr c) = parent (h ! raddr c)"
    and "raddr c \<in> D' \<longleftrightarrow> raddr c \<in> D"
  shows "intree h' D' (Branch a (xs @ (k, c') # ys))"
proof -
  have h: "h' ! a = h ! a" "a \<in> D' \<longleftrightarrow> a \<in> D" "length h \<le> length h'"
    using assms(4) by (auto simp: same_on_def)
  have s: "same_on (set (addrs_of xs) \<union> set (addrs_of ys)) h D h' D'"
    by (rule same_on_mono [OF assms(4)]) blast
  have n: "a < length h" "\<not> isLeaf (h ! a)" "wchild h D a (k, c)"
    and l: "list_all2 branch_entry (inodes (h ! a)) (xs @ (k, c) # ys)"
    using assms(1) unfolding intree_Branch by auto
  have "wchild h' D' a (k, c')"
    using n(3) assms(3,5-7) h(2) by (simp add: wchild_def)
  moreover have "wchild h' D' a e \<and> intree h' D' (snd e)" if "e \<in> set xs \<union> set ys" for e
    by (rule siblings_same [OF assms(1) s _ that]) (simp add: h(2))
  moreover have "list_all2 branch_entry (inodes (h ! a)) (xs @ (k, c') # ys)"
    using l assms(3) by (auto simp: list_all2_append2 list_all2_Cons2 branch_entry_def)
  ultimately show ?thesis
    using assms(2) n(1,2) h(1,3) unfolding intree_Branch by auto
qed

section \<open>Copying a path\<close>

text \<open>A copy of the root of a clean subtree stands for the same subtree.\<close>

lemma intree_copy:
  assumes "intree h D t" and "raddr t \<notin> D" and "same_node (h' ! b) (h ! raddr t)"
    and "b < length h'" and "same_on (set (addrs t) - {raddr t}) h D h' D'"
    and "distinct (addrs t)" and "b \<in> D'"
  shows "intree h' D' (readdr b t)"
proof (cases t)
  case (Leaf a kvs)
  then show ?thesis using assms by (auto simp: intree_def same_node_def)
next
  case (Branch a ets)
  have c: "wchild h' D' b e \<and> intree h' D' (snd e)" if e: "e \<in> set ets" for e
  proof -
    have e': "(fst e, snd e) \<in> set ets" using e by simp
    have l: "wchild h D a e" "intree h D (snd e)"
      using assms(1) e unfolding Branch intree_Branch by blast+
    have "a \<notin> set (addrs (snd e))" using assms(6) e Branch by auto
    then have "set (addrs (snd e)) \<subseteq> set (addrs t) - {raddr t}"
      using child_addrs [OF e', of a] Branch by auto
    then have s: "same_on (set (addrs (snd e))) h D h' D'" by (rule same_on_mono [OF assms(5)])
    have "wchild h' D' b e"
      using l(1) assms(2) Branch s raddr_in_addrs [of "snd e"] by (auto simp: wchild_def same_on_def)
    then show ?thesis using intree_same [OF l(2) s] by blast
  qed
  have "\<not> isLeaf (h' ! b)" "list_all2 branch_entry (inodes (h' ! b)) ets"
    using assms(1,3) Branch by (auto simp: intree_def same_node_def)
  then show ?thesis using Branch assms(4) c unfolding Branch readdr.simps intree_Branch by blast
qed

lemma clean_below:
  assumes "wlinked h D t" and "raddr t \<notin> D"
  shows "set (addrs t) \<inter> D = {}"
  using assms
proof (induction t)
  case (Branch a ets)
  have "set (addrs c) \<inter> D = {}" if "(k, c) \<in> set ets" for k c
    using Branch.IH [OF that] Branch.prems that by (force simp: list_all_iff wchild_def)
  then show ?case using Branch.prems(2) by force
qed simp

lemma distinct_middle:
  "distinct (addrs (Branch a (xs @ (k, c) # ys))) \<longleftrightarrow>
     distinct (a # addrs_of xs @ addrs_of ys) \<and> distinct (addrs c) \<and>
     set (addrs c) \<inter> insert a (set (addrs_of xs) \<union> set (addrs_of ys)) = {}"
  unfolding addrs.simps map_append concat_append list.map concat.simps distinct.simps
    distinct_append set_append snd_conv by blast

lemma addrs_middle:
  "set (addrs (Branch a (xs @ (k, c) # ys))) =
     insert a (set (addrs_of xs) \<union> set (addrs_of ys)) \<union> set (addrs c)"
  by auto

lemma distinct_replace:
  assumes "distinct (addrs (Branch a (xs @ (k, c) # ys)))" and "distinct (addrs c')"
    and "set (addrs c') \<subseteq> set (addrs c) \<union> {m..}" and "\<forall>b\<in>set (addrs (Branch a (xs @ (k, c) # ys))). b < m"
  shows "distinct (addrs (Branch a (xs @ (k, c') # ys)))"
proof -
  let ?X = "insert a (set (addrs_of xs) \<union> set (addrs_of ys))"
  have "\<forall>b\<in>?X. b < m" using assms(4) unfolding addrs_middle by blast
  then have "?X \<inter> {m..} = {}" by (meson atLeast_iff disjoint_iff linorder_not_le)
  moreover have "set (addrs c) \<inter> ?X = {}" using assms(1) unfolding distinct_middle by blast
  ultimately have "set (addrs c') \<inter> ?X = {}" using assms(3) by blast
  then show ?thesis using assms(1,2) unfolding distinct_middle by blast
qed

text \<open>
  \<open>copies w t w' t'\<close>: between \<open>w\<close> and \<open>w'\<close> some nodes of \<open>t\<close> were copied, which gives
  \<open>t'\<close>; the root stays where it is, and the heap outside the tree is as before.
\<close>

definition copies :: "wst \<Rightarrow> tree \<Rightarrow> wst \<Rightarrow> tree \<Rightarrow> bool" where
  "copies w t w' t' \<longleftrightarrow>
     intree (heap w') (dirty w') t' \<and> shape t' = shape t \<and> raddr t' = raddr t \<and>
     distinct (addrs t') \<and> set (addrs t') \<subseteq> set (addrs t) \<union> {length (heap w)..} \<and>
     rootNode w' = rootNode w \<and>
     dirty w' \<subseteq> (dirty w - set (addrs t)) \<union> set (addrs t') \<and> (fresh w \<longrightarrow> fresh w') \<and>
     (balanced w' \<longleftrightarrow> balanced w) \<and>
     nkey (heap w' ! raddr t) = nkey (heap w ! raddr t) \<and>
     parent (heap w' ! raddr t) = parent (heap w ! raddr t) \<and>
     (\<forall>b<length (heap w). b \<notin> set (addrs t) \<longrightarrow> heap w' ! b = heap w ! b)"

lemma copies_refl: "intree (heap w) (dirty w) t \<Longrightarrow> distinct (addrs t) \<Longrightarrow> copies w t w t"
  by (auto simp: copies_def)

lemma copies_trans:
  assumes "copies w t w1 t1" and "copies w1 t1 w2 t2" and "length (heap w) \<le> length (heap w1)"
  shows "copies w t w2 t2"
proof -
  have s: "set (addrs t1) \<subseteq> set (addrs t) \<union> {length (heap w)..}" "raddr t1 = raddr t"
    using assms(1) by (simp_all add: copies_def)
  have "set (addrs t2) \<subseteq> set (addrs t1) \<union> {length (heap w1)..}"
    using assms(2) by (simp add: copies_def)
  also have "\<dots> \<subseteq> set (addrs t) \<union> {length (heap w)..}" using s assms(3) by auto
  finally have "set (addrs t2) \<subseteq> set (addrs t) \<union> {length (heap w)..}" .
  moreover have "heap w2 ! b = heap w ! b" if "b < length (heap w)" "b \<notin> set (addrs t)" for b
  proof -
    have "b \<notin> set (addrs t1)" using s(1) that by force
    then show ?thesis using assms that by (simp add: copies_def)
  qed
  moreover have "dirty w2 \<subseteq> (dirty w - set (addrs t)) \<union> set (addrs t2)"
    using assms(1,2) unfolding copies_def by blast
  ultimately show ?thesis using assms(1,2) s(2) by (simp add: copies_def)
qed

lemma evolves_dirty: "evolves w w' \<Longrightarrow> b < length (heap w) \<Longrightarrow> b \<in> dirty w' \<longleftrightarrow> b \<in> dirty w"
  unfolding evolves_def by (meson DiffI linorder_not_less subsetD)

lemma copies_child:
  assumes "copies w c w' c'" and "evolves w w'"
    and "intree (heap w) (dirty w) (Branch a (xs @ (k, c) # ys))"
    and "distinct (addrs (Branch a (xs @ (k, c) # ys)))"
  shows "copies w (Branch a (xs @ (k, c) # ys)) w' (Branch a (xs @ (k, c') # ys))"
    (is "copies w ?t w' ?t'")
proof -
  let ?X = "insert a (set (addrs_of xs) \<union> set (addrs_of ys))"
  have c: "intree (heap w') (dirty w') c'" "raddr c' = raddr c" "shape c' = shape c"
    "distinct (addrs c')" "set (addrs c') \<subseteq> set (addrs c) \<union> {length (heap w)..}"
    "rootNode w' = rootNode w" "nkey (heap w' ! raddr c) = nkey (heap w ! raddr c)"
    "parent (heap w' ! raddr c) = parent (heap w ! raddr c)"
    "\<forall>b<length (heap w). b \<notin> set (addrs c) \<longrightarrow> heap w' ! b = heap w ! b"
    "dirty w' \<subseteq> (dirty w - set (addrs c)) \<union> set (addrs c')" "fresh w \<longrightarrow> fresh w'" "balanced w' \<longleftrightarrow> balanced w"
    using assms(1) by (simp_all add: copies_def)
  have lt: "b < length (heap w)" if "b \<in> set (addrs ?t)" for b
    using repr_addrs that assms(3) unfolding intree_def by blast
  have X: "b \<notin> set (addrs c)" "b < length (heap w)" if "b \<in> ?X" for b
    using that assms(4) lt unfolding distinct_middle addrs_middle by blast+
  have rc: "raddr c < length (heap w)" by (rule lt) (unfold addrs_middle, simp)
  have "intree (heap w') (dirty w') ?t'"
  proof (rule intree_replace [OF assms(3) c(1,2) _ c(7,8) evolves_dirty [OF assms(2) rc]])
    show "same_on ?X (heap w) (dirty w) (heap w') (dirty w')"
      unfolding same_on_def using X c(9) assms(2) evolves_dirty [OF assms(2)] by (auto simp: evolves_def)
  qed
  moreover have "distinct (addrs ?t')"
    by (rule distinct_replace [OF assms(4) c(4,5)]) (use lt in blast)
  moreover have "set (addrs ?t') \<subseteq> set (addrs ?t) \<union> {length (heap w)..}"
    using c(5) unfolding addrs_middle by blast
  moreover have "heap w' ! b = heap w ! b" if "b < length (heap w)" "b \<notin> set (addrs ?t)" for b
    using that c(9) unfolding addrs_middle by blast
  moreover have "heap w' ! a = heap w ! a" using X [of a] c(9) by simp
  moreover have "dirty w' \<subseteq> (dirty w - set (addrs ?t)) \<union> set (addrs ?t')"
    using c(10) unfolding addrs_middle by blast
  ultimately show ?thesis using c(3,6,11,12) by (simp add: copies_def del: addrs.simps)
qed

text \<open>One step down: the child is dirty afterwards.\<close>

lemma childAt_spec:
  assumes "intree (heap w) (dirty w) (Branch a (xs @ (k, c) # ys))"
    and "distinct (addrs (Branch a (xs @ (k, c) # ys)))" and "a \<in> dirty w" and "owned w"
  shows "\<exists>c' w'. childAt a (int (length xs)) w = Inr (raddr c', w') \<and> raddr c' \<in> dirty w' \<and>
    copies w (Branch a (xs @ (k, c) # ys)) w' (Branch a (xs @ (k, c') # ys))"
proof -
  let ?t = "Branch a (xs @ (k, c) # ys)"
  let ?h = "heap w" and ?D = "dirty w" and ?i = "length xs"
  have r: "a < length ?h" "\<not> isLeaf (?h ! a)"
    and l: "list_all2 branch_entry (inodes (?h ! a)) (xs @ (k, c) # ys)"
    using assms(1) by (auto simp: intree_def)
  define e where "e = inodes (?h ! a) ! ?i"
  have il: "?i < length (inodes (?h ! a))" and e: "branch_entry e (k, c)"
    using list_all2_lengthD [OF l] list_all2_nthD2 [OF l, of ?i] by (auto simp: e_def)
  have ic: "intree ?h ?D c" and nk: "nkey (?h ! raddr c) = k"
    using assms(1) unfolding intree_Branch by (auto simp: wchild_def)
  show ?thesis
  proof (cases "raddr c \<in> ?D")
    case True
    then have "childAt a (int ?i) w = Inr (raddr c, w)"
      using r il e by (simp add: childAt_def childForWrite_def branch_entry_def e_def [symmetric])
    then show ?thesis using copies_refl [OF assms(1,2)] True by blast
  next
    case False
    let ?b = "length ?h"
    let ?n = "(copyNode (self w) (?h ! raddr c))\<lparr>parent := Some a\<rparr>"
    let ?p = "(?h ! a)\<lparr>inodes := (inodes (?h ! a))[?i := e\<lparr>ichild := Some ?b\<rparr>]\<rparr>"
    define w' where "w' = w\<lparr>heap := (?h @ [?n])[a := ?p], dirty := insert ?b ?D\<rparr>"
    have run: "childAt a (int ?i) w = Inr (?b, w')"
      using r il e False
      by (simp add: childAt_def childForWrite_def branch_entry_def e_def [symmetric] alloc_dirty_def
          upd_node_def nth_append w'_def)
    have h': "heap w' ! ?b = ?n" "heap w' ! a = ?p" "length (heap w') = Suc ?b"
      "\<And>b. b < ?b \<Longrightarrow> b \<noteq> a \<Longrightarrow> heap w' ! b = ?h ! b" "dirty w' = insert ?b ?D"
      using r by (auto simp: w'_def nth_append nth_list_update)
    have lt: "b < ?b" if "b \<in> set (addrs ?t)" for b
      using repr_addrs that assms(1) unfolding intree_def by blast
    have sm: "same_on (set (addrs ?t) - {a}) ?h ?D (heap w') (dirty w')"
      unfolding same_on_def using h'(3,4,5) lt by (auto simp del: addrs.simps)
    have ac: "a \<notin> set (addrs c)" "distinct (addrs c)" "a \<notin> set (addrs_of xs) \<union> set (addrs_of ys)"
      using assms(2) unfolding distinct_middle by auto
    have cc: "intree (heap w') (dirty w') (readdr ?b c)"
    proof (rule intree_copy [OF ic False])
      show "same_node (heap w' ! ?b) (?h ! raddr c)"
        unfolding h' by (simp add: same_node_def copyNode_def new_node_def)
      show "same_on (set (addrs c) - {raddr c}) ?h ?D (heap w') (dirty w')"
        by (rule same_on_mono [OF sm]) (use ac(1) in \<open>unfold addrs_middle, blast\<close>)
      show "distinct (addrs c)" by (rule ac(2))
    qed (simp_all add: h')
    have ss: "same_on (set (addrs_of xs) \<union> set (addrs_of ys)) ?h ?D (heap w') (dirty w')"
      by (rule same_on_mono [OF sm]) (use ac(3) in \<open>unfold addrs_middle, blast\<close>)
    have sibs: "wchild (heap w') (dirty w') a x \<and> intree (heap w') (dirty w') (snd x)"
      if "x \<in> set xs \<union> set ys" for x
      by (rule siblings_same [OF assms(1) ss _ that]) (simp add: h')
    have new: "wchild (heap w') (dirty w') a (k, readdr ?b c)"
      using nk assms(3) h' by (simp add: wchild_def copyNode_def)
    have "list_all2 branch_entry ((inodes (?h ! a))[?i := e\<lparr>ichild := Some ?b\<rparr>])
        ((xs @ (k, c) # ys)[?i := (k, readdr ?b c)])"
      by (rule list_all2_update_cong [OF l]) (use e in \<open>simp add: branch_entry_def\<close>)
    then have "intree (heap w') (dirty w') (Branch a (xs @ (k, readdr ?b c) # ys))"
      using sibs cc new r(1,2) h'(2,3) unfolding intree_Branch by auto
    moreover have d: "distinct (addrs (readdr ?b c))" "set (addrs (readdr ?b c)) \<subseteq> set (addrs c) \<union> {?b..}"
    proof -
      have "?b \<notin> set (addrs c)" using lt unfolding addrs_middle by blast
      then show "distinct (addrs (readdr ?b c))" "set (addrs (readdr ?b c)) \<subseteq> set (addrs c) \<union> {?b..}"
        using ac(2) by (cases c; force)+
    qed
    moreover have "distinct (addrs (Branch a (xs @ (k, readdr ?b c) # ys)))"
      by (rule distinct_replace [OF assms(2) d]) (use lt in blast)
    moreover have "rootNode w' = rootNode w" by (simp add: w'_def)
    moreover have "nkey (heap w' ! a) = nkey (?h ! a)" "parent (heap w' ! a) = parent (?h ! a)"
      unfolding h' by simp_all
    moreover have "set (addrs (Branch a (xs @ (k, readdr ?b c) # ys))) \<subseteq> set (addrs ?t) \<union> {?b..}"
      using d(2) unfolding addrs_middle by blast
    moreover have "heap w' ! b = ?h ! b" if "b < ?b" "b \<notin> set (addrs ?t)" for b
      using h'(4) that unfolding addrs_middle by blast
    moreover have "dirty w' \<subseteq> (?D - set (addrs ?t)) \<union> set (addrs (Branch a (xs @ (k, readdr ?b c) # ys)))"
    proof -
      have "set (addrs c) \<subseteq> insert (raddr c) (set (addrs (readdr ?b c)))" "?b \<in> set (addrs (readdr ?b c))"
        by (cases c; auto)+
      then show ?thesis using False unfolding addrs_middle h'(5) by blast
    qed
    moreover have "fresh w'" if "fresh w"
    proof -
      have "\<forall>x\<in>?D. x < ?b" using assms(4) by (auto simp: owned_def)
      then have "\<not> spilled (heap w' ! x)" if "x \<in> ?D" for x
        using that \<open>fresh w\<close> h'(2,4) assms(3) by (cases "x = a") (auto simp: fresh_def)
      then show ?thesis using h'(1) by (simp add: fresh_def h'(5))
    qed
    moreover have "balanced w' \<longleftrightarrow> balanced w"
    proof -
      have "unbalanced (heap w' ! x) = unbalanced (?h ! x)" if "x \<in> ?D" for x
        using that assms(4) h'(2) h'(4) [of x] by (cases "x = a") (auto simp: owned_def)
      moreover have "\<not> unbalanced (heap w' ! ?b)" unfolding h'(1) by (simp add: copyNode_def new_node_def)
      ultimately show ?thesis by (simp add: balanced_def h'(5))
    qed
    ultimately have "copies w ?t w' (Branch a (xs @ (k, readdr ?b c) # ys))"
      by (simp add: copies_def del: addrs.simps)
    then show ?thesis
      using run h'(5) by (intro exI [of _ "readdr ?b c"] exI [of _ w']) simp
  qed
qed


lemma pos_indices: "valid t p \<Longrightarrow> map eindex (rev (pos t p)) = map int p"
  by (induction t p rule: valid.induct) auto

lemma walk_indices:
  assumes "valid t p"
  shows "map eindex (rev (tl (pos t p))) = map int (butlast p)"
proof -
  have "map eindex (rev (tl (pos t p))) = butlast (map eindex (rev (pos t p)))"
    by (simp add: map_butlast [symmetric] butlast_rev)
  then show ?thesis by (simp add: pos_indices [OF assms] map_butlast)
qed

text \<open>
  Walking down a valid path: the nodes on it are copied, everything else in the heap is
  as before, and the tree is the same but for the addresses of the copies.
\<close>

lemma node_walk_spec:
  assumes "intree (heap w) (dirty w) t" and "distinct (addrs t)" and "valid t p"
    and "raddr t \<in> dirty w" and "owned w" and "map eindex refs = map int (butlast p)"
  shows "\<exists>t' w'. node_walk refs (raddr t) w = Inr (leaf_addr t' p, w') \<and> copies w t w' t'"
  using assms
proof (induction p arbitrary: t w refs)
  case (Cons i p)
  show ?case
  proof (cases t)
    case (Leaf a kvs)
    then have "p = []" "refs = []" using Cons.prems by auto
    then show ?thesis using Leaf Cons.prems copies_refl [OF Cons.prems(1,2)]
      by (intro exI [of _ t] exI [of _ w]) (auto simp: intree_def)
  next
    case (Branch a ets)
    have i: "i < length ets" and v: "valid (snd (ets ! i)) p" using Cons.prems(3) Branch by auto
    obtain xs k c ys where ets: "ets = xs @ (k, c) # ys" and li: "length xs = i"
      using id_take_nth_drop [OF i] i by (metis length_take min.absorb4 prod.collapse)
    have v: "valid c p" and pne: "p \<noteq> []" using v li ets by auto
    obtain ref refs' where refs: "refs = ref # refs'" "eindex ref = int i"
      "map eindex refs' = map int (butlast p)"
      using Cons.prems(6) pne by auto
    note t = Cons.prems(1,2) [unfolded Branch ets]
    obtain c1 w1 where c1: "childAt a (int i) w = Inr (raddr c1, w1)" "raddr c1 \<in> dirty w1"
      "copies w (Branch a (xs @ (k, c) # ys)) w1 (Branch a (xs @ (k, c1) # ys))"
      using childAt_spec [OF t] Cons.prems(4,5) Branch li by auto
    have ev: "owned w1" "evolves w w1"
      using childAt_step [OF c1(1)] Cons.prems(4,5) Branch by (auto simp: step_def)
    have t1: "intree (heap w1) (dirty w1) (Branch a (xs @ (k, c1) # ys))"
      "distinct (addrs (Branch a (xs @ (k, c1) # ys)))" "shape c1 = shape c"
      using c1(3) by (auto simp: copies_def simp del: addrs.simps)
    have ic: "intree (heap w1) (dirty w1) c1" "distinct (addrs c1)" "valid c1 p"
      using t1(1,2) v valid_shape t1(3) unfolding intree_Branch distinct_middle by (auto, metis)
    obtain c2 w2 where c2: "node_walk refs' (raddr c1) w1 = Inr (leaf_addr c2 p, w2)"
      "copies w1 c1 w2 c2"
      using Cons.IH [OF ic c1(2) ev(1) refs(3)] by auto
    have ev2: "evolves w1 w2" using node_walk_step [OF c2(1) c1(2)] ev(1) by (auto simp: step_def)
    have "copies w t w2 (Branch a (xs @ (k, c2) # ys))"
      unfolding Branch ets
      by (rule copies_trans [OF c1(3) copies_child [OF c2(2) ev2 t1(1,2)]])
        (use ev(2) in \<open>simp add: evolves_def\<close>)
    moreover have "leaf_addr (Branch a (xs @ (k, c2) # ys)) (i # p) = leaf_addr c2 p"
      unfolding li [symmetric] by simp
    moreover have "node_walk refs (raddr t) w = Inr (leaf_addr c2 p, w2)"
      using refs Branch c1(1) c2(1) Cons.prems(1) by (simp add: intree_def)
    ultimately show ?thesis by metis
  qed
qed simp


section \<open>The cursor's leaf for writing\<close>

lemma writableRoot_spec:
  assumes "winv w t"
  shows "\<exists>w' t'. writableRoot w = (raddr t', w') \<and> winv w' t' \<and> shape t' = shape t \<and>
           raddr t' \<in> dirty w' \<and> rootNode w' = Some (raddr t') \<and>
           set (addrs t') \<subseteq> set (addrs t) \<union> {length (heap w)..} \<and> (balanced w' \<longleftrightarrow> balanced w)"
proof (cases "rootNode w")
  case (Some r)
  then show ?thesis using assms
    by (intro exI [of _ w] exI [of _ t]) (auto simp: writableRoot_def winv_def rootView_def owned_def)
next
  case None
  let ?b = "length (heap w)" and ?n = "copyNode (self w) (heap w ! raddr t)"
  obtain bs where bs: "baseState w = Some bs" "root bs = Some (raddr t)"
    using assms None by (auto simp: winv_def rootView_def split: option.splits)
  have D: "dirty w = {}" and t: "intree (heap w) {} t" "btree t" "owned w"
    using assms None by (auto simp: winv_def)
  define w' where "w' = w\<lparr>heap := heap w @ [?n], dirty := {?b}, rootNode := Some ?b\<rparr>"
  have run: "writableRoot w = (?b, w')"
    using None bs D by (simp add: writableRoot_def alloc_dirty_def materialized_def w'_def)
  have lt: "b < ?b" if "b \<in> set (addrs t)" for b
    using repr_addrs that t(1) unfolding intree_def by blast
  have "intree (heap w') {?b} (readdr ?b t)"
  proof (rule intree_copy [OF t(1)])
    show "same_on (set (addrs t) - {raddr t}) (heap w) {} (heap w') {?b}"
      using lt by (auto simp: same_on_def w'_def nth_append)
  qed (use t(2) in \<open>auto simp: w'_def same_node_def copyNode_def new_node_def btree_def\<close>)
  moreover have "btree (readdr ?b t)"
  proof -
    have "ok [] None (readdr ?b t)" using t(2) ok_shape(1) shape_readdr by (metis btree_def)
    moreover have "distinct (addrs (readdr ?b t))"
      using t(2) lt by (cases t) (fastforce simp: btree_def)+
    ultimately show ?thesis by (simp add: btree_def)
  qed
  moreover have "owned w'" by (rule writableRoot_step(1) [OF run t(3)])
  ultimately have "winv w' (readdr ?b t)"
    by (cases t) (simp_all add: winv_def w'_def rootView_def nth_append fresh_def copyNode_def new_node_def)
  moreover have "set (addrs (readdr ?b t)) \<subseteq> set (addrs t) \<union> {?b..}" by (cases t) auto
  moreover have "balanced w' \<longleftrightarrow> balanced w" by (simp add: balanced_def w'_def D copyNode_def new_node_def)
  ultimately show ?thesis using run by (intro exI [of _ w'] exI [of _ "readdr ?b t"]) (simp add: w'_def)
qed

lemma copies_winv:
  assumes "copies w t w' t'" and "evolves w w'" and "owned w'" and "winv w t"
    and "rootNode w = Some (raddr t)"
  shows "winv w' t'"
proof -
  have "ok [] None t'" using assms(1,4) ok_shape(1) unfolding copies_def winv_def btree_def by metis
  moreover have "dirty w' \<subseteq> set (addrs t')"
    using assms(1,4) unfolding copies_def winv_def by blast
  ultimately show ?thesis using assms
    by (auto simp: copies_def winv_def btree_def rootView_def)
qed

lemma cursor_node_spec:
  assumes "winv w t" and "valid t p"
  shows "\<exists>w' t'. cursor_node (pos t p) w = Inr (leaf_addr t' p, w') \<and> winv w' t' \<and>
    shape t' = shape t \<and> rootNode w' \<noteq> None \<and> leaf_addr t' p \<in> dirty w' \<and>
    set (addrs t') \<subseteq> set (addrs t) \<union> {length (heap w)..} \<and> (balanced w' \<longleftrightarrow> balanced w)"
proof -
  obtain w1 t1 where r: "writableRoot w = (raddr t1, w1)" "winv w1 t1" "shape t1 = shape t"
    "raddr t1 \<in> dirty w1" "rootNode w1 = Some (raddr t1)"
    "set (addrs t1) \<subseteq> set (addrs t) \<union> {length (heap w)..}" "balanced w1 \<longleftrightarrow> balanced w"
    using writableRoot_spec [OF assms(1)] by auto
  have t1: "intree (heap w1) (dirty w1) t1" "distinct (addrs t1)" "owned w1" "valid t1 p"
    using r(2,3) assms(2) valid_shape by (auto simp: winv_def btree_def, metis)
  obtain t' w' where n: "node_walk (rev (tl (pos t p))) (raddr t1) w1 = Inr (leaf_addr t' p, w')"
    "copies w1 t1 w' t'"
    using node_walk_spec [OF t1(1,2,4) r(4) t1(3) walk_indices [OF assms(2)]] by auto
  have e: "owned w'" "evolves w1 w'" "leaf_addr t' p \<in> dirty w'"
    using node_walk_step [OF n(1) r(4)] t1(3) by (auto simp: step_def)
  have "pos t p \<noteq> []" using assms(2) by (induction t p rule: valid.induct) auto
  then have "cursor_node (pos t p) w = Inr (leaf_addr t' p, w')"
    using r(1) n(1) by (simp add: cursor_node_def)
  moreover have "length (heap w) \<le> length (heap w1)"
    using writableRoot_step(2) [OF r(1)] assms(1) by (simp add: winv_def evolves_def)
  then have "set (addrs t') \<subseteq> set (addrs t) \<union> {length (heap w)..}"
    using n(2) r(6) unfolding copies_def by fastforce
  ultimately show ?thesis
    using copies_winv [OF n(2) e(2,1) r(2,5)] n(2) r(3,5,7) e(3) by (auto simp: copies_def)
qed

text \<open>Writing the entries of the leaf a path leads to.\<close>

lemma leaf_addr_in: "valid t p \<Longrightarrow> leaf_addr t p \<in> set (addrs t)"
proof (induction t p rule: valid.induct)
  case (3 a ets i "is")
  then have "leaf_addr (snd (ets ! i)) is \<in> set (addrs (snd (ets ! i)))" "ets ! i \<in> set ets" by auto
  then show ?case using 3 by auto
qed auto

lemma repr_leaf: "repr h t \<Longrightarrow> valid t p \<Longrightarrow>
    isLeaf (h ! leaf_addr t p) \<and> list_all2 leaf_entry (inodes (h ! leaf_addr t p)) (leaf_kvs t p)"
proof (induction t p rule: valid.induct)
  case (3 a ets i "is")
  then show ?case using repr_child [OF "3.prems"(1)] by simp
qed auto

lemma intree_set_leaf:
  assumes "intree h D t" and "valid t p" and "distinct (addrs t)" and "isLeaf n"
    and "list_all2 leaf_entry (inodes n) kvs" and "nkey n = nkey (h ! leaf_addr t p)"
    and "parent n = parent (h ! leaf_addr t p)"
  shows "intree (h[leaf_addr t p := n]) D (set_leaf t p kvs)"
  using assms
proof (induction t p rule: valid.induct)
  case (2 a kvs i "is")
  then show ?case by (simp add: intree_def)
next
  case (3 a ets i "is")
  then have i: "i < length ets" and v: "valid (snd (ets ! i)) is" by auto
  obtain xs k c ys where ets: "ets = xs @ (k, c) # ys" and li: "length xs = i"
    using id_take_nth_drop [OF i] i by (metis length_take min.absorb4 prod.collapse)
  have nth: "ets ! i = (k, c)" using ets li by auto
  let ?l = "leaf_addr c is" and ?h = "h[leaf_addr c is := n]"
  note t = "3.prems"(1,3) [unfolded ets]
  have c: "intree h D c" "distinct (addrs c)" "valid c is"
    using t v nth unfolding intree_Branch distinct_middle by auto
  have l: "?l \<in> set (addrs c)" by (rule leaf_addr_in [OF c(3)])
  have n: "nkey n = nkey (h ! ?l)" "parent n = parent (h ! ?l)" using "3.prems"(6,7) i nth by auto
  have IH: "intree ?h D (set_leaf c is kvs)"
    using "3.IH" c "3.prems"(4,5) n nth by simp
  have upd: "nkey (?h ! b) = nkey (h ! b)" "parent (?h ! b) = parent (h ! b)" for b
    by (cases "b = ?l"; cases "?l < length h"; simp add: n list_update_beyond)+
  have off: "b \<noteq> ?l" if "b \<in> insert a (set (addrs_of xs) \<union> set (addrs_of ys))" for b
    using t(2) l that unfolding distinct_middle by blast
  have "intree ?h D (Branch a (xs @ (k, set_leaf c is kvs) # ys))"
  proof (rule intree_replace [OF t(1) IH raddr_set_leaf [OF c(3)] _ upd refl])
    show "same_on (insert a (set (addrs_of xs) \<union> set (addrs_of ys))) h D ?h D"
      unfolding same_on_def using off by (metis length_list_update nth_list_update_neq order_refl)
  qed
  then show ?case using i nth by (simp add: ets li [symmetric])
qed simp

lemma winv_set_leaf:
  assumes "winv w t" and "valid t p" and "isLeaf n" and "list_all2 leaf_entry (inodes n) kvs"
    and "nkey n = nkey (heap w ! leaf_addr t p)" and "parent n = parent (heap w ! leaf_addr t p)"
    and "bucket n = bucket (heap w ! leaf_addr t p)" and "ok [] None (set_leaf t p kvs)" and "leaf_addr t p \<in> dirty w" and "rootNode w \<noteq> None"
    and "spilled n = spilled (heap w ! leaf_addr t p)"
  shows "winv (upd_node (leaf_addr t p) (\<lambda>_. n) w) (set_leaf t p kvs)"
proof -
  let ?w = "upd_node (leaf_addr t p) (\<lambda>_. n) w"
  have w: "intree (heap w) (dirty w) t" "distinct (addrs t)" "owned w" "rootView w = Some (raddr t)"
    using assms(1) by (auto simp: winv_def btree_def)
  have "owned ?w" using step_upd_same_parent [of "leaf_addr t p" w "\<lambda>_. n"] assms(6,7,9) w(3)
    by (simp add: step_def)
  moreover have "intree (heap ?w) (dirty ?w) (set_leaf t p kvs)"
    using intree_set_leaf [OF w(1) assms(2) w(2) assms(3-6)] by (simp add: upd_node_def)
  moreover have "parent (heap ?w ! r) = None" if "rootNode w = Some r" for r
    using assms(1,6) that by (cases "r = leaf_addr t p"; cases "r < length (heap w)")
      (auto simp: upd_node_def winv_def list_update_beyond)
  moreover have "fresh ?w"
    using assms(1,9,11) by (auto simp: winv_def fresh_def upd_node_def owned_def nth_list_update)
  moreover have "dirty w \<subseteq> set (addrs t)" using assms(1) by (simp add: winv_def)
  ultimately show ?thesis
    using assms(8,10) w raddr_set_leaf [OF assms(2)] addrs_set_leaf [OF assms(2)]
    by (auto simp: winv_def btree_def upd_node_def rootView_def split: option.splits)
qed


section \<open>The bucket as an ordered store\<close>

text \<open>
  The contract of a key/value store: \<open>holds s kvs\<close> says that the state \<open>s\<close> holds exactly
  the pairs \<open>kvs\<close>, in ascending order of their keys.
\<close>

datatype write_op = Put bytes bytes | Del bytes

fun apply_write :: "write_op \<Rightarrow> kv list \<Rightarrow> kv list" where
  "apply_write (Put k v) kvs = alist_put k v kvs"
| "apply_write (Del k) kvs = alist_del k kvs"

fun write_ok :: "write_op \<Rightarrow> bool" where
  "write_ok (Put k v) \<longleftrightarrow> k \<noteq> [] \<and> length k \<le> MaxKeySize \<and> length v \<le> MaxValueSize"
| "write_ok (Del k) \<longleftrightarrow> True"

fun exec_all :: "(write_op \<Rightarrow> 's \<Rightarrow> (error option \<times> 's) res) \<Rightarrow> write_op list \<Rightarrow> 's \<Rightarrow>
    (error option \<times> 's) res" where
  "exec_all exec [] s = Inr (None, s)"
| "exec_all exec (a # as) s =
     rbind (exec a s) (\<lambda>(e, s). case e of None \<Rightarrow> exec_all exec as s | Some e \<Rightarrow> Inr (Some e, s))"

locale ordered_store =
  fixes get :: "bytes \<Rightarrow> 's \<Rightarrow> (bytes option \<times> 's) res"
    and exec :: "write_op \<Rightarrow> 's \<Rightarrow> (error option \<times> 's) res"
    and holds :: "'s \<Rightarrow> kv list \<Rightarrow> bool"
  assumes ordered: "holds s kvs \<Longrightarrow> ascending (map fst kvs)"
    and get_holds: "holds s kvs \<Longrightarrow> \<exists>s'. get k s = Inr (map_of kvs k, s') \<and> holds s' kvs"
    and exec_holds: "holds s kvs \<Longrightarrow> write_ok a \<Longrightarrow>
      \<exists>s'. exec a s = Inr (None, s') \<and> holds s' (apply_write a kvs)"
begin

lemma exec_all_holds:
  assumes "holds s kvs" and "\<forall>a\<in>set as. write_ok a"
  shows "\<exists>s'. exec_all exec as s = Inr (None, s') \<and> holds s' (fold apply_write as kvs)"
  using assms
proof (induction as arbitrary: s kvs)
  case (Cons a as)
  obtain s1 where s1: "exec a s = Inr (None, s1)" "holds s1 (apply_write a kvs)"
    using exec_holds [OF Cons.prems(1)] Cons.prems(2) by auto
  show ?case using Cons.IH [OF s1(2)] Cons.prems(2) s1(1) by auto
qed auto

text \<open>A value that was put is read back, until it is overwritten or deleted.\<close>

lemma get_after_put:
  assumes "holds s kvs" and "write_ok (Put k v)" and "exec (Put k v) s = Inr (None, s1)"
  shows "\<exists>s2. get k' s1 = Inr (if k' = k then Some v else map_of kvs k', s2)"
proof -
  have "holds s1 (alist_put k v kvs)"
    using exec_holds [OF assms(1,2)] assms(3) by simp
  then obtain s2 where "get k' s1 = Inr (map_of (alist_put k v kvs) k', s2)"
    using get_holds by blast
  then show ?thesis by (simp add: map_of_alist_put [OF ordered [OF assms(1)]])
qed

lemma get_after_del:
  assumes "holds s kvs" and "exec (Del k) s = Inr (None, s1)"
  shows "\<exists>s2. get k' s1 = Inr (if k' = k then None else map_of kvs k', s2)"
proof -
  have "holds s1 (alist_del k kvs)"
    using exec_holds [OF assms(1), of "Del k"] assms(2) by simp
  then obtain s2 where "get k' s1 = Inr (map_of (alist_del k kvs) k', s2)"
    using get_holds by blast
  then show ?thesis by (simp add: map_of_alist_del)
qed

text \<open>Putting an ascending list of pairs into an empty store gives exactly that list.\<close>

lemma put_all_holds:
  assumes "holds s []" and "ascending (map fst kvs)"
    and "\<forall>p\<in>set kvs. write_ok (Put (fst p) (snd p))"
  shows "\<exists>s'. exec_all exec (map (\<lambda>p. Put (fst p) (snd p)) kvs) s = Inr (None, s') \<and> holds s' kvs"
proof -
  have "fold apply_write (map (\<lambda>p. Put (fst p) (snd p)) kvs) xs = xs @ kvs"
    if "ascending (map fst (xs @ kvs))" for xs
    using that
  proof (induction kvs arbitrary: xs)
    case (Cons p kvs)
    have "alist_put (fst p) (snd p) (xs @ [] @ []) = xs @ alist_put (fst p) (snd p) [] @ []"
      by (rule alist_put_middle) (use Cons.prems in \<open>auto simp: ascending_append\<close>)
    then show ?case using Cons by (simp add: alist_put_def)
  qed simp
  from this [of "[]"] have
    "fold apply_write (map (\<lambda>p. Put (fst p) (snd p)) kvs) [] = kvs"
    using assms(2) by simp
  then show ?thesis
    using exec_all_holds [OF assms(1), of "map (\<lambda>p. Put (fst p) (snd p)) kvs"] assms(3) by auto
qed

end

section \<open>Reading, writing and deleting\<close>

lemma pos_inj:
  assumes "valid t p" and "valid t p'" and "pos t p = pos t p'"
  shows "p = p'"
proof -
  have "map int p = map eindex (rev (pos t p))" by (rule pos_indices [OF assms(1), symmetric])
  also have "\<dots> = map int p'" unfolding assms(3) by (rule pos_indices [OF assms(2)])
  finally show ?thesis by (rule map_injective) (rule inj_of_nat)
qed

lemma bucket_seek:
  assumes "winv w t"
  shows "\<exists>r p. cursor_seek (heap w) (rootView w) key = Inr (r, pos t p) \<and> valid t p \<and>
     kv_of r = cur t p \<and>
     (case map_of (items t) key of
        Some v \<Rightarrow> cur t p = Some (key, v) | None \<Rightarrow> \<forall>v. cur t p \<noteq> Some (key, v)) \<and>
     (\<forall>q\<in>set (pre_leaf t p). fst q < key) \<and> (\<forall>q\<in>set (post_leaf t p). key < fst q) \<and>
     (\<forall>kvs. ascending (map fst kvs) \<longrightarrow> fst ` set kvs \<subseteq> insert key (fst ` set (leaf_kvs t p)) \<longrightarrow>
        ok [] None (set_leaf t p kvs))"
proof -
  have w: "repr (heap w) t" "btree t" "rootView w = Some (raddr t)"
    using assms by (auto simp: winv_def intree_def)
  obtain r p where r: "cursor_seek (heap w) (rootView w) key = Inr (r, pos t p)" "valid t p"
    "kv_of r = cur t p" "case map_of (items t) key of
        Some v \<Rightarrow> cur t p = Some (key, v) | None \<Rightarrow> \<forall>v. cur t p \<noteq> Some (key, v)"
    unfolding w(3) using cursor_seek_spec [OF w(1,2), of key] by blast
  obtain p' where p': "search (dfuel (heap w)) (heap w) key (Some (raddr t)) [] = Inr (pos t p')"
     "valid t p'" "\<forall>q\<in>set (pre_leaf t p'). fst q < key" "\<forall>q\<in>set (post_leaf t p'). key < fst q"
     "\<forall>kvs. ascending (map fst kvs) \<longrightarrow> fst ` set kvs \<subseteq> insert key (fst ` set (leaf_kvs t p')) \<longrightarrow>
        ok [] None (set_leaf t p' kvs)"
    using search_path [OF w(1,2), of key] by blast
  have "p' = p" using r(1) p'(1) w(3) pos_inj [OF p'(2) r(2)] by (auto simp: cursor_seek_def)
  then show ?thesis using r p' by blast
qed

lemma item_key_eq: "key \<noteq> item_key r \<Longrightarrow> kv_of r \<noteq> Some (key, v)"
  "key = item_key r \<Longrightarrow> r = None \<or> (\<exists>v f. r = Some (key, v, f))"
  by (auto simp: item_key_def split: option.splits)

lemma winv_Cursor [simp]: "winv (bucket_Cursor w) t = winv w t"
  by (simp add: winv_def bucket_Cursor_def rootView_def owned_def fresh_def cong: option.case_cong)

lemma heap_bucket_Cursor [simp]: "heap (bucket_Cursor w) = heap w"
  by (simp add: bucket_Cursor_def)

lemma bucket_Get_spec:
  assumes "winv w t"
  shows "bucket_Get key w = Inr (map_of (items t) key, bucket_Cursor w)"
proof -
  let ?w = "bucket_Cursor w"
  obtain r p where r: "cursor_seek (heap ?w) (rootView ?w) key = Inr (r, pos t p)"
    "kv_of r = cur t p" "case map_of (items t) key of
        Some v \<Rightarrow> cur t p = Some (key, v) | None \<Rightarrow> \<forall>v. cur t p \<noteq> Some (key, v)"
    using bucket_seek [of ?w t key] assms by auto
  show ?thesis
  proof (cases "key = item_key r")
    case True
    have "map_of (items t) key = map_option (\<lambda>(k, v, f). v) r"
    proof (cases r)
      case None
      then show ?thesis using r(2,3) by (cases "map_of (items t) key") auto
    next
      case (Some x)
      then obtain v f where "r = Some (key, v, f)" using item_key_eq(2) [OF True] by auto
      moreover from this have "cur t p = Some (key, v)" using r(2) by simp
      ultimately show ?thesis using r(3) by (cases "map_of (items t) key") auto
    qed
    then show ?thesis using r(1) True by (simp add: bucket_Get_def Let_def)
  next
    case False
    then show ?thesis using item_key_eq(1) [OF False] r
      by (auto simp: bucket_Get_def Let_def split: option.splits)
  qed
qed

lemma leaf_order:
  assumes "winv w t" and "valid t p"
  shows "ascending (map fst (leaf_kvs t p))" and "ikeys (inodes (heap w ! leaf_addr t p)) = map fst (leaf_kvs t p)"
    and "list_all2 leaf_entry (inodes (heap w ! leaf_addr t p)) (leaf_kvs t p)"
    and "isLeaf (heap w ! leaf_addr t p)"
proof -
  have "ascending (map fst (items t))"
    using assms(1) ok_ascending by (auto simp: winv_def btree_def)
  then show "ascending (map fst (leaf_kvs t p))"
    using items_around [OF assms(2)] by (simp add: ascending_append)
  show l: "list_all2 leaf_entry (inodes (heap w ! leaf_addr t p)) (leaf_kvs t p)"
    "isLeaf (heap w ! leaf_addr t p)"
    using repr_leaf [OF _ assms(2)] assms(1) by (auto simp: winv_def intree_def)
  show "ikeys (inodes (heap w ! leaf_addr t p)) = map fst (leaf_kvs t p)"
    using l(1) by (auto simp: list_all2_conv_all_nth leaf_entry_def intro!: nth_equalityI)
qed

lemma leaf_entry_filter:
  assumes "list_all2 leaf_entry is kvs"
  shows "list_all2 leaf_entry (filter (\<lambda>i. P (ikey i)) is) (filter (\<lambda>q. P (fst q)) kvs)"
  using assms by (induction rule: list_all2_induct) (auto simp: leaf_entry_def)

lemma winv_put_leaf:
  assumes "winv w t" and "valid t p" and "leaf_addr t p \<in> dirty w" and "rootNode w \<noteq> None"
    and "key \<noteq> []" and "ok [] None (set_leaf t p (alist_put key v (leaf_kvs t p)))"
  shows "\<exists>nd. put key key v None 0 (heap w ! leaf_addr t p) = Inr nd \<and>
    winv (upd_node (leaf_addr t p) (\<lambda>_. nd) w) (set_leaf t p (alist_put key v (leaf_kvs t p)))"
proof -
  let ?n = "heap w ! leaf_addr t p"
  note l = leaf_order [OF assms(1,2)]
  let ?nd = "?n\<lparr>inodes := filter (\<lambda>i. ikey i < key) (inodes ?n) @
      \<lparr>iflags = 0, ikey = key, ivalue = v, ichild = None\<rparr> # filter (\<lambda>i. key < ikey i) (inodes ?n)\<rparr>"
  have "put key key v None 0 ?n = Inr ?nd"
    by (rule put_inodes) (use l assms(5) in simp_all)
  moreover have "list_all2 leaf_entry (inodes ?nd) (alist_put key v (leaf_kvs t p))"
    unfolding alist_put_filter [OF l(1)]
    using leaf_entry_filter [OF l(3), of "\<lambda>k. k < key"] leaf_entry_filter [OF l(3), of "\<lambda>k. key < k"]
    by (simp add: list_all2_appendI leaf_entry_def)
  ultimately show ?thesis
    using winv_set_leaf [OF assms(1,2), of ?nd "alist_put key v (leaf_kvs t p)"] l(4) assms(3,4,6)
    by auto
qed

lemma winv_del_leaf:
  assumes "winv w t" and "valid t p" and "leaf_addr t p \<in> dirty w" and "rootNode w \<noteq> None"
    and "ok [] None (set_leaf t p (alist_del key (leaf_kvs t p)))"
  shows "winv (upd_node (leaf_addr t p) (del key) w) (set_leaf t p (alist_del key (leaf_kvs t p)))"
proof -
  let ?n = "heap w ! leaf_addr t p"
  note l = leaf_order [OF assms(1,2)]
  have f: "inodes (del key ?n) = filter (\<lambda>i. ikey i \<noteq> key) (inodes ?n)"
    using del_inodes [of ?n key] l(1,2) by (auto simp: image_iff intro!: filter_True [symmetric])
  have "list_all2 leaf_entry (inodes (del key ?n)) (alist_del key (leaf_kvs t p))"
    unfolding f alist_del_def using leaf_entry_filter [OF l(3), of "\<lambda>k. k \<noteq> key"] by simp
  then have "winv (upd_node (leaf_addr t p) (\<lambda>_. del key ?n) w) (set_leaf t p (alist_del key (leaf_kvs t p)))"
    using winv_set_leaf [OF assms(1,2), of "del key ?n"] l(4) assms(3-5)
    by (simp add: del_def Let_def)
  then show ?thesis by (simp add: upd_node_def)
qed


lemma shape_facts:
  assumes "shape t' = shape t" and "valid t p"
  shows "valid t' p" and "leaf_kvs t' p = leaf_kvs t p"
    and "items (set_leaf t' p kvs) = items (set_leaf t p kvs)"
    and "ok lo hi (set_leaf t' p kvs) \<longleftrightarrow> ok lo hi (set_leaf t p kvs)"
    and "skel (set_leaf t' p kvs) = skel t"
proof -
  show v: "valid t' p" using assms valid_shape by metis
  show "leaf_kvs t' p = leaf_kvs t p" using assms v leaf_kvs_shape by metis
  have "shape (set_leaf t' p kvs) = shape (set_leaf t p kvs)"
    using set_leaf_shape [OF assms(2)] set_leaf_shape [OF v] assms(1) by simp
  then show "items (set_leaf t' p kvs) = items (set_leaf t p kvs)"
    "ok lo hi (set_leaf t' p kvs) \<longleftrightarrow> ok lo hi (set_leaf t p kvs)"
    using items_shape ok_shape(1) by metis+
  show "skel (set_leaf t' p kvs) = skel t"
    using skel_set_leaf [OF v] skel_shape assms(1) by metis
qed

text \<open>The leaf that holds the place of a key, with that key put or deleted.\<close>

lemma items_put_leaf:
  assumes "valid t p" and "\<forall>q\<in>set (pre_leaf t p). fst q < key" and "\<forall>q\<in>set (post_leaf t p). key < fst q"
  shows "items (set_leaf t p (alist_put key v (leaf_kvs t p))) = alist_put key v (items t)"
  using items_set_leaf [OF assms(1)] items_around [OF assms(1)] alist_put_middle [OF assms(2,3)] by simp

lemma items_del_leaf:
  assumes "valid t p" and "\<forall>q\<in>set (pre_leaf t p). fst q < key" and "\<forall>q\<in>set (post_leaf t p). key < fst q"
  shows "items (set_leaf t p (alist_del key (leaf_kvs t p))) = alist_del key (items t)"
proof -
  have "\<forall>q\<in>set (pre_leaf t p). fst q \<noteq> key" "\<forall>q\<in>set (post_leaf t p). fst q \<noteq> key"
    using assms(2,3) by fastforce+
  then show ?thesis
    using items_set_leaf [OF assms(1)] items_around [OF assms(1)]
      alist_del_middle [of "pre_leaf t p" key "post_leaf t p"] by simp
qed

lemma bucket_Put_spec:
  assumes "winv w t" and "tx_open w" and "tx_writable w" and "write_ok (Put key v)"
  shows "\<exists>w' t'. bucket_Put key v w = Inr (None, w') \<and> winv w' t' \<and>
           items t' = alist_put key v (items t) \<and> skel t' = skel t \<and>
           set (addrs t') \<subseteq> set (addrs t) \<union> {length (heap w)..}"
proof -
  let ?w = "bucket_Cursor w"
  have w: "winv ?w t" using assms(1) by simp
  obtain r p where r: "cursor_seek (heap ?w) (rootView ?w) key = Inr (r, pos t p)" "valid t p"
    "\<forall>q\<in>set (pre_leaf t p). fst q < key" "\<forall>q\<in>set (post_leaf t p). key < fst q"
    "\<forall>kvs. ascending (map fst kvs) \<longrightarrow> fst ` set kvs \<subseteq> insert key (fst ` set (leaf_kvs t p)) \<longrightarrow>
        ok [] None (set_leaf t p kvs)"
    using bucket_seek [OF w, of key] by blast
  obtain w1 t1 where n: "cursor_node (pos t p) ?w = Inr (leaf_addr t1 p, w1)" "winv w1 t1"
    "shape t1 = shape t" "rootNode w1 \<noteq> None" "leaf_addr t1 p \<in> dirty w1"
      "set (addrs t1) \<subseteq> set (addrs t) \<union> {length (heap ?w)..}"
    using cursor_node_spec [OF w r(2)] by blast
  note sh = shape_facts [OF n(3) r(2)]
  let ?kvs = "alist_put key v (leaf_kvs t p)"
  have asc: "ascending (map fst (leaf_kvs t p))" by (rule leaf_order(1) [OF w r(2)])
  have "ok [] None (set_leaf t p ?kvs)"
    using r(5) ascending_alist_put [OF asc] set_alist_put [OF asc] by simp
  then have o: "ok [] None (set_leaf t1 p (alist_put key v (leaf_kvs t1 p)))"
    unfolding sh(2) sh(4) .
  obtain nd where nd: "put key key v None 0 (heap w1 ! leaf_addr t1 p) = Inr nd"
    "winv (upd_node (leaf_addr t1 p) (\<lambda>_. nd) w1) (set_leaf t1 p (alist_put key v (leaf_kvs t1 p)))"
    using winv_put_leaf [OF n(2) sh(1) n(5,4) _ o] assms(4) by auto
  have "bucket_Put key v w = Inr (None, upd_node (leaf_addr t1 p) (\<lambda>_. nd) w1)"
    using assms(2-4) r(1) n(1) nd(1) by (simp add: bucket_Put_def Let_def)
  moreover have "items (set_leaf t1 p (alist_put key v (leaf_kvs t1 p))) = alist_put key v (items t)"
    unfolding sh(2) sh(3) by (rule items_put_leaf [OF r(2-4)])
  ultimately show ?thesis using nd(2) sh(5) n(6) addrs_set_leaf [OF sh(1)] unfolding heap_bucket_Cursor by metis
qed

lemma bucket_Delete_spec:
  assumes "winv w t" and "tx_open w" and "tx_writable w"
  shows "\<exists>w' t'. bucket_Delete key w = Inr (None, w') \<and> winv w' t' \<and>
           items t' = alist_del key (items t) \<and> skel t' = skel t \<and>
           set (addrs t') \<subseteq> set (addrs t) \<union> {length (heap w)..}"
proof -
  let ?w = "bucket_Cursor w"
  have w: "winv ?w t" using assms(1) by simp
  obtain r p where r: "cursor_seek (heap ?w) (rootView ?w) key = Inr (r, pos t p)" "valid t p"
    "kv_of r = cur t p" "case map_of (items t) key of
        Some v \<Rightarrow> cur t p = Some (key, v) | None \<Rightarrow> \<forall>v. cur t p \<noteq> Some (key, v)"
    "\<forall>q\<in>set (pre_leaf t p). fst q < key" "\<forall>q\<in>set (post_leaf t p). key < fst q"
    "\<forall>kvs. ascending (map fst kvs) \<longrightarrow> fst ` set kvs \<subseteq> insert key (fst ` set (leaf_kvs t p)) \<longrightarrow>
        ok [] None (set_leaf t p kvs)"
    using bucket_seek [OF w, of key] by blast
  show ?thesis
  proof (cases "key = item_key r")
    case False
    have "map_of (items t) key = None"
      using r(3,4) item_key_eq(1) [OF False] by (cases "map_of (items t) key") auto
    then have "alist_del key (items t) = items t"
      by (auto simp: alist_del_def map_of_eq_None_iff intro!: filter_True)
    moreover have "bucket_Delete key w = Inr (None, ?w)"
      using assms(2,3) r(1) False by (simp add: bucket_Delete_def Let_def)
    ultimately show ?thesis using w by auto
  next
    case True
    obtain w1 t1 where n: "cursor_node (pos t p) ?w = Inr (leaf_addr t1 p, w1)" "winv w1 t1"
      "shape t1 = shape t" "rootNode w1 \<noteq> None" "leaf_addr t1 p \<in> dirty w1"
      "set (addrs t1) \<subseteq> set (addrs t) \<union> {length (heap ?w)..}"
      using cursor_node_spec [OF w r(2)] by blast
    note sh = shape_facts [OF n(3) r(2)]
    have asc: "ascending (map fst (leaf_kvs t p))" by (rule leaf_order(1) [OF w r(2)])
    have "fst ` set (alist_del key (leaf_kvs t p)) \<subseteq> insert key (fst ` set (leaf_kvs t p))"
      by (auto simp: alist_del_def)
    then have o: "ok [] None (set_leaf t1 p (alist_del key (leaf_kvs t1 p)))"
      unfolding sh(2) sh(4) using r(7) ascending_alist_del [OF asc] by blast
    have "bucket_Delete key w = Inr (None, upd_node (leaf_addr t1 p) (del key) w1)"
      using assms(2,3) r(1) n(1) True by (simp add: bucket_Delete_def Let_def)
    moreover have "items (set_leaf t1 p (alist_del key (leaf_kvs t1 p))) = alist_del key (items t)"
      unfolding sh(2) sh(3) by (rule items_del_leaf [OF r(2,5,6)])
    ultimately show ?thesis
      using winv_del_leaf [OF n(2) sh(1) n(5,4) o] sh(5) n(6) addrs_set_leaf [OF sh(1)] unfolding heap_bucket_Cursor by metis
  qed
qed

text \<open>A bucket of an open write transaction is an ordered store.\<close>

fun bucket_exec :: "write_op \<Rightarrow> wst \<Rightarrow> (error option \<times> wst) res" where
  "bucket_exec (Put k v) w = bucket_Put k v w"
| "bucket_exec (Del k) w = bucket_Delete k w"

definition bucket_holds :: "tree \<Rightarrow> wst \<Rightarrow> kv list \<Rightarrow> bool" where
  "bucket_holds s w kvs \<longleftrightarrow>
     (\<exists>t. winv w t \<and> items t = kvs \<and> skel t = s) \<and> tx_open w \<and> tx_writable w"

lemma bucket_exec_step: "bucket_exec a w = Inr (e, w') \<Longrightarrow> step w w'"
  by (cases a) (auto dest: bucket_Put_step bucket_Delete_step)

lemma bucket_exec_spec:
  assumes "winv w t" and "tx_open w" and "tx_writable w" and "write_ok a"
  shows "\<exists>w' t'. bucket_exec a w = Inr (None, w') \<and> winv w' t' \<and>
           items t' = apply_write a (items t) \<and> skel t' = skel t \<and>
           set (addrs t') \<subseteq> set (addrs t) \<union> {length (heap w)..} \<and> evolves w w'"
proof -
  obtain w' t' where w': "bucket_exec a w = Inr (None, w')" "winv w' t'"
    "items t' = apply_write a (items t)" "skel t' = skel t"
    "set (addrs t') \<subseteq> set (addrs t) \<union> {length (heap w)..}"
  proof (cases a)
    case (Put k v)
    show ?thesis using bucket_Put_spec [OF assms(1-3) assms(4) [unfolded Put]] that unfolding Put
      by (metis apply_write.simps(1) bucket_exec.simps(1))
  next
    case (Del k)
    show ?thesis using bucket_Delete_spec [OF assms(1-3)] that unfolding Del
      by (metis apply_write.simps(2) bucket_exec.simps(2))
  qed
  moreover have "owned w" using assms(1) by (simp add: winv_def)
  ultimately show ?thesis using bucket_exec_step [OF w'(1)] unfolding step_def by blast
qed

lemma bucket_exec_holds:
  assumes "bucket_holds s w kvs" and "write_ok a"
  shows "\<exists>w'. bucket_exec a w = Inr (None, w') \<and> bucket_holds s w' (apply_write a kvs)"
proof -
  obtain t where t: "winv w t" "items t = kvs" "skel t = s" "tx_open w" "tx_writable w"
    using assms(1) by (auto simp: bucket_holds_def)
  obtain w' t' where w': "bucket_exec a w = Inr (None, w')" "winv w' t'"
    "items t' = apply_write a (items t)" "skel t' = skel t" "evolves w w'"
    using bucket_exec_spec [OF t(1,4,5) assms(2)] by blast
  then have "tx_open w'" "tx_writable w'" using t(4,5) by (simp_all add: evolves_def)
  then show ?thesis using w' t(2,3) by (auto simp: bucket_holds_def)
qed

lemma bucket_holds_Cursor [simp]: "bucket_holds s (bucket_Cursor w) kvs = bucket_holds s w kvs"
  by (simp add: bucket_holds_def) (simp add: bucket_Cursor_def)

interpretation bucket_store: ordered_store bucket_Get bucket_exec "bucket_holds s" for s
proof
  fix w kvs assume h: "bucket_holds s w kvs"
  then obtain t where t: "winv w t" "items t = kvs" "skel t = s" by (auto simp: bucket_holds_def)
  then show "ascending (map fst kvs)" using ok_ascending by (auto simp: winv_def btree_def)
  fix k show "\<exists>w'. bucket_Get k w = Inr (map_of kvs k, w') \<and> bucket_holds s w' kvs"
    using bucket_Get_spec [OF t(1)] t(2) h by auto
next
  fix w kvs a assume "bucket_holds s w kvs" "write_ok a"
  then show "\<exists>w'. bucket_exec a w = Inr (None, w') \<and> bucket_holds s w' (apply_write a kvs)"
    by (rule bucket_exec_holds)
qed


section \<open>Iterating over a bucket\<close>

text \<open>The pairs a bucket shows in an open transaction, whether it is writable or not.\<close>

definition bucket_view :: "wst \<Rightarrow> kv list \<Rightarrow> bool" where
  "bucket_view w kvs \<longleftrightarrow> tx_open w \<and>
     (\<exists>t. repr (heap w) t \<and> btree t \<and> rootView w = Some (raddr t) \<and> items t = kvs)"

text \<open>A cursor of the bucket with the pairs \<open>xs\<close> behind its position.\<close>

definition cursor_at :: "wst \<times> elemRef list \<Rightarrow> kv list \<Rightarrow> bool" where
  "cursor_at c xs \<longleftrightarrow> tx_open (fst c) \<and>
     (\<exists>t p. repr (heap (fst c)) t \<and> btree t \<and> valid t p \<and> snd c = pos t p \<and> after t p = xs)"

lemma bucket_holds_view: "bucket_holds s w kvs \<Longrightarrow> bucket_view w kvs"
  by (auto simp: bucket_holds_def bucket_view_def winv_def intree_def)

lemma tx_assert_open [simp]: "tx_open w \<Longrightarrow> tx_assert w m = m"
  by (simp add: tx_assert_def)

lemma btreeD: "btree t \<Longrightarrow> full t \<and> distinct (addrs t)"
  using ok_full(1) by (auto simp: btree_def)

interpretation bucket_iter: forward_iter step_First step_Next
  "\<lambda>c xs. bucket_view (fst c) xs" cursor_at
proof
  fix c :: "wst \<times> elemRef list" and xs
  obtain w st where c: "c = (w, st)" by fastforce
  assume "bucket_view (fst c) xs"
  then obtain t where t: "tx_open w" "repr (heap w) t" "btree t" "rootView w = Some (raddr t)" "items t = xs"
    using c by (auto simp: bucket_view_def)
  obtain r p where "cursor_first (heap w) (rootView w) = Inr (r, pos t p)" "valid t p"
      "case xs of [] \<Rightarrow> r = None \<and> after t p = []
       | x # xs \<Rightarrow> kv_of r = Some x \<and> cur t p = Some x \<and> after t p = xs"
    using cursor_first_spec [OF t(2)] btreeD [OF t(3)] t(4,5) by fastforce
  then show "\<exists>c'. step_First c = Inr (hd_opt xs, c') \<and> cursor_at c' (tl xs)"
    using t c by (cases xs) (auto simp: step_First_def cursor_First_def drop_flags_def cursor_at_def)
next
  fix c :: "wst \<times> elemRef list" and xs
  obtain w st where c: "c = (w, st)" by fastforce
  assume "cursor_at c xs"
  then obtain t p where t: "tx_open w" "repr (heap w) t" "btree t" "valid t p" "st = pos t p" "after t p = xs"
    using c by (auto simp: cursor_at_def)
  have b: "full t" "distinct (addrs t)" using btreeD [OF t(3)] by auto
  obtain r p' where "cursor_next (dfuel (heap w)) (heap w) (pos t p) = Inr (r, pos t p')" "valid t p'"
      "case xs of [] \<Rightarrow> r = None \<and> after t p' = []
       | x # xs \<Rightarrow> kv_of r = Some x \<and> cur t p' = Some x \<and> after t p' = xs"
    using cursor_next_spec [OF t(2) b(1) t(4) leaves_after_fuel [OF t(2) b t(4)]] t(6) by auto
  then show "\<exists>c'. step_Next c = Inr (hd_opt xs, c') \<and> cursor_at c' (tl xs)"
    using t c by (cases xs) (auto simp: step_Next_def cursor_Next_def drop_flags_def cursor_at_def)
qed

text \<open>The iteration fuel covers every pair of the tree.\<close>

lemma sum_list_flat: "sum_list (concat xss) = sum_list (map sum_list (xss :: nat list list))"
  by (induction xss) auto

lemma items_le_nodes:
  "repr h t \<Longrightarrow> length (items t) \<le> sum_list (map (\<lambda>a. length (inodes (h ! a))) (addrs t))"
proof (induction t)
  case (Leaf a kvs)
  then show ?case by (auto dest: list_all2_lengthD)
next
  case (Branch a ets)
  have "repr h (snd e)" if "e \<in> set ets" for e
    using Branch.prems that by (simp add: list_all_iff)
  then have "length (items_of ets) \<le>
      sum_list (map (\<lambda>e. sum_list (map (\<lambda>a. length (inodes (h ! a))) (addrs (snd e)))) ets)"
    unfolding length_concat map_map comp_def
    by (intro sum_list_mono) (metis Branch.IH prod.collapse)
  then show ?case by (simp add: map_concat sum_list_flat comp_def)
qed

lemma items_le_heap:
  assumes "repr h t" and "distinct (addrs t)"
  shows "length (items t) < ifuel h"
proof -
  let ?f = "\<lambda>a. length (inodes (h ! a))"
  have "sum_list (map ?f (addrs t)) = sum ?f (set (addrs t))"
    by (rule sum_list_distinct_conv_sum_set [OF assms(2)])
  also have "\<dots> \<le> sum ?f {0..<length h}"
    using repr_addrs [OF assms(1)] by (intro sum_mono2) auto
  also have "\<dots> = sum_list (map (\<lambda>n. length (inodes n)) h)"
    by (simp add: sum_list_sum_nth)
  finally show ?thesis using items_le_nodes [OF assms(1)] by (simp add: ifuel_def)
qed

lemma bucket_ForEach_spec:
  assumes "bucket_view w kvs"
  shows "bucket_ForEach fn s w = Inr (each fn kvs s, bucket_Cursor w)"
proof -
  let ?w = "bucket_Cursor w"
  have v: "bucket_view (fst (?w, [] :: elemRef list)) kvs"
    using assms by (simp add: bucket_view_def rootView_def bucket_Cursor_def cong: option.case_cong)
  have len: "length kvs < ifuel (heap ?w)"
    using v items_le_heap btreeD by (auto simp: bucket_view_def)
  show ?thesis
    using bucket_iter.traversal [OF v len, of fn s] assms
    by (simp add: bucket_ForEach_def Let_def bucket_view_def)
qed

section \<open>Walking all nodes\<close>

fun nodes_of :: "nat \<Rightarrow> tree \<Rightarrow> (addr \<times> nat) list" where
  "nodes_of d (Leaf a kvs) = [(a, d)]"
| "nodes_of d (Branch a ets) = (a, d) # concat (map (\<lambda>e. nodes_of (Suc d) (snd e)) ets)"

lemma forEachNodeDFS_spec:
  assumes "repr h t" and "height t \<le> f"
  shows "forEachNodeDFS f h fn d (Some (raddr t)) s = Inr (fold (\<lambda>(a, d). fn (h ! a) d) (nodes_of d t) s)"
  using assms
proof (induction t arbitrary: f d s)
  case (Leaf a kvs)
  then show ?case by (cases f) (auto simp: Let_def)
next
  case (Branch a ets)
  then obtain f' where f: "f = Suc f'" by (cases f) auto
  have children: "forEachNodeDFS_children f' h fn d' is s =
      Inr (fold (\<lambda>(a, d). fn (h ! a) d) (concat (map (\<lambda>e. nodes_of d' (snd e)) es)) s)"
    if "list_all2 branch_entry is es" "set es \<subseteq> set ets" for d' "is" es s
    using that
  proof (induction "is" es arbitrary: s rule: list_all2_induct)
    case (Cons i "is" e es)
    obtain k c where e: "e = (k, c)" by fastforce
    have kc: "(k, c) \<in> set ets" using Cons.prems e by simp
    have "repr h c" "height c \<le> f'"
      using Branch.prems kc f child_height [OF kc, of a] by (force simp: list_all_iff)+
    then show ?case
      using Branch.IH [OF kc, of f' d' s] Cons e by (simp add: branch_entry_def)
  qed simp
  have "list_all2 branch_entry (inodes (h ! a)) ets" "\<not> isLeaf (h ! a)"
    using Branch.prems(1) by auto
  then show ?case using children [of "inodes (h ! a)" ets] f by (simp add: Let_def)
qed

lemma length_items_nodes:
  "repr h t \<Longrightarrow> length (items t) =
     sum_list (map (\<lambda>(a, d). if isLeaf (h ! a) then length (inodes (h ! a)) else 0) (nodes_of d t))"
proof (induction t arbitrary: d)
  case (Leaf a kvs)
  then show ?case by (auto dest: list_all2_lengthD)
next
  case (Branch a ets)
  let ?g = "\<lambda>(a, d). if isLeaf (h ! a) then length (inodes (h ! a)) else 0"
  have "length (items (snd e)) = sum_list (map ?g (nodes_of (Suc d) (snd e)))" if "e \<in> set ets" for e
  proof (rule Branch.IH)
    show "(fst e, snd e) \<in> set ets" using that by simp
    show "repr h (snd e)" using Branch.prems that by (simp add: list_all_iff)
  qed
  then have "map (\<lambda>e. length (items (snd e))) ets =
      map (\<lambda>e. sum_list (map ?g (nodes_of (Suc d) (snd e)))) ets"
    by (rule map_cong [OF refl])
  then have "length (items_of ets) = sum_list (map (\<lambda>e. sum_list (map ?g (nodes_of (Suc d) (snd e)))) ets)"
    unfolding length_concat map_map comp_def by (rule arg_cong)
  moreover have "\<not> isLeaf (h ! a)" using Branch.prems by simp
  ultimately show ?case
    by (simp only: items.simps nodes_of.simps list.map prod.case if_False sum_list.Cons add_0
        map_concat sum_list_flat map_map comp_def)
qed

lemma KeyN_fold:
  "KeyN (fold (\<lambda>(a, d). stats_visit (h ! a) d) xs s) =
     KeyN s + sum_list (map (\<lambda>(a, d). if isLeaf (h ! a) then length (inodes (h ! a)) else 0) xs)"
  by (induction xs arbitrary: s) (auto simp: stats_visit_def Let_def)

lemma Depth_fold:
  "Depth (fold (\<lambda>(a, d). stats_visit (h ! a) d) xs s) = fold max (map (\<lambda>(a, d). Suc d) xs) (Depth s)"
  by (induction xs arbitrary: s) (auto simp: stats_visit_def Let_def max_def)

lemma fold_max_concat:
  "fold max (concat xss) (a::nat) = fold max (map (\<lambda>xs. fold max xs 0) xss) a"
proof (induction xss arbitrary: a)
  case (Cons xs xss)
  have "fold max xs b = max b (fold max xs 0)" for b :: nat
  proof (induction xs arbitrary: b)
    case (Cons x xs)
    have "fold max (x # xs) b = max (max x b) (fold max xs 0)" using Cons.IH [of "max x b"] by simp
    also have "\<dots> = max b (max x (fold max xs 0))" by (simp add: max.left_commute)
    also have "\<dots> = max b (fold max (x # xs) 0)" using Cons.IH [of x] by simp
    finally show ?case .
  qed simp
  from this [of a] show ?case using Cons [of "max (fold max xs 0) a"] by (simp add: max.commute)
qed simp

lemma depth_nodes_of: "fold max (map (\<lambda>(a, d). Suc d) (nodes_of d t)) 0 = d + height t"
proof (induction t arbitrary: d)
  case (Branch a ets)
  have m: "fold max (map (\<lambda>x. Suc d + f x) xs) (Suc d) = Suc d + fold max (map f xs) 0"
    for f :: "bytes \<times> tree \<Rightarrow> nat" and xs
  proof -
    have "fold max (map (\<lambda>x. Suc d + f x) xs) (Suc d + b) = Suc d + fold max (map f xs) b" for b
      by (induction xs arbitrary: b) (auto simp: max_def)
    from this [of 0] show ?thesis by simp
  qed
  have "map (\<lambda>e. fold max (map (\<lambda>(a, d). Suc d) (nodes_of (Suc d) (snd e))) 0) ets =
      map (\<lambda>e. Suc d + height (snd e)) ets"
    by (intro map_cong [OF refl]) (metis Branch.IH prod.collapse)
  then have "fold max (map (\<lambda>e. fold max (map (\<lambda>(a, d). Suc d) (nodes_of (Suc d) (snd e))) 0) ets) (Suc d) =
      Suc d + fold max (map (\<lambda>e. height (snd e)) ets) 0"
    using m [of "\<lambda>e. height (snd e)" ets] by (simp only:)
  then show ?case by (simp add: map_concat fold_max_concat comp_def)
qed simp

lemma forEachNode_spec:
  assumes "repr (heap w) t" and "rootView w = Some (raddr t)"
  shows "forEachNode fn w s = Inr (fold (\<lambda>(a, d). fn (heap w ! a) d) (nodes_of 0 t) s)"
proof -
  have "height t \<le> dfuel (heap w)" using height_le_heap [OF assms(1)] by (simp add: dfuel_def)
  then show ?thesis
    using forEachNodeDFS_spec [OF assms(1)] assms(2) by (simp add: forEachNode_def)
qed


section \<open>Properties\<close>

text \<open>
  An example bucket: an open write transaction on a bucket whose published root is an empty leaf.
\<close>

definition example_wst :: wst where
  "example_wst = \<lparr>name = [98], rootNode = None, dirty = {}, FillPercent = DefaultFillPercent,
     self = 0, tx_open = True, tx_writable = True, baseState = Some \<lparr>root = Some 0\<rparr>,
     heap = [new_node\<lparr>isLeaf := True\<rparr>], stats = TxStats_zero\<rparr>"

lemma example_winv: "winv example_wst (Leaf 0 [])"
  by (simp add: example_wst_def winv_def intree_def btree_def rootView_def owned_def fresh_def new_node_def)

lemma example_holds: "bucket_holds (Leaf 0 []) example_wst []"
  unfolding bucket_holds_def using example_winv by (force simp: example_wst_def)

text \<open>
  C3: any sequence of \<open>Put\<close> and \<open>Delete\<close> calls with admissible keys and values on a
  bucket of an open write transaction succeeds, and a following \<open>Get\<close> returns what the
  same sequence of updates gives on the ordered list of pairs the bucket held before.
\<close>

theorem bucket_writes_then_get:
  assumes "bucket_holds s w kvs" and "\<forall>a\<in>set as. write_ok a"
  shows "\<exists>w' w''. exec_all bucket_exec as w = Inr (None, w') \<and>
    bucket_Get k w' = Inr (map_of (fold apply_write as kvs) k, w'')"
  using bucket_store.exec_all_holds [OF assms] bucket_store.get_holds by blast

theorem bucket_writes_then_get_witness:
  "\<exists>w' w''. exec_all bucket_exec [Put [1] [7], Put [2] [8], Del [1]] example_wst = Inr (None, w') \<and>
    bucket_Get [2] w' = Inr (Some [8], w'')"
  using bucket_writes_then_get [OF example_holds, of "[Put [1] [7], Put [2] [8], Del [1]]" "[2]"]
  by (simp add: MaxKeySize_def MaxValueSize_def alist_put_def alist_del_def)

text \<open>
  A second example: a bucket whose published tree is a branch over two leaves.
\<close>

definition example_tree :: tree where
  "example_tree = Branch 2 [([1], Leaf 0 [([1], [7]), ([3], [8])]), ([5], Leaf 1 [([5], [9])])]"

definition example_tree_wst :: wst where
  "example_tree_wst = example_wst\<lparr>baseState := Some \<lparr>root = Some 2\<rparr>, heap :=
     [new_node\<lparr>isLeaf := True, nkey := [1], inodes :=
        [\<lparr>iflags = 0, ikey = [1], ivalue = [7], ichild = None\<rparr>, \<lparr>iflags = 0, ikey = [3], ivalue = [8], ichild = None\<rparr>]\<rparr>,
      new_node\<lparr>isLeaf := True, nkey := [5], inodes := [\<lparr>iflags = 0, ikey = [5], ivalue = [9], ichild = None\<rparr>]\<rparr>,
      new_node\<lparr>inodes := [\<lparr>iflags = 0, ikey = [1], ivalue = [], ichild = Some 0\<rparr>,
                          \<lparr>iflags = 0, ikey = [5], ivalue = [], ichild = Some 1\<rparr>]\<rparr>]\<rparr>"

lemma example_tree_winv: "winv example_tree_wst example_tree"
  by (simp add: example_tree_wst_def example_tree_def example_wst_def winv_def intree_def btree_def rootView_def
      owned_def fresh_def new_node_def leaf_entry_def branch_entry_def wchild_def)

lemma example_tree_view: "bucket_view example_tree_wst [([1], [7]), ([3], [8]), ([5], [9])]"
  unfolding bucket_view_def using example_tree_winv
  by (intro conjI exI [of _ example_tree])
     (auto simp: winv_def intree_def example_tree_def example_tree_wst_def example_wst_def)

text \<open>
  C23: \<open>Put\<close> never panics on a bucket with a well-formed tree. It succeeds exactly when the
  transaction is open and writable, the key is not empty and key and value respect their
  limits; otherwise it returns an error and changes nothing.
\<close>

theorem bucket_Put_total:
  assumes "winv w t"
  shows "\<exists>e w'. bucket_Put k v w = Inr (e, w') \<and>
     (e = None \<longleftrightarrow> tx_open w \<and> tx_writable w \<and> k \<noteq> [] \<and> length k \<le> MaxKeySize \<and> length v \<le> MaxValueSize) \<and>
     (e \<noteq> None \<longrightarrow> w' = w)"
proof (cases "tx_open w \<and> tx_writable w \<and> write_ok (Put k v)")
  case True
  then show ?thesis using bucket_Put_spec [OF assms, of k v] by auto
next
  case False
  then show ?thesis by (auto simp: bucket_Put_def)
qed

theorem bucket_Put_total_witness:
  "\<exists>e w'. bucket_Put [] [4] example_tree_wst = Inr (e, w') \<and> e \<noteq> None \<and> w' = example_tree_wst"
  using bucket_Put_total [OF example_tree_winv, of "[]" "[4]"] by auto

lemma example_put:
  "\<exists>w'. bucket_exec (Put [2] [4]) example_tree_wst = Inr (None, w')"
  using bucket_Put_spec [OF example_tree_winv, of "[2]" "[4]"]
  by (auto simp: example_tree_wst_def example_wst_def MaxKeySize_def MaxValueSize_def)

text \<open>
  C15: a \<open>Put\<close> or \<open>Delete\<close> leaves every tree made of nodes the transaction does not own
  exactly as it was: readers of a published state never see a write.
\<close>

theorem bucket_writes_keep_snapshots:
  assumes "owned w" and "bucket_exec a w = Inr (e, w')" and "repr (heap w) t" and "set (addrs t) \<inter> dirty w = {}"
  shows "repr (heap w') t \<and> set (addrs t) \<inter> dirty w' = {}"
proof -
  have ev: "evolves w w'" using bucket_exec_step [OF assms(2)] assms(1) by (simp add: step_def)
  have "heap w' ! b = heap w ! b" "b \<notin> dirty w'" if "b \<in> set (addrs t)" for b
    using ev that repr_addrs [OF assms(3) that] assms(4) evolves_dirty [OF ev, of b] by (auto simp: evolves_def)
  moreover have "length (heap w) \<le> length (heap w')" using ev by (simp add: evolves_def)
  ultimately show ?thesis
    by (intro conjI repr_agree [OF assms(3)]) (auto simp: agree_def)
qed

theorem bucket_writes_keep_snapshots_witness:
  "\<exists>w'. bucket_exec (Put [2] [4]) example_tree_wst = Inr (None, w') \<and> repr (heap w') example_tree"
proof -
  obtain w' where w: "bucket_exec (Put [2] [4]) example_tree_wst = Inr (None, w')" using example_put ..
  have "owned example_tree_wst" "repr (heap example_tree_wst) example_tree" "dirty example_tree_wst = {}"
    using example_tree_winv by (auto simp: winv_def intree_def example_tree_wst_def example_wst_def)
  then show ?thesis using bucket_writes_keep_snapshots [OF _ w] w by auto
qed

text \<open>
  C19: \<open>ForEach\<close> calls its function once for every pair, in ascending order of the keys,
  stops at the first error and returns it.
\<close>

theorem bucket_ForEach_in_order:
  assumes "bucket_view w kvs"
  shows "ascending (map fst kvs) \<and> bucket_ForEach fn s w = Inr (each fn kvs s, bucket_Cursor w)"
proof -
  have "ascending (map fst kvs)" using assms ok_ascending by (auto simp: bucket_view_def btree_def)
  then show ?thesis using bucket_ForEach_spec [OF assms] by simp
qed

theorem bucket_ForEach_in_order_witness:
  "bucket_ForEach (\<lambda>p ks. (None, ks @ [fst p])) [] example_tree_wst =
     Inr ((None, [[1], [3], [5]]), bucket_Cursor example_tree_wst)"
  using bucket_ForEach_in_order [OF example_tree_view, of "\<lambda>p ks. (None, ks @ [fst p])" "[]"] by simp

text \<open>
  A scan from a key: \<open>Seek\<close> and then \<open>Next\<close> until the cursor is exhausted.
\<close>

definition step_Seek :: "bytes \<Rightarrow> wst \<times> elemRef list \<Rightarrow> (kv option \<times> (wst \<times> elemRef list)) res" where
  "step_Seek k c = (case c of (w, st) \<Rightarrow> rbind (cursor_Seek w k) (\<lambda>(x, st). Inr (x, (w, st))))"

interpretation bucket_range: forward_iter "step_Seek k" step_Next
  "\<lambda>c xs. \<exists>kvs. bucket_view (fst c) kvs \<and> xs = filter (\<lambda>p. k \<le> fst p) kvs" cursor_at for k
proof
  fix c :: "wst \<times> elemRef list" and xs
  assume "\<exists>kvs. bucket_view (fst c) kvs \<and> xs = filter (\<lambda>p. k \<le> fst p) kvs"
  then obtain t where t: "repr (heap (fst c)) t" "btree t" "rootView (fst c) = Some (raddr t)" "tx_open (fst c)"
    and xs: "xs = filter (\<lambda>p. k \<le> fst p) (items t)"
    by (auto simp: bucket_view_def)
  obtain r p where rp: "cursor_Seek_tree (heap (fst c)) (Some (raddr t)) k = Inr (r, pos t p)" "valid t p"
    and r: "case xs of [] \<Rightarrow> r = None \<and> after t p = []
            | x # xs \<Rightarrow> kv_of r = Some x \<and> cur t p = Some x \<and> after t p = xs"
    using cursor_Seek_spec [OF t(1,2), of k] xs by blast
  have "kv_of r = hd_opt xs" "after t p = tl xs" using r by (cases xs; simp)+
  then have "step_Seek k c = Inr (hd_opt xs, (fst c, pos t p))"
    using rp t by (cases c) (simp add: step_Seek_def cursor_Seek_def drop_flags_def)
  moreover have "cursor_at (fst c, pos t p) (tl xs)"
    unfolding cursor_at_def using t rp \<open>after t p = tl xs\<close> by auto
  ultimately show "\<exists>c'. step_Seek k c = Inr (hd_opt xs, c') \<and> cursor_at c' (tl xs)" by blast
qed (rule bucket_iter.nxt_here)

text \<open>
  C18: positioning a cursor with \<open>Seek\<close> and then calling \<open>Next\<close> yields exactly the pairs
  whose keys are at least the key sought, in ascending order.
\<close>

theorem bucket_range_scan:
  assumes "bucket_view w kvs" and "length kvs < fuel"
  shows "rbind (step_Seek k (w, [])) (\<lambda>(x, c). iter_loop fuel step_Next fn x c s) =
     Inr (each fn (filter (\<lambda>p. k \<le> fst p) kvs) s)"
proof (rule bucket_range.traversal)
  show "\<exists>kvs'. bucket_view (fst (w, [])) kvs' \<and> filter (\<lambda>p. k \<le> fst p) kvs = filter (\<lambda>p. k \<le> fst p) kvs'"
    using assms(1) by auto
  show "length (filter (\<lambda>p. k \<le> fst p) kvs) < fuel" using assms(2) length_filter_le le_less_trans by blast
qed

theorem bucket_range_scan_witness:
  "rbind (step_Seek [2] (example_tree_wst, [])) (\<lambda>(x, c). iter_loop 4 step_Next (\<lambda>p ks. (None, ks @ [fst p])) x c []) =
     Inr (None, [[3], [5]])"
  using bucket_range_scan [OF example_tree_view, of 4 "[2]" "\<lambda>p ks. (None, ks @ [fst p])" "[]"] by simp

text \<open>
  C24: \<open>Bucket.Stats\<close> reports the number of pairs and the height of the tree.
\<close>

theorem bucket_Stats_counts:
  assumes "bucket_view w kvs"
  shows "\<exists>st t. bucket_Stats w = Inr st \<and> KeyN st = length kvs \<and> Depth st = height t \<and>
     rootView w = Some (raddr t) \<and> repr (heap w) t"
proof -
  obtain t where t: "repr (heap w) t" "rootView w = Some (raddr t)" "items t = kvs"
    using assms by (auto simp: bucket_view_def)
  let ?st = "fold (\<lambda>(a, d). stats_visit (heap w ! a) d) (nodes_of 0 t) BucketStats_zero"
  have "bucket_Stats w = Inr ?st" unfolding bucket_Stats_def by (rule forEachNode_spec [OF t(1,2)])
  moreover have "KeyN ?st = length kvs"
    using length_items_nodes [OF t(1), of 0] t(3) by (simp add: KeyN_fold BucketStats_zero_def)
  moreover have "Depth ?st = height t"
    using depth_nodes_of [of 0 t] by (simp add: Depth_fold BucketStats_zero_def)
  ultimately show ?thesis using t by blast
qed

theorem bucket_Stats_counts_witness:
  "\<exists>st. bucket_Stats example_tree_wst = Inr st \<and> KeyN st = 3"
  using bucket_Stats_counts [OF example_tree_view] by auto

lemma ok_set_leaf_subset:
  assumes "ok lo hi t" and "valid t p" and "ascending (map fst kvs)" and "fst ` set kvs \<subseteq> fst ` set (leaf_kvs t p)"
  shows "ok lo hi (set_leaf t p kvs)"
  using assms
proof (induction t arbitrary: p lo hi)
  case (Leaf a kvs0)
  then obtain i where "p = [i]" by (cases p) auto
  with Leaf show ?case by (force simp: list_all_iff)
next
  case (Branch a ets)
  then obtain i "is" where p: "p = i # is" and i: "i < length ets" "valid (snd (ets ! i)) is" by (cases p) auto
  obtain k c where kc: "ets ! i = (k, c)" by fastforce
  have split: "ets = take i ets @ (k, c) # drop (Suc i) ets" using i kc by (metis id_take_nth_drop)
  have okc: "ok (lo_of (take i ets) lo k) (hi_of (drop (Suc i) ets) hi) c"
    using Branch.prems(1) split ok_child by metis
  have "ok (lo_of (take i ets) lo k) (hi_of (drop (Suc i) ets) hi) (set_leaf c is kvs)"
    using Branch.IH [of k c] okc Branch.prems i kc p by (auto simp: nth_mem dest: nth_mem)
  then have "oks lo hi (take i ets @ (k, set_leaf c is kvs) # drop (Suc i) ets)"
    using Branch.prems(1) split oks_replace by (metis ok.simps(2))
  then show ?case using p i kc Branch.prems(1) by (simp add: upd_conv_take_nth_drop)
qed

text \<open>
  C17: \<open>Cursor.Delete\<close> after a \<open>Seek\<close> that found a pair removes exactly that pair.
\<close>

theorem cursor_Delete_removes:
  assumes "winv w t" and "tx_open w" and "tx_writable w" and "cursor_Seek w k = Inr (Some (k', v), st)"
  shows "\<exists>w' t'. cursor_Delete st w = Inr (None, w') \<and> winv w' t' \<and> items t' = alist_del k' (items t)"
proof -
  have rep: "repr (heap w) t" "btree t" "rootView w = Some (raddr t)"
    using assms(1) by (auto simp: winv_def intree_def)
  obtain r p where rp: "cursor_Seek_tree (heap w) (Some (raddr t)) k = Inr (r, pos t p)" and vp: "valid t p"
    and r: "case filter (\<lambda>q. k \<le> fst q) (items t) of
          [] \<Rightarrow> r = None \<and> after t p = []
        | x # xs \<Rightarrow> kv_of r = Some x \<and> cur t p = Some x \<and> after t p = xs"
    using cursor_Seek_spec [OF rep(1,2), of k] by blast
  have "kv_of r = Some (k', v)" and st: "st = pos t p"
    using assms(2,4) rp rep(3) by (simp_all add: cursor_Seek_def drop_flags_def)
  then have cur: "cur t p = Some (k', v)"
    using r by (auto split: list.splits)
  obtain r' where kv: "keyValue (heap w) (pos t p) = Inr r'" "kv_of r' = Some (k', v)"
    using top_of_pos(3) [OF rep(1) vp, of "[]"] cur by auto
  obtain w1 t1 where cn: "cursor_node (pos t p) w = Inr (leaf_addr t1 p, w1)" "winv w1 t1" "shape t1 = shape t"
    "rootNode w1 \<noteq> None" "leaf_addr t1 p \<in> dirty w1"
    using cursor_node_spec [OF assms(1) vp] by blast
  have sf: "valid t1 p" "leaf_kvs t1 p = leaf_kvs t p" using shape_facts [OF cn(3) vp] by auto
  have asc: "ascending (map fst (items t))" using rep(2) ok_ascending by (auto simp: btree_def)
  have leaf_asc: "ascending (map fst (leaf_kvs t p))"
    using asc items_around [OF vp] by (simp add: ascending_append)
  have "ok [] None t1" using cn(2) by (simp add: winv_def btree_def)
  moreover have "fst ` set (alist_del k' (leaf_kvs t1 p)) \<subseteq> fst ` set (leaf_kvs t1 p)"
    unfolding alist_del_def by auto
  ultimately have "ok [] None (set_leaf t1 p (alist_del k' (leaf_kvs t1 p)))"
    using leaf_asc sf by (intro ok_set_leaf_subset ascending_alist_del) simp_all
  then have "winv (upd_node (leaf_addr t1 p) (del k') w1) (set_leaf t1 p (alist_del k' (leaf_kvs t1 p)))"
    by (rule winv_del_leaf [OF cn(2) sf(1) cn(5,4)])
  moreover have "items (set_leaf t1 p (alist_del k' (leaf_kvs t1 p))) = alist_del k' (items t)"
  proof -
    have "(k', v) \<in> set (leaf_kvs t p)"
      using cur cur_around [OF vp] by (simp split: if_splits) (metis nth_mem)
    then have mem: "k' \<in> set (map fst (leaf_kvs t p))" by force
    have "items (set_leaf t1 p (alist_del k' (leaf_kvs t1 p))) = pre_leaf t p @ alist_del k' (leaf_kvs t p) @ post_leaf t p"
      using shape_facts(3) [OF cn(3) vp] items_set_leaf [OF vp] sf(2) by simp
    moreover have "ascending (map fst (pre_leaf t p) @ map fst (leaf_kvs t p) @ map fst (post_leaf t p))"
      using asc items_around [OF vp] by simp
    then have "\<forall>q\<in>set (pre_leaf t p). fst q \<noteq> k'" "\<forall>q\<in>set (post_leaf t p). fst q \<noteq> k'"
      using mem unfolding ascending_append by force+
    ultimately show ?thesis
      using alist_del_middle [of "pre_leaf t p" k' "post_leaf t p"] items_around [OF vp] by simp
  qed
  moreover have "cursor_Delete st w = Inr (None, upd_node (leaf_addr t1 p) (del k') w1)"
    using assms(2,3) kv cn(1) by (simp add: cursor_Delete_def st Let_def)
  ultimately show ?thesis by blast
qed

theorem cursor_Delete_removes_witness:
  "\<exists>st w' t'. cursor_Seek example_tree_wst [2] = Inr (Some ([3], [8]), st) \<and>
     cursor_Delete st example_tree_wst = Inr (None, w') \<and> winv w' t' \<and> items t' = [([1], [7]), ([5], [9])]"
proof -
  have s: "cursor_Seek example_tree_wst [2] =
      Inr (Some ([3], [8]), [\<lparr>enode = 0, eindex = 1\<rparr>, \<lparr>enode = 2, eindex = 0\<rparr>])"
    by code_simp
  have "tx_open example_tree_wst" "tx_writable example_tree_wst" by (simp_all add: example_tree_wst_def example_wst_def)
  from cursor_Delete_removes [OF example_tree_winv this s] s show ?thesis
    by (auto simp: example_tree_def alist_del_def)
qed

end
