(* ===== verification/Vm_Commit.thy ===== *)
theory Vm_Commit
  imports Vm_Bucket
begin

text \<open>
  What a commit does to one bucket (\<open>node.go\<close>, \<open>bucket.go\<close>): merging underfull nodes
  (\<open>rebalance\<close>), splitting oversize nodes and wiring them into their parents
  (\<open>finalize\<close>), and publishing the root.

  Both recursions climb to the parent, and \<open>finalize\<close> also descends, so they carry fuel.
  \<open>Bucket.rebalance\<close> ranges over a Go map: the order of the iteration is a parameter.
  A slice is modelled by its value. The one place where two nodes share a backing array is
  the collapse of the root in \<open>rebalance\<close>, where the other node leaves the tree.
\<close>

section \<open>Parents and siblings\<close>

fun node_root :: "nat \<Rightarrow> heap \<Rightarrow> addr \<Rightarrow> addr res" where
  "node_root 0 h n = Inl OutOfFuel"
| "node_root (Suc f) h n = (case parent (h ! n) of None \<Rightarrow> Inr n | Some p \<Rightarrow> node_root f h p)"

definition nextSibling :: "addr \<Rightarrow> wst \<Rightarrow> (addr option \<times> wst) res" where
  "nextSibling n w =
     (case parent (heap w ! n) of
        None \<Rightarrow> Inr (None, w)
      | Some p \<Rightarrow>
          let index = int (childIndex (heap w ! p) (heap w ! n))
          in if int (numChildren (heap w ! p)) - 1 \<le> index then Inr (None, w)
             else rbind (childAt p (index + 1) w) (\<lambda>(c, w). Inr (Some c, w)))"

definition prevSibling :: "addr \<Rightarrow> wst \<Rightarrow> (addr option \<times> wst) res" where
  "prevSibling n w =
     (case parent (heap w ! n) of
        None \<Rightarrow> Inr (None, w)
      | Some p \<Rightarrow>
          let index = int (childIndex (heap w ! p) (heap w ! n))
          in if index = 0 then Inr (None, w)
             else rbind (childAt p (index - 1) w) (\<lambda>(c, w). Inr (Some c, w)))"

section \<open>Rebalancing\<close>

text \<open>\<open>for _, inode := range inodes { inode.child.parent = n }\<close>, for the dirty children.\<close>

fun reparent :: "addr \<Rightarrow> inode list \<Rightarrow> wst \<Rightarrow> wst" where
  "reparent n [] w = w"
| "reparent n (i # is) w =
     reparent n is
       (case ichild i of
          None \<Rightarrow> w
        | Some c \<Rightarrow> if c \<in> dirty w then upd_node c (\<lambda>x. x\<lparr>parent := Some n\<rparr>) w else w)"

text \<open>The special handling of the root: a branch with a single entry takes its child's place.\<close>

definition collapse_root :: "addr \<Rightarrow> wst \<Rightarrow> wst res" where
  "collapse_root n w =
     (if \<not> isLeaf (heap w ! n) \<and> length (inodes (heap w ! n)) = 1 then
        rbind (childAt n 0 w)
          (\<lambda>(child, w).
             let w = upd_node n (\<lambda>x. x\<lparr>isLeaf := isLeaf (heap w ! child),
                                        inodes := inodes (heap w ! child)\<rparr>) w;
                 w = reparent n (inodes (heap w ! n)) w
             in Inr (upd_node child (\<lambda>x. x\<lparr>parent := None\<rparr>) w))
      else Inr w)"

definition nil_deref :: "'a res" where
  "nil_deref = Inl (Panic ''nil pointer dereference'')"

text \<open>The two nodes to merge: with the right sibling at index 0, otherwise with the left one.\<close>

definition merge_pair :: "addr \<Rightarrow> addr \<Rightarrow> wst \<Rightarrow> (addr option \<times> addr option \<times> wst) res" where
  "merge_pair p n w =
     (if childIndex (heap w ! p) (heap w ! n) = 0
      then rbind (nextSibling n w) (\<lambda>(r, w). Inr (Some n, r, w))
      else rbind (prevSibling n w) (\<lambda>(l, w). Inr (l, Some n, w)))"

definition merge_into :: "addr \<Rightarrow> addr \<Rightarrow> wst \<Rightarrow> wst" where
  "merge_into l r w =
     (let w = reparent l (inodes (heap w ! r)) w
      in upd_node l (\<lambda>x. x\<lparr>inodes := inodes x @ inodes (heap w ! r)\<rparr>) w)"

text \<open>A node that is above the merge threshold and has enough keys is left alone.\<close>

definition filled :: "node \<Rightarrow> bool" where
  "filled n \<longleftrightarrow> defaultMinNodeMergeBytes < node_size n \<and> minKeys n < length (inodes n)"

fun rebalance :: "nat \<Rightarrow> addr \<Rightarrow> wst \<Rightarrow> wst res" where
  "rebalance 0 n w = Inl OutOfFuel"
| "rebalance (Suc f) n w =
     (if \<not> unbalanced (heap w ! n) then Inr w
      else
        let w = upd_node n (\<lambda>x. x\<lparr>unbalanced := False\<rparr>) w;
            w = w\<lparr>stats := IncRebalance 1 (stats w)\<rparr>;
            nd = heap w ! n
        in if filled nd then Inr w
           else
             (case parent nd of
                None \<Rightarrow> collapse_root n w
              | Some p \<Rightarrow>
                  if numChildren nd = 0 then rebalance f p (upd_node p (del (nkey nd)) w)
                  else if \<not> 1 < numChildren (heap w ! p)
                  then Inl (Panic ''assertion failed: parent must have at least 2 children'')
                  else
                    rbind (merge_pair p n w)
                      (\<lambda>(l, r, w).
                         case r of None \<Rightarrow> nil_deref
                         | Some r \<Rightarrow>
                             (case l of None \<Rightarrow> nil_deref
                              | Some l \<Rightarrow>
                                  let w = merge_into l r w
                                  in (case parent (heap w ! n) of None \<Rightarrow> nil_deref
                                      | Some p \<Rightarrow>
                                          rebalance f p (upd_node p (del (nkey (heap w ! r))) w))))))"

text \<open>\<open>Bucket.rebalance\<close>, visiting the dirty nodes in the order \<open>ord\<close>.\<close>

fun bucket_rebalance :: "addr list \<Rightarrow> wst \<Rightarrow> wst res" where
  "bucket_rebalance [] w = Inr w"
| "bucket_rebalance (n # ord) w = rbind (rebalance (dfuel (heap w)) n w) (bucket_rebalance ord)"

section \<open>Splitting and wiring\<close>

text \<open>One node of the loop over the split parts in \<open>finalize\<close>.\<close>

definition finalize_key :: "node \<Rightarrow> bytes res" where
  "finalize_key nd =
     rbind (if length (nkey nd) = 0
            then if length (inodes nd) = 0 then Inl (Panic ''finalize: node has no inodes'')
                 else Inr (ikey (inodes nd ! 0))
            else Inr (nkey nd))
       (\<lambda>key. if length key = 0 then Inl (Panic ''finalize: zero-length key'') else Inr key)"

definition finalize_node :: "addr \<Rightarrow> wst \<Rightarrow> wst res" where
  "finalize_node n w =
     (let w = upd_node n (\<lambda>x. x\<lparr>spilled := True\<rparr>) w; nd = heap w ! n
      in rbind
           (case parent nd of
              None \<Rightarrow> Inr w
            | Some p \<Rightarrow>
                rbind (finalize_key nd)
                  (\<lambda>key. rbind (slice_index (inodes nd) 0)
                     (\<lambda>i0. rbind (put key (ikey i0) [] (Some n) 0 (heap w ! p))
                        (\<lambda>pn.
                           let w = upd_node p (\<lambda>_. pn) w;
                               w = upd_node n (\<lambda>x. x\<lparr>nkey := ikey i0\<rparr>) w
                           in if 0 < length (nkey (heap w ! n)) then Inr w
                              else Inl (Panic ''assertion failed: finalize: zero-length node key'')))))
           (\<lambda>w. Inr (w\<lparr>stats := IncSpill 1 (stats w)\<rparr>)))"

fun finalize_nodes :: "addr list \<Rightarrow> wst \<Rightarrow> wst res" where
  "finalize_nodes [] w = Inr w"
| "finalize_nodes (n # ns) w = rbind (finalize_node n w) (finalize_nodes ns)"

text \<open>
  \<open>for i := range n.inodes\<close> evaluates the length once, before the loop, while the body
  reads the current \<open>n.inodes[i]\<close>, which the nested calls may have changed.
\<close>

function finalize :: "nat \<Rightarrow> addr \<Rightarrow> wst \<Rightarrow> wst res"
  and finalize_children :: "nat \<Rightarrow> addr \<Rightarrow> nat \<Rightarrow> nat \<Rightarrow> wst \<Rightarrow> wst res" where
  "finalize 0 n w = Inl OutOfFuel"
| "finalize (Suc f) n w =
     (if spilled (heap w ! n) then Inr w
      else
        rbind (finalize_children f n (length (inodes (heap w ! n))) 0 w)
          (\<lambda>w. case split n w of (nodes, w) \<Rightarrow>
             rbind (finalize_nodes nodes w)
               (\<lambda>w. case parent (heap w ! n) of
                      None \<Rightarrow> Inr w
                    | Some p \<Rightarrow> if spilled (heap w ! p) then Inr w else finalize f p w)))"
| "finalize_children f n len i w =
     (if i < len then
        rbind (slice_index (inodes (heap w ! n)) (int i))
          (\<lambda>e. rbind (case ichild e of
                        None \<Rightarrow> Inr w
                      | Some c \<Rightarrow> if c \<in> dirty w then finalize f c w else Inr w)
                 (\<lambda>w. finalize_children f n len (Suc i) w))
      else Inr w)"
  by pat_completeness auto
termination
  by (relation "measures [\<lambda>x. case x of Inl (f, n, w) \<Rightarrow> f | Inr (f, n, len, i, w) \<Rightarrow> f,
        \<lambda>x. case x of Inl (f, n, w) \<Rightarrow> 0 | Inr (f, n, len, i, w) \<Rightarrow> Suc (len - i)]") auto

text \<open>Nested calls of \<open>finalize\<close> alternate between a node and its parent; each ends by marking a node.\<close>

definition ffuel :: "wst \<Rightarrow> nat" where
  "ffuel w = 4 * length (heap w) + 4 * sum_list (map (\<lambda>n. length (inodes n)) (heap w)) + 4"

definition bucket_spill :: "wst \<Rightarrow> wst res" where
  "bucket_spill w =
     (case rootNode w of
        None \<Rightarrow> Inr w
      | Some r \<Rightarrow>
          rbind (finalize (ffuel w) r w)
            (\<lambda>w. rbind (node_root (dfuel (heap w)) (heap w) r)
               (\<lambda>r. Inr (w\<lparr>rootNode := Some r\<rparr>))))"

section \<open>Publishing\<close>

definition detach_node :: "node \<Rightarrow> node" where
  "detach_node n = n\<lparr>bucket := None, parent := None\<rparr>"

definition detachPublishedNodes :: "wst \<Rightarrow> wst" where
  "detachPublishedNodes w =
     w\<lparr>heap := map (\<lambda>a. if a \<in> dirty w then detach_node (heap w ! a) else heap w ! a)
                  [0..<length (heap w)],
       rootNode := None, dirty := {}\<rparr>"

definition publishRoot :: "wst \<Rightarrow> bucketState option \<times> wst" where
  "publishRoot w =
     (case rootNode w of
        None \<Rightarrow> (baseState w, w)
      | Some r \<Rightarrow> (Some \<lparr>root = Some r\<rparr>, detachPublishedNodes w))"

section \<open>Commit changes only nodes of the transaction\<close>

lemma sibling_step:
  assumes "n \<in> dirty w" and "owned w"
  shows "nextSibling n w = Inr (c, w') \<Longrightarrow> owned w' \<and> evolves w w' \<and> (\<forall>x. c = Some x \<longrightarrow> x \<in> dirty w')"
    and "prevSibling n w = Inr (c, w') \<Longrightarrow> owned w' \<and> evolves w w' \<and> (\<forall>x. c = Some x \<longrightarrow> x \<in> dirty w')"
proof -
  have p: "p \<in> dirty w" if "parent (heap w ! n) = Some p" for p
    using assms that by (auto simp: owned_def)
  have *: "owned w1 \<and> evolves w w1 \<and> x \<in> dirty w1"
    if "parent (heap w ! n) = Some p" "childAt p i w = Inr (x, w1)" for p i x w1
    using childAt_step [OF that(2) p [OF that(1)]] assms(2) by (auto simp: step_def)
  show "nextSibling n w = Inr (c, w') \<Longrightarrow> owned w' \<and> evolves w w' \<and> (\<forall>x. c = Some x \<longrightarrow> x \<in> dirty w')"
    using * assms(2) by (auto simp: nextSibling_def Let_def split: option.splits if_splits)
  show "prevSibling n w = Inr (c, w') \<Longrightarrow> owned w' \<and> evolves w w' \<and> (\<forall>x. c = Some x \<longrightarrow> x \<in> dirty w')"
    using * assms(2) by (auto simp: prevSibling_def Let_def split: option.splits if_splits)
qed


lemma step_dirty: "step w w' \<Longrightarrow> owned w \<Longrightarrow> dirty w \<subseteq> dirty w'"
  by (simp add: step_def evolves_def)

lemma evolves_dirtyD: "evolves w w' \<Longrightarrow> a \<in> dirty w \<Longrightarrow> a \<in> dirty w'"
  by (auto simp: evolves_def)

lemma dirty_upd_node [simp]: "dirty (upd_node a f w) = dirty w"
  by (simp add: upd_node_def)

lemma reparent_step: "n \<in> dirty w \<Longrightarrow> step w (reparent n is w) \<and> dirty (reparent n is w) = dirty w"
proof (induction n "is" w rule: reparent.induct)
  case (2 n i "is" w)
  show ?case
  proof (cases "\<exists>c. ichild i = Some c \<and> c \<in> dirty w")
    case True
    then obtain c where c: "ichild i = Some c" "c \<in> dirty w" by blast
    let ?w = "upd_node c (\<lambda>x. x\<lparr>parent := Some n\<rparr>) w"
    have "step w ?w" by (rule step_upd_node) (use c "2.prems" in auto)
    moreover have "step ?w (reparent n is ?w) \<and> dirty (reparent n is ?w) = dirty ?w"
      using 2 c by simp
    ultimately show ?thesis using c step_trans by auto
  next
    case False
    then have "reparent n (i # is) w = reparent n is w" by (auto split: option.splits)
    then show ?thesis using 2 False by (auto split: option.splits)
  qed
qed simp

lemma collapse_root_step:
  assumes "collapse_root n w = Inr w'" and "n \<in> dirty w"
  shows "step w w'"
proof (cases "\<not> isLeaf (heap w ! n) \<and> length (inodes (heap w ! n)) = 1")
  case True
  then obtain c w1 where c: "childAt n 0 w = Inr (c, w1)" using assms(1)
    by (auto simp: collapse_root_def)
  define w2 where "w2 = upd_node n (\<lambda>x. x\<lparr>isLeaf := isLeaf (heap w1 ! c), inodes := inodes (heap w1 ! c)\<rparr>) w1"
  define w3 where "w3 = reparent n (inodes (heap w2 ! n)) w2"
  have w': "w' = upd_node c (\<lambda>x. x\<lparr>parent := None\<rparr>) w3"
    using assms(1) True c by (simp add: collapse_root_def Let_def w2_def w3_def)
  have s1: "step w w1" "c \<in> dirty w1" "n \<in> dirty w1" using childAt_step [OF c assms(2)] assms(2) by auto
  have "step w1 w2" unfolding w2_def by (rule step_upd_same_parent) (use s1 in auto)
  moreover have s3: "step w2 w3" "dirty w3 = dirty w2"
    using reparent_step [of n w2] s1 by (auto simp: w3_def w2_def)
  moreover have "step w3 w'" unfolding w'
    by (rule step_upd_node) (use s1 s3 in \<open>auto simp: w2_def\<close>)
  ultimately show ?thesis using s1(1) step_trans by blast
qed (use assms in \<open>auto simp: collapse_root_def\<close>)

lemma merge_pair_step:
  assumes "merge_pair p n w = Inr (l, r, w')" and "n \<in> dirty w" and "owned w"
  shows "owned w' \<and> evolves w w' \<and> (\<forall>x. l = Some x \<longrightarrow> x \<in> dirty w') \<and> (\<forall>x. r = Some x \<longrightarrow> x \<in> dirty w')"
proof -
  have d: "n \<in> dirty w'" if "evolves w w'" for w' using that assms(2) by (auto simp: evolves_def)
  show ?thesis
    using assms sibling_step [OF assms(2,3)] d by (fastforce simp: merge_pair_def split: if_splits)
qed

lemma merge_into_step: "l \<in> dirty w \<Longrightarrow> step w (merge_into l r w) \<and> dirty (merge_into l r w) = dirty w"
proof -
  assume l: "l \<in> dirty w"
  let ?w = "reparent l (inodes (heap w ! r)) w"
  have "step w ?w" "dirty ?w = dirty w" using reparent_step [OF l] by auto
  moreover have "step ?w (merge_into l r w)"
    unfolding merge_into_def Let_def by (rule step_upd_same_parent) (use l calculation in auto)
  ultimately show ?thesis using step_trans by (auto simp: merge_into_def Let_def)
qed

lemma upd_del_step: "p \<in> dirty w \<Longrightarrow> step w (upd_node p (del k) w)"
  by (rule step_upd_same_parent) auto

lemma owned_parent: "owned w \<Longrightarrow> n \<in> dirty w \<Longrightarrow> parent (heap w ! n) = Some p \<Longrightarrow> p \<in> dirty w"
  by (auto simp: owned_def)

lemma rebalance_step:
  assumes "rebalance f n w = Inr w'" and "n \<in> dirty w" and "owned w"
  shows "owned w' \<and> evolves w w'"
  using assms
proof (induction f n w arbitrary: w' rule: rebalance.induct)
  case (2 f n w)
  show ?case
  proof (cases "unbalanced (heap w ! n)")
    case True
    define w1 where "w1 = (upd_node n (\<lambda>x. x\<lparr>unbalanced := False\<rparr>) w)\<lparr>stats := IncRebalance 1
        (stats (upd_node n (\<lambda>x. x\<lparr>unbalanced := False\<rparr>) w))\<rparr>"
    let ?nd = "heap w1 ! n"
    have s1: "step w w1" unfolding w1_def
      by (rule step_trans [OF step_upd_same_parent step_stats]) (use "2.prems" in auto)
    have o1: "owned w1" "evolves w w1" "n \<in> dirty w1"
      using s1 "2.prems" by (auto simp: step_def w1_def)
    note unf = True "2.prems"(1) [unfolded rebalance.simps Let_def w1_def [symmetric]]
    show ?thesis
    proof (cases "filled ?nd")
      case True
      then show ?thesis using unf o1 by simp
    next
      case under: False
      show ?thesis
      proof (cases "parent ?nd")
        case None
        then have "collapse_root n w1 = Inr w'" using unf under by auto
        then show ?thesis using collapse_root_step o1 evolves_trans by (auto simp: step_def)
      next
        case (Some p)
        have p: "p \<in> dirty w1" by (rule owned_parent [OF o1(1,3) Some])
        show ?thesis
        proof (cases "numChildren ?nd = 0")
          case True
          let ?w2 = "upd_node p (del (nkey ?nd)) w1"
          have "rebalance f p ?w2 = Inr w'" using unf under Some True by auto
          moreover have "owned ?w2" "evolves w1 ?w2"
            using upd_del_step [OF p] o1 by (auto simp: step_def)
          ultimately have "owned w' \<and> evolves ?w2 w'"
            using "2.IH"(1) [OF _ refl refl refl] unf(1) under Some True p
            by (simp add: w1_def [symmetric])
          then show ?thesis using o1 \<open>evolves w1 ?w2\<close> evolves_trans by blast
        next
          case False
          obtain l r w2 p' where m: "merge_pair p n w1 = Inr (Some l, Some r, w2)"
            "parent (heap (merge_into l r w2) ! n) = Some p'"
            "rebalance f p' (upd_node p' (del (nkey (heap (merge_into l r w2) ! r))) (merge_into l r w2)) = Inr w'"
            "1 < numChildren (heap w1 ! p)"
            using unf under Some False
            by (auto simp: nil_deref_def split: if_splits option.splits)
          let ?w3 = "merge_into l r w2"
          let ?w4 = "upd_node p' (del (nkey (heap ?w3 ! r))) ?w3"
          have o2: "owned w2" "evolves w1 w2" "l \<in> dirty w2"
            using merge_pair_step [OF m(1) o1(3,1)] by auto
          have o3: "owned ?w3" "evolves w2 ?w3" "n \<in> dirty ?w3"
            using merge_into_step [OF o2(3), of r] o2 o1(3) by (auto simp: step_def evolves_def)
          have p': "p' \<in> dirty ?w3" by (rule owned_parent [OF o3(1,3) m(2)])
          have o4: "owned ?w4" "evolves ?w3 ?w4"
            using upd_del_step [OF p'] o3 by (auto simp: step_def)
          have "owned w' \<and> evolves ?w4 w'"
            using "2.IH"(2) [OF _ refl refl refl] unf(1) under Some False m p' o4(1)
            by (simp add: w1_def [symmetric])
          then show ?thesis using o1(2) o2(2) o3(2) o4(2) evolves_trans by blast
        qed
      qed
    qed
  qed (use "2.prems" in simp)
qed simp


lemma bucket_rebalance_step:
  assumes "bucket_rebalance ord w = Inr w'" and "set ord \<subseteq> dirty w" and "owned w"
  shows "owned w' \<and> evolves w w'"
  using assms
proof (induction ord arbitrary: w)
  case (Cons n ord)
  then obtain w1 where w1: "rebalance (dfuel (heap w)) n w = Inr w1" "bucket_rebalance ord w1 = Inr w'"
    by auto
  have o: "owned w1" "evolves w w1" using rebalance_step [OF w1(1)] Cons.prems by auto
  then have "set ord \<subseteq> dirty w1" using Cons.prems by (auto simp: evolves_def)
  then show ?case using Cons.IH [OF w1(2)] o evolves_trans by blast
qed simp

text \<open>The parts are small enough: the minimum number of entries, or within the size limit.\<close>

definition fits :: "node \<Rightarrow> bool" where
  "fits n \<longleftrightarrow> length (inodes n) \<le> 2 * minKeys n \<or> node_size n \<le> defaultMaxNodeSizeBytes"

text \<open>
  The parent a split node needs, and the split itself: the node keeps the front of its
  entries and a new node takes the rest.
\<close>

lemma splitTwo_cases:
  assumes "splitTwo n w = (b, w')"
  obtains "b = None" "w' = w" "fits (heap w ! n)"
  | p w1 r si where "b = Some r" "2 * minKeys (heap w ! n) < length (inodes (heap w ! n))"
      "defaultMaxNodeSizeBytes \<le> node_size (heap w ! n)"
      "si = fst (splitIndex (split_threshold (FillPercent w)) (heap w ! n))"
      "if parent (heap w ! n) = None
       then p = length (heap w) \<and> w1 = upd_node n (\<lambda>x. x\<lparr>parent := Some p\<rparr>)
              (snd (alloc_dirty (new_node\<lparr>bucket := bucket (heap w ! n)\<rparr>) w))
       else parent (heap w ! n) = Some p \<and> w1 = w"
      "r = length (heap w1)"
      "w' = (upd_node r (\<lambda>x. x\<lparr>inodes := drop si (inodes (heap w ! n))\<rparr>)
              (upd_node n (\<lambda>x. x\<lparr>inodes := take si (inodes (heap w ! n))\<rparr>)
                (snd (alloc_dirty (new_node\<lparr>bucket := bucket (heap w ! n), isLeaf := isLeaf (heap w ! n),
                   parent := parent (heap w1 ! n)\<rparr>) w1))))\<lparr>stats := IncSplit 1 (stats w)\<rparr>"
proof (cases "length (inodes (heap w ! n)) \<le> minKeys (heap w ! n) * 2 \<or>
    sizeLessThan (heap w ! n) defaultMaxNodeSizeBytes")
  case True
  then have "fits (heap w ! n)" by (auto simp: fits_def sizeLessThan_eq)
  then show ?thesis using True assms that(1) by (simp add: splitTwo_def)
next
  case False
  let ?nd = "heap w ! n"
  have c: "2 * minKeys ?nd < length (inodes ?nd)" "defaultMaxNodeSizeBytes \<le> node_size ?nd"
    using False by (auto simp: sizeLessThan_eq)
  let ?p = "case parent ?nd of None \<Rightarrow> length (heap w) | Some p \<Rightarrow> p"
  let ?w1 = "case parent ?nd of
       None \<Rightarrow> upd_node n (\<lambda>x. x\<lparr>parent := Some (length (heap w))\<rparr>)
                (snd (alloc_dirty (new_node\<lparr>bucket := bucket ?nd\<rparr>) w))
     | Some p \<Rightarrow> w"
  show ?thesis
    by (rule that(2) [OF _ c refl, of "length (heap ?w1)" ?p ?w1])
      (use assms False in \<open>auto simp: splitTwo_def Let_def alloc_dirty_def upd_node_def split: option.splits\<close>)
qed

lemma splitTwo_step:
  assumes "splitTwo n w = (b, w')" and "n \<in> dirty w" and "owned w"
  shows "owned w' \<and> evolves w w' \<and> (\<forall>r. b = Some r \<longrightarrow> r \<in> dirty w')"
proof -
  have nb: "bucket (heap w ! n) = Some (self w)" using assms(2,3) by (auto simp: owned_def)
  show ?thesis using assms(1)
  proof (cases rule: splitTwo_cases)
    case (2 p w1 r si)
    let ?new = "new_node\<lparr>bucket := bucket (heap w ! n), isLeaf := isLeaf (heap w ! n),
                   parent := parent (heap w1 ! n)\<rparr>"
    have s1: "step w w1 \<and> dirty w \<subseteq> dirty w1 \<and> self w1 = self w"
    proof (cases "parent (heap w ! n)")
      case None
      let ?w0 = "snd (alloc_dirty (new_node\<lparr>bucket := bucket (heap w ! n)\<rparr>) w)"
      have a: "alloc_dirty (new_node\<lparr>bucket := bucket (heap w ! n)\<rparr>) w = (p, ?w0)"
        using 2(5) None by (simp add: alloc_dirty_def)
      have "step w ?w0" "p \<in> dirty ?w0" "dirty w \<subseteq> dirty ?w0"
        using step_alloc [OF a] nb by (auto simp: new_node_def)
      moreover have "step ?w0 (upd_node n (\<lambda>x. x\<lparr>parent := Some p\<rparr>) ?w0)"
        by (rule step_upd_node) (use calculation assms(2) in auto)
      ultimately show ?thesis
        using 2(5) None step_trans by (auto simp: upd_node_def alloc_dirty_def)
    qed (use 2(5) in auto)
    have o1: "owned w1" "evolves w w1" "n \<in> dirty w1" using s1 assms by (auto simp: step_def)
    let ?w2 = "snd (alloc_dirty ?new w1)"
    have a: "alloc_dirty ?new w1 = (r, ?w2)" using 2(6) by (simp add: alloc_dirty_def)
    have s2: "step w1 ?w2" "r \<in> dirty ?w2" "dirty w1 \<subseteq> dirty ?w2"
      using step_alloc [OF a] nb s1 owned_parent [OF o1(1,3)] by auto
    let ?w3 = "upd_node n (\<lambda>x. x\<lparr>inodes := take si (inodes (heap w ! n))\<rparr>) ?w2"
    have s3: "step ?w2 ?w3" by (rule step_upd_same_parent) (use o1 s2 in auto)
    let ?w4 = "upd_node r (\<lambda>x. x\<lparr>inodes := drop si (inodes (heap w ! n))\<rparr>) ?w3"
    have s4: "step ?w3 ?w4" by (rule step_upd_same_parent) (use s2 in auto)
    have "step w1 w'"
      unfolding 2(7) by (rule step_trans [OF step_trans [OF step_trans [OF s2(1) s3] s4] step_stats])
    then show ?thesis using o1 evolves_trans s2(2) 2(1,7) by (auto simp: step_def)
  qed (use assms in auto)
qed

lemma split_step:
  assumes "split n w = (ns, w')" and "n \<in> dirty w" and "owned w"
  shows "owned w' \<and> evolves w w' \<and> set ns \<subseteq> dirty w'"
  using assms
proof (induction n w arbitrary: ns w' rule: split.induct)
  case (1 n w)
  obtain b w1 where b: "splitTwo n w = (b, w1)" by fastforce
  have o1: "owned w1" "evolves w w1" "\<forall>r. b = Some r \<longrightarrow> r \<in> dirty w1"
    using splitTwo_step [OF b "1.prems"(2,3)] by auto
  show ?case
  proof (cases b)
    case None
    then have "ns = [n]" "w' = w1" using b "1.prems"(1) by (auto simp: split.simps)
    then show ?thesis using o1 "1.prems"(2) by (auto simp: evolves_def)
  next
    case (Some r)
    obtain ns' where ns: "split r w1 = (ns', w')" "ns = n # ns'"
      using b Some "1.prems"(1) by (auto simp: split.simps [of n] split: prod.splits)
    have "owned w' \<and> evolves w1 w' \<and> set ns' \<subseteq> dirty w'"
      using "1.IH" [OF b [symmetric] Some ns(1)] o1 Some by auto
    moreover from this have "evolves w w'" using o1(2) evolves_trans by blast
    ultimately show ?thesis using ns(2) "1.prems"(2) evolves_dirtyD by auto
  qed
qed

lemma finalize_node_step:
  assumes "finalize_node n w = Inr w'" and "n \<in> dirty w" and "owned w"
  shows "owned w' \<and> evolves w w'"
proof -
  define w1 where "w1 = upd_node n (\<lambda>x. x\<lparr>spilled := True\<rparr>) w"
  have s1: "step w w1" unfolding w1_def by (rule step_upd_same_parent) (use assms in auto)
  have o1: "owned w1" "n \<in> dirty w1" using s1 assms by (auto simp: step_def w1_def)
  have "step w1 w'"
  proof (cases "parent (heap w1 ! n)")
    case None
    then show ?thesis using assms(1) by (auto simp: finalize_node_def Let_def w1_def [symmetric])
  next
    case (Some p)
    have p: "p \<in> dirty w1" by (rule owned_parent [OF o1 Some])
    note run = assms(1) [unfolded finalize_node_def Let_def w1_def [symmetric] Some option.case]
    obtain key i0 pn where pn: "put key (ikey i0) [] (Some n) 0 (heap w1 ! p) = Inr pn"
      and k: "finalize_key (heap w1 ! n) = Inr key" "slice_index (inodes (heap w1 ! n)) 0 = Inr i0"
      using run by auto
    let ?w2 = "upd_node p (\<lambda>_. pn) w1"
    let ?w3 = "upd_node n (\<lambda>x. x\<lparr>nkey := ikey i0\<rparr>) ?w2"
    have w': "w' = ?w3\<lparr>stats := IncSpill 1 (stats ?w3)\<rparr>"
      using run pn k by (auto split: if_splits)
    have "step w1 ?w2"
      by (rule step_upd_same_parent) (use p put_parent [OF pn(1)] in auto)
    moreover have "step ?w2 ?w3"
      by (rule step_upd_same_parent) (use o1 in auto)
    ultimately show ?thesis unfolding w' using step_trans step_stats by blast
  qed
  then have "step w w'" using s1 step_trans by blast
  then show ?thesis using assms(3) by (simp add: step_def)
qed

lemma finalize_nodes_step:
  assumes "finalize_nodes ns w = Inr w'" and "set ns \<subseteq> dirty w" and "owned w"
  shows "owned w' \<and> evolves w w'"
  using assms
proof (induction ns arbitrary: w)
  case (Cons n ns)
  then obtain w1 where w1: "finalize_node n w = Inr w1" "finalize_nodes ns w1 = Inr w'" by auto
  have o1: "owned w1" "evolves w w1" using finalize_node_step [OF w1(1)] Cons.prems by auto
  then have "set ns \<subseteq> dirty w1" using Cons.prems by (auto simp: evolves_def)
  then show ?case using Cons.IH [OF w1(2)] o1 evolves_trans by blast
qed simp

lemma finalize_step:
  "finalize f n w = Inr w' \<Longrightarrow> n \<in> dirty w \<Longrightarrow> owned w \<Longrightarrow> owned w' \<and> evolves w w'"
  "finalize_children f n len i w = Inr w' \<Longrightarrow> n \<in> dirty w \<Longrightarrow> owned w \<Longrightarrow> owned w' \<and> evolves w w'"
proof (induction f n w and f n len i w arbitrary: w' and w' rule: finalize_finalize_children.induct)
  case (2 f n w)
  show ?case
  proof (cases "spilled (heap w ! n)")
    case False
    obtain w1 where w1: "finalize_children f n (length (inodes (heap w ! n))) 0 w = Inr w1"
      using "2.prems"(1) False by auto
    obtain ns w2 where w2: "split n w1 = (ns, w2)" by fastforce
    obtain w3 where w3: "finalize_nodes ns w2 = Inr w3"
      using "2.prems"(1) False w1 w2 by auto
    have o1: "owned w1" "evolves w w1" using "2.IH"(1) [OF False w1 "2.prems"(2,3)] by auto
    then have n1: "n \<in> dirty w1" using "2.prems"(2) by (auto simp: evolves_def)
    have o2: "owned w2" "evolves w1 w2" "set ns \<subseteq> dirty w2" using split_step [OF w2 n1 o1(1)] by auto
    have o3: "owned w3" "evolves w2 w3" using finalize_nodes_step [OF w3 o2(3,1)] by auto
    have e: "evolves w w3" using o1 o2 o3 evolves_trans by blast
    have n3: "n \<in> dirty w3" using e "2.prems"(2) by (auto simp: evolves_def)
    show ?thesis
    proof (cases "\<exists>p. parent (heap w3 ! n) = Some p \<and> \<not> spilled (heap w3 ! p)")
      case True
      then obtain p where p: "parent (heap w3 ! n) = Some p" "\<not> spilled (heap w3 ! p)" by blast
      then have r: "finalize f p w3 = Inr w'" using "2.prems"(1) False w1 w2 w3 by auto
      have "owned w' \<and> evolves w3 w'"
        by (rule "2.IH"(2) [OF False w1 w2 [symmetric] w3 p r owned_parent [OF o3(1) n3 p(1)] o3(1)])
      then show ?thesis using e evolves_trans by blast
    next
      case pF: False
      then have "w' = w3" using "2.prems"(1) False w1 w2 w3 by (auto split: option.splits if_splits)
      then show ?thesis using e o3(1) by simp
    qed
  qed (use "2.prems" in simp)
next
  case (3 f n len i w)
  show ?case
  proof (cases "i < len")
    case True
    obtain e where e: "slice_index (inodes (heap w ! n)) (int i) = Inr e"
      using "3.prems"(1) True by auto
    obtain w1 where w1: "(case ichild e of None \<Rightarrow> Inr w
         | Some c \<Rightarrow> if c \<in> dirty w then finalize f c w else Inr w) = Inr w1"
       "finalize_children f n len (Suc i) w1 = Inr w'"
      using "3.prems"(1) True e by auto
    have o1: "owned w1 \<and> evolves w w1"
    proof (cases "\<exists>c. ichild e = Some c \<and> c \<in> dirty w")
      case True
      then obtain c where c: "ichild e = Some c" "c \<in> dirty w" by blast
      then have "finalize f c w = Inr w1" using w1(1) by simp
      then show ?thesis using "3.IH"(1) [OF \<open>i < len\<close> e c(1,2)] c(2) "3.prems"(3) by blast
    next
      case False
      then show ?thesis using w1(1) "3.prems"(3) by (auto split: option.splits if_splits)
    qed
    then have "n \<in> dirty w1" using "3.prems"(2) by (auto simp: evolves_def)
    then show ?thesis using "3.IH"(2) [OF True e w1] o1 evolves_trans by blast
  qed (use "3.prems" in simp)
qed simp


section \<open>What a split produces\<close>

text \<open>
  \<open>split_of w n w' ns\<close>: the entries of \<open>n\<close> in \<open>w\<close> are distributed, in order, over the nodes
  \<open>ns\<close> of \<open>w'\<close>. The first is \<open>n\<close> itself, the others are new, and all have the same parent,
  which is new and empty if \<open>n\<close> had none.
\<close>

definition split_of :: "wst \<Rightarrow> addr \<Rightarrow> wst \<Rightarrow> addr list \<Rightarrow> bool" where
  "split_of w n w' ns \<longleftrightarrow>
     concat (map (\<lambda>a. inodes (heap w' ! a)) ns) = inodes (heap w ! n) \<and>
     ns \<noteq> [] \<and> hd ns = n \<and> distinct ns \<and> set (tl ns) \<subseteq> {length (heap w)..<length (heap w')} \<and>
     (\<forall>a\<in>set ns. isLeaf (heap w' ! a) = isLeaf (heap w ! n) \<and>
                 parent (heap w' ! a) = parent (heap w' ! n)) \<and>
     nkey (heap w' ! n) = nkey (heap w ! n) \<and> spilled (heap w' ! n) = spilled (heap w ! n) \<and>
     (\<forall>a\<in>set (tl ns). nkey (heap w' ! a) = [] \<and> \<not> spilled (heap w' ! a)) \<and>
     (tl ns = [] \<longrightarrow> w' = w) \<and>
     (tl ns \<noteq> [] \<longrightarrow> (\<forall>a\<in>set ns. minKeys (heap w ! n) \<le> length (inodes (heap w' ! a))) \<and>
        length ns < length (inodes (heap w ! n))) \<and>
     (\<forall>p. parent (heap w ! n) = Some p \<longrightarrow> parent (heap w' ! n) = Some p) \<and>
     (parent (heap w ! n) = None \<longrightarrow> tl ns \<noteq> [] \<longrightarrow>
        parent (heap w' ! n) = Some (length (heap w)) \<and> length (heap w) < length (heap w') \<and>
        heap w' ! length (heap w) = new_node\<lparr>bucket := bucket (heap w ! n)\<rparr> \<and>
        length (heap w) \<notin> set ns) \<and>
     length (heap w) \<le> length (heap w') \<and>
     (\<forall>b<length (heap w). b \<noteq> n \<longrightarrow> heap w' ! b = heap w ! b) \<and>
     dirty w' = dirty w \<union> {length (heap w)..<length (heap w')} \<and> rootNode w' = rootNode w \<and>
     FillPercent w' = FillPercent w"

lemma split_threshold_le: "split_threshold fp \<le> defaultMaxNodeSizeBytes"
proof -
  have "split_threshold fp \<le> nat \<lfloor>of_nat defaultMaxNodeSizeBytes * (1::rat)\<rfloor>"
    unfolding split_threshold_def Let_def
    by (intro nat_mono floor_mono mult_left_mono)
      (auto simp: minFillPercent_def maxFillPercent_def)
  then show ?thesis by simp
qed

lemma splitTwo_spec:
  assumes "splitTwo n w = (Some r, w1)" and "n < length (heap w)"
  shows "\<exists>si p. 0 < si \<and> minKeys (heap w ! n) \<le> si \<and> minKeys (heap w ! n) < length (inodes (heap w ! n)) - si \<and>
    heap w1 ! n = (heap w ! n)\<lparr>parent := Some p, inodes := take si (inodes (heap w ! n))\<rparr> \<and>
    heap w1 ! r = new_node\<lparr>bucket := bucket (heap w ! n), isLeaf := isLeaf (heap w ! n),
                     parent := Some p, inodes := drop si (inodes (heap w ! n))\<rparr> \<and>
    fits (heap w1 ! n) \<and> length (heap w) \<le> r \<and> length (heap w1) = Suc r \<and>
    (\<forall>b<length (heap w). b \<noteq> n \<longrightarrow> heap w1 ! b = heap w ! b) \<and>
    dirty w1 = dirty w \<union> {length (heap w)..<length (heap w1)} \<and> rootNode w1 = rootNode w \<and>
    FillPercent w1 = FillPercent w \<and>
    (case parent (heap w ! n) of
       Some p' \<Rightarrow> p' = p \<and> r = length (heap w)
     | None \<Rightarrow> p = length (heap w) \<and> r = Suc (length (heap w)) \<and>
               heap w1 ! length (heap w) = new_node\<lparr>bucket := bucket (heap w ! n)\<rparr>)"
  using assms(1)
proof (cases rule: splitTwo_cases)
  case (2 p w0 r' si)
  let ?nd = "heap w ! n"
  have r: "r' = r" using 2(1) by simp
  note b = splitIndex_bounds [OF 2(2), of "split_threshold (FillPercent w)"]
  have si: "minKeys ?nd \<le> si" "minKeys ?nd < length (inodes ?nd) - si"
    using b(1,2) 2(2,4) by auto
  have pos: "0 < si" using si(1) by (simp add: minKeys_def split: if_splits)
  have h0: "length (heap w) \<le> length (heap w0)" "heap w0 ! n = ?nd\<lparr>parent := Some p\<rparr>"
    "\<forall>b<length (heap w). b \<noteq> n \<longrightarrow> heap w0 ! b = heap w ! b"
    "dirty w0 = dirty w \<union> {length (heap w)..<length (heap w0)}" "rootNode w0 = rootNode w"
    "FillPercent w0 = FillPercent w"
    using 2(5) assms(2)
    by (auto simp: upd_node_def alloc_dirty_def nth_append nth_list_update split: if_splits)
  have new: "case parent ?nd of Some p' \<Rightarrow> p = p' \<and> w0 = w
     | None \<Rightarrow> p = length (heap w) \<and> length (heap w0) = Suc (length (heap w)) \<and>
         heap w0 ! length (heap w) = new_node\<lparr>bucket := bucket ?nd\<rparr>"
    using 2(5) assms(2)
    by (auto simp: upd_node_def alloc_dirty_def nth_append nth_list_update split: option.splits if_splits)
  have n0: "n < length (heap w0)" "n \<noteq> length (heap w0)" using h0(1) assms(2) by auto
  have h1: "heap w1 ! n = ?nd\<lparr>parent := Some p, inodes := take si (inodes ?nd)\<rparr>"
    "heap w1 ! r = new_node\<lparr>bucket := bucket ?nd, isLeaf := isLeaf ?nd, parent := Some p,
        inodes := drop si (inodes ?nd)\<rparr>"
    "length (heap w1) = Suc r" "r = length (heap w0)"
    "\<And>b. b < length (heap w0) \<Longrightarrow> b \<noteq> n \<Longrightarrow> heap w1 ! b = heap w0 ! b"
    "dirty w1 = insert r (dirty w0)" "rootNode w1 = rootNode w0" "FillPercent w1 = FillPercent w0"
    using 2(6,7) n0 h0(2) r
    by (auto simp: upd_node_def alloc_dirty_def nth_append nth_list_update)
  have "fits (heap w1 ! n)"
    unfolding fits_def h1(1) using b(3) 2(4) split_threshold_le [of "FillPercent w"]
    by (auto simp: node_size_eq minKeys_def)
  moreover have "dirty w1 = dirty w \<union> {length (heap w)..<length (heap w1)}"
    using h1(3,4,6) h0(1,4) by auto
  moreover have "\<forall>b<length (heap w). b \<noteq> n \<longrightarrow> heap w1 ! b = heap w ! b"
    using h1(5) h0(1,3) by simp
  moreover have "length (heap w) \<le> r" "rootNode w1 = rootNode w" "FillPercent w1 = FillPercent w"
    using h0(1,5,6) h1(4,7,8) by simp_all
  moreover have "case parent ?nd of Some p' \<Rightarrow> p' = p \<and> r = length (heap w)
     | None \<Rightarrow> p = length (heap w) \<and> r = Suc (length (heap w)) \<and>
         heap w1 ! length (heap w) = new_node\<lparr>bucket := bucket ?nd\<rparr>"
    using new h1(4,5) assms(2) by (cases "parent ?nd") auto
  ultimately show ?thesis using pos si h1(1-3) by blast
qed simp


lemma split_spec:
  assumes "split n w = (ns, w')" and "n < length (heap w)"
  shows "split_of w n w' ns \<and> (\<forall>a\<in>set ns. fits (heap w' ! a))"
  using assms
proof (induction n w arbitrary: ns w' rule: split.induct)
  case (1 n w)
  obtain b w1 where b: "splitTwo n w = (b, w1)" by fastforce
  show ?case
  proof (cases b)
    case None
    have *: "w1 = w \<and> fits (heap w ! n)"
      using b by (cases rule: splitTwo_cases) (simp_all add: None)
    then have w1: "w1 = w" and "fits (heap w ! n)" by simp_all
    moreover have "ns = [n]" "w' = w" using b None w1 "1.prems"(1) by (auto simp: split.simps)
    ultimately show ?thesis using "1.prems"(2) by (simp add: split_of_def)
  next
    case (Some r)
    obtain ns' where ns: "split r w1 = (ns', w')" "ns = n # ns'"
      using b Some "1.prems"(1) by (auto simp: split.simps [of n] split: prod.splits)
    obtain si p where si: "0 < si" "minKeys (heap w ! n) \<le> si"
        "minKeys (heap w ! n) < length (inodes (heap w ! n)) - si"
      and hn: "heap w1 ! n = (heap w ! n)\<lparr>parent := Some p, inodes := take si (inodes (heap w ! n))\<rparr>"
      and hr: "heap w1 ! r = new_node\<lparr>bucket := bucket (heap w ! n), isLeaf := isLeaf (heap w ! n),
                     parent := Some p, inodes := drop si (inodes (heap w ! n))\<rparr>"
      and fit: "fits (heap w1 ! n)" and len: "length (heap w) \<le> r" "length (heap w1) = Suc r"
      and fr: "\<forall>b<length (heap w). b \<noteq> n \<longrightarrow> heap w1 ! b = heap w ! b"
      and dt: "dirty w1 = dirty w \<union> {length (heap w)..<length (heap w1)}" "rootNode w1 = rootNode w"
        "FillPercent w1 = FillPercent w"
      and par: "case parent (heap w ! n) of
         Some p' \<Rightarrow> p' = p \<and> r = length (heap w)
       | None \<Rightarrow> p = length (heap w) \<and> r = Suc (length (heap w)) \<and>
               heap w1 ! length (heap w) = new_node\<lparr>bucket := bucket (heap w ! n)\<rparr>"
      using splitTwo_spec [OF b [unfolded Some] "1.prems"(2)] by blast
    have IH: "split_of w1 r w' ns'" "\<forall>a\<in>set ns'. fits (heap w' ! a)"
      using "1.IH" [OF b [symmetric] Some ns(1)] len by auto
    have nr: "n \<noteq> r" "n < length (heap w1)" using "1.prems"(2) len by auto
    have keep: "heap w' ! c = heap w1 ! c" if "c < length (heap w1)" "c \<noteq> r" for c
      using IH(1) that by (simp add: split_of_def)
    have n': "heap w' ! n = heap w1 ! n" by (rule keep [OF nr(2,1)])
    have mk: "minKeys (heap w1 ! r) = minKeys (heap w ! n)" using hr by (simp add: minKeys_def)
    have pr': "parent (heap w' ! r) = Some p"
      using IH(1) hr by (simp add: split_of_def)
    have IH': "distinct ns'" "ns' \<noteq> []" "hd ns' = r" "FillPercent w' = FillPercent w1"
      "\<forall>a\<in>set (tl ns'). nkey (heap w' ! a) = [] \<and> \<not> spilled (heap w' ! a)"
      "nkey (heap w' ! r) = nkey (heap w1 ! r)" "spilled (heap w' ! r) = spilled (heap w1 ! r)"
      "tl ns' = [] \<Longrightarrow> w' = w1"
      "tl ns' \<noteq> [] \<Longrightarrow> (\<forall>a\<in>set ns'. minKeys (heap w1 ! r) \<le> length (inodes (heap w' ! a))) \<and>
        length ns' < length (inodes (heap w1 ! r))"
      "dirty w' = dirty w1 \<union> {length (heap w1)..<length (heap w')}" "rootNode w' = rootNode w1"
      using IH(1) by (simp_all add: split_of_def)
    have ns'e: "ns' = r # tl ns'" using IH'(2,3) by (cases ns') auto
    have tl': "set (tl ns') \<subseteq> {length (heap w1)..<length (heap w')}" "length (heap w1) \<le> length (heap w')"
      using IH(1) by (simp_all add: split_of_def)
    have set': "set ns' \<subseteq> {length (heap w)..<length (heap w')}"
    proof
      fix c assume "c \<in> set ns'"
      then have "c = r \<or> c \<in> set (tl ns')" using ns'e by (metis set_ConsD)
      then show "c \<in> {length (heap w)..<length (heap w')}" using tl' len by fastforce
    qed
    have "concat (map (\<lambda>a. inodes (heap w' ! a)) ns) = inodes (heap w ! n)"
      using IH(1) hn hr n' ns(2) by (simp add: split_of_def)
    moreover have "distinct ns" using IH'(1) set' "1.prems"(2) ns(2) by auto
    moreover have "\<forall>a\<in>set ns. isLeaf (heap w' ! a) = isLeaf (heap w ! n) \<and> parent (heap w' ! a) = parent (heap w' ! n)"
    proof -
      have "\<forall>a\<in>set ns'. isLeaf (heap w' ! a) = isLeaf (heap w1 ! r) \<and> parent (heap w' ! a) = parent (heap w' ! r)"
        using IH(1) by (simp add: split_of_def)
      then show ?thesis using ns(2) n' hn hr pr' by simp
    qed
    moreover have "nkey (heap w' ! a) = [] \<and> \<not> spilled (heap w' ! a)" if "a \<in> set (tl ns)" for a
    proof -
      have "a = r \<or> a \<in> set (tl ns')" using that ns(2) ns'e by (metis list.sel(3) set_ConsD)
      then show ?thesis using IH'(5-7) hr by (auto simp: new_node_def)
    qed
    moreover have "(\<forall>a\<in>set ns. minKeys (heap w ! n) \<le> length (inodes (heap w' ! a))) \<and>
        length ns < length (inodes (heap w ! n))"
    proof (cases "tl ns' = []")
      case True
      then have "w' = w1" "ns' = [r]" using IH'(8) ns'e by auto
      moreover have "0 < minKeys (heap w ! n)" by (simp add: minKeys_def)
      ultimately show ?thesis using ns(2) hn hr si by auto
    next
      case False
      then have "\<forall>a\<in>set ns'. minKeys (heap w ! n) \<le> length (inodes (heap w' ! a))"
        "length ns' < length (inodes (heap w1 ! r))"
        using IH'(9) mk by auto
      then show ?thesis using ns(2) n' hn hr si by auto
    qed
    moreover have "dirty w' = dirty w \<union> {length (heap w)..<length (heap w')}" "rootNode w' = rootNode w"
      "FillPercent w' = FillPercent w"
      using IH'(4,10,11) dt len tl'(2) by auto
    moreover have "heap w' ! b = heap w ! b" if "b < length (heap w)" "b \<noteq> n" for b
      using keep [of b] fr that len by auto
    moreover have "\<forall>p. parent (heap w ! n) = Some p \<longrightarrow> parent (heap w' ! n) = Some p"
      using par n' hn by auto
    moreover have "parent (heap w' ! n) = Some (length (heap w)) \<and> length (heap w) < length (heap w') \<and>
        heap w' ! length (heap w) = new_node\<lparr>bucket := bucket (heap w ! n)\<rparr> \<and> length (heap w) \<notin> set ns"
      if "parent (heap w ! n) = None"
    proof -
      have q: "parent (heap w1 ! n) = Some (length (heap w))" "r = Suc (length (heap w))"
        "heap w1 ! length (heap w) = new_node\<lparr>bucket := bucket (heap w ! n)\<rparr>"
        using par that hn by auto
      have "length (heap w) \<notin> set ns'"
      proof
        assume "length (heap w) \<in> set ns'"
        then have "length (heap w) = r \<or> length (heap w) \<in> set (tl ns')" using ns'e by (metis set_ConsD)
        then show False using tl'(1) len(2) q(2) by auto
      qed
      then show ?thesis
        using q n' keep [of "length (heap w)"] tl'(2) len "1.prems"(2) ns(2) by simp
    qed
    moreover have "ns \<noteq> []" "hd ns = n" "set (tl ns) \<subseteq> {length (heap w)..<length (heap w')}" "tl ns \<noteq> []"
      using ns(2) set' ns'e by auto
    moreover have "nkey (heap w' ! n) = nkey (heap w ! n)" "spilled (heap w' ! n) = spilled (heap w ! n)"
      using n' hn by simp_all
    moreover have "length (heap w) \<le> length (heap w')" using tl'(2) len by simp
    ultimately have "split_of w n w' ns" unfolding split_of_def by blast
    then show ?thesis using IH(2) ns(2) fit n' by simp
  qed
qed


section \<open>Wiring the parts into their parent\<close>

definition fkey :: "node \<Rightarrow> bytes" where
  "fkey n = ikey (hd (inodes n))"

definition child_entry :: "heap \<Rightarrow> addr \<Rightarrow> inode" where
  "child_entry h a = \<lparr>iflags = 0, ikey = fkey (h ! a), ivalue = [], ichild = Some a\<rparr>"

definition spilled_node :: "node \<Rightarrow> node" where
  "spilled_node n = n\<lparr>spilled := True, nkey := fkey n\<rparr>"

lemma spilled_node_simps [simp]:
  "inodes (spilled_node n) = inodes n" "isLeaf (spilled_node n) = isLeaf n"
  "spilled (spilled_node n)" "nkey (spilled_node n) = fkey n" "parent (spilled_node n) = parent n"
  "fkey (spilled_node n) = fkey n"
  by (simp_all add: spilled_node_def fkey_def)

text \<open>One part: its parent gets an entry for it in the place of the part's old key.\<close>

lemma finalize_node_spec:
  assumes "parent (heap w ! a) = Some p" and "a \<noteq> p" and "a < length (heap w)" and "p < length (heap w)"
    and "inodes (heap w ! a) \<noteq> []" and "fkey (heap w ! a) \<noteq> []"
    and "ascending (ikeys (inodes (heap w ! p)))"
    and "key = (if nkey (heap w ! a) = [] then fkey (heap w ! a) else nkey (heap w ! a))"
  shows "\<exists>w'. finalize_node a w = Inr w' \<and>
    heap w' ! a = spilled_node (heap w ! a) \<and>
    heap w' ! p = (heap w ! p)\<lparr>inodes := filter (\<lambda>i. ikey i < key) (inodes (heap w ! p)) @
       child_entry (heap w) a # filter (\<lambda>i. key < ikey i) (inodes (heap w ! p))\<rparr> \<and>
    (\<forall>b. b \<noteq> a \<longrightarrow> b \<noteq> p \<longrightarrow> heap w' ! b = heap w ! b) \<and>
    length (heap w') = length (heap w) \<and> dirty w' = dirty w \<and> rootNode w' = rootNode w \<and>
    FillPercent w' = FillPercent w"
proof -
  let ?nd = "heap w ! a" and ?pn = "heap w ! p"
  let ?w1 = "upd_node a (\<lambda>x. x\<lparr>spilled := True\<rparr>) w"
  have h1: "heap ?w1 ! a = ?nd\<lparr>spilled := True\<rparr>" "heap ?w1 ! p = ?pn"
    using assms(2,3) by (auto simp: upd_node_def)
  have k: "finalize_key (?nd\<lparr>spilled := True\<rparr>) = Inr key"
    using assms(5,6,8) by (auto simp: finalize_key_def fkey_def hd_conv_nth)
  have i0: "slice_index (inodes ?nd) 0 = Inr (hd (inodes ?nd))"
    using assms(5) by (simp add: hd_conv_nth)
  have kne: "key \<noteq> []" using assms(6,8) by auto
  have pt: "put key (fkey ?nd) [] (Some a) 0 ?pn = Inr (?pn\<lparr>inodes := filter (\<lambda>i. ikey i < key) (inodes ?pn) @
       child_entry (heap w) a # filter (\<lambda>i. key < ikey i) (inodes ?pn)\<rparr>)"
    using put_inodes [OF assms(7) kne assms(6)] by (simp add: child_entry_def)
  show ?thesis
    unfolding finalize_node_def Let_def h1
    using assms(1-4,6) k i0 pt
    by (auto simp: upd_node_def fkey_def [symmetric] spilled_node_def nth_list_update)
qed

text \<open>
  The new parts, whose own key is still empty: their entries are inserted one behind the
  other between the entries \<open>A\<close> and \<open>B\<close> of the parent.
\<close>

lemma finalize_rest_spec:
  assumes "\<forall>a\<in>set ns. parent (heap w ! a) = Some p \<and> a < length (heap w) \<and> inodes (heap w ! a) \<noteq> [] \<and>
      fkey (heap w ! a) \<noteq> [] \<and> nkey (heap w ! a) = []"
    and "p < length (heap w)" and "p \<notin> set ns" and "distinct ns"
    and "inodes (heap w ! p) = A @ B"
    and "ascending (ikeys A @ map (\<lambda>a. fkey (heap w ! a)) ns @ ikeys B)"
  shows "\<exists>w'. finalize_nodes ns w = Inr w' \<and>
    (\<forall>a\<in>set ns. heap w' ! a = spilled_node (heap w ! a)) \<and>
    heap w' ! p = (heap w ! p)\<lparr>inodes := A @ map (child_entry (heap w)) ns @ B\<rparr> \<and>
    (\<forall>b. b \<notin> set ns \<longrightarrow> b \<noteq> p \<longrightarrow> heap w' ! b = heap w ! b) \<and>
    length (heap w') = length (heap w) \<and> dirty w' = dirty w \<and> rootNode w' = rootNode w \<and>
    FillPercent w' = FillPercent w"
  using assms
proof (induction ns arbitrary: w A)
  case Nil
  then show ?case by simp
next
  case (Cons a ns)
  let ?k = "fkey (heap w ! a)"
  have asc: "ascending (ikeys (inodes (heap w ! p)))"
    using Cons.prems(5,6) by (simp add: ascending_append)
  have f: "filter (\<lambda>i. ikey i < ?k) (inodes (heap w ! p)) = A" "filter (\<lambda>i. ?k < ikey i) (inodes (heap w ! p)) = B"
    using Cons.prems(5,6) by (auto simp: ascending_append filter_empty_conv filter_id_conv dest: less_asym)
  obtain w1 where w1: "finalize_node a w = Inr w1" "heap w1 ! a = spilled_node (heap w ! a)"
    "heap w1 ! p = (heap w ! p)\<lparr>inodes := A @ child_entry (heap w) a # B\<rparr>"
    "\<forall>b. b \<noteq> a \<longrightarrow> b \<noteq> p \<longrightarrow> heap w1 ! b = heap w ! b"
    "length (heap w1) = length (heap w)" "dirty w1 = dirty w" "rootNode w1 = rootNode w"
    "FillPercent w1 = FillPercent w"
    using finalize_node_spec [of w a p ?k] Cons.prems(1-3) asc f by auto
  have same: "heap w1 ! b = heap w ! b" if "b \<in> set ns" for b
    using w1(4) that Cons.prems(3,4) by auto
  have ce: "map (child_entry (heap w1)) ns = map (child_entry (heap w)) ns"
    using same by (auto simp: child_entry_def)
  have fk: "map (\<lambda>a. fkey (heap w1 ! a)) ns = map (\<lambda>a. fkey (heap w ! a)) ns"
    using same by auto
  obtain w' where w': "finalize_nodes ns w1 = Inr w'"
    "\<forall>a\<in>set ns. heap w' ! a = spilled_node (heap w1 ! a)"
    "heap w' ! p = (heap w1 ! p)\<lparr>inodes := (A @ [child_entry (heap w) a]) @ map (child_entry (heap w1)) ns @ B\<rparr>"
    "\<forall>b. b \<notin> set ns \<longrightarrow> b \<noteq> p \<longrightarrow> heap w' ! b = heap w1 ! b"
    "length (heap w') = length (heap w1)" "dirty w' = dirty w1" "rootNode w' = rootNode w1"
    "FillPercent w' = FillPercent w1"
  proof (rule exE [OF Cons.IH [of w1 "A @ [child_entry (heap w) a]"]])
    show "\<forall>a\<in>set ns. parent (heap w1 ! a) = Some p \<and> a < length (heap w1) \<and> inodes (heap w1 ! a) \<noteq> [] \<and>
        fkey (heap w1 ! a) \<noteq> [] \<and> nkey (heap w1 ! a) = []"
      using Cons.prems(1) same w1(5) by simp
    show "ascending (ikeys (A @ [child_entry (heap w) a]) @ map (\<lambda>a. fkey (heap w1 ! a)) ns @ ikeys B)"
      unfolding fk using Cons.prems(6) by (simp add: child_entry_def)
  qed (use Cons.prems w1 in auto)
  have "heap w' ! a = spilled_node (heap w ! a)" using w'(4) w1(2) Cons.prems(3,4) by auto
  then show ?case
    using w1 w' same ce by (intro exI [of _ w']) auto
qed


lemma finalize_parts_spec:
  assumes "\<forall>a\<in>set (n # ms). parent (heap w ! a) = Some p \<and> a < length (heap w) \<and> inodes (heap w ! a) \<noteq> [] \<and>
      fkey (heap w ! a) \<noteq> []"
    and "\<forall>a\<in>set ms. nkey (heap w ! a) = []"
    and "p < length (heap w)" and "p \<notin> set (n # ms)" and "distinct (n # ms)"
    and "ascending (ikeys (inodes (heap w ! p)))"
    and "key = (if nkey (heap w ! n) = [] then fkey (heap w ! n) else nkey (heap w ! n))"
    and "filter (\<lambda>i. ikey i < key) (inodes (heap w ! p)) = A"
    and "filter (\<lambda>i. key < ikey i) (inodes (heap w ! p)) = B"
    and "ascending (ikeys A @ map (\<lambda>a. fkey (heap w ! a)) (n # ms) @ ikeys B)"
  shows "\<exists>w'. finalize_nodes (n # ms) w = Inr w' \<and>
    (\<forall>a\<in>set (n # ms). heap w' ! a = spilled_node (heap w ! a)) \<and>
    heap w' ! p = (heap w ! p)\<lparr>inodes := A @ map (child_entry (heap w)) (n # ms) @ B\<rparr> \<and>
    (\<forall>b. b \<notin> set (n # ms) \<longrightarrow> b \<noteq> p \<longrightarrow> heap w' ! b = heap w ! b) \<and>
    length (heap w') = length (heap w) \<and> dirty w' = dirty w \<and> rootNode w' = rootNode w \<and>
    FillPercent w' = FillPercent w"
proof -
  obtain w1 where w1: "finalize_node n w = Inr w1" "heap w1 ! n = spilled_node (heap w ! n)"
    "heap w1 ! p = (heap w ! p)\<lparr>inodes := A @ child_entry (heap w) n # B\<rparr>"
    "\<forall>b. b \<noteq> n \<longrightarrow> b \<noteq> p \<longrightarrow> heap w1 ! b = heap w ! b"
    "length (heap w1) = length (heap w)" "dirty w1 = dirty w" "rootNode w1 = rootNode w"
    "FillPercent w1 = FillPercent w"
    using finalize_node_spec [of w n p key] assms(1,3,4,6-9) by auto
  have same: "heap w1 ! b = heap w ! b" if "b \<in> set ms" for b
    using w1(4) that assms(4,5) by auto
  have ce: "map (child_entry (heap w1)) ms = map (child_entry (heap w)) ms"
    "map (\<lambda>a. fkey (heap w1 ! a)) ms = map (\<lambda>a. fkey (heap w ! a)) ms"
    using same by (auto simp: child_entry_def)
  obtain w' where w': "finalize_nodes ms w1 = Inr w'"
    "\<forall>a\<in>set ms. heap w' ! a = spilled_node (heap w1 ! a)"
    "heap w' ! p = (heap w1 ! p)\<lparr>inodes := (A @ [child_entry (heap w) n]) @ map (child_entry (heap w1)) ms @ B\<rparr>"
    "\<forall>b. b \<notin> set ms \<longrightarrow> b \<noteq> p \<longrightarrow> heap w' ! b = heap w1 ! b"
    "length (heap w') = length (heap w1)" "dirty w' = dirty w1" "rootNode w' = rootNode w1"
    "FillPercent w' = FillPercent w1"
  proof (rule exE [OF finalize_rest_spec [of ms w1 p "A @ [child_entry (heap w) n]" B]])
    show "\<forall>a\<in>set ms. parent (heap w1 ! a) = Some p \<and> a < length (heap w1) \<and> inodes (heap w1 ! a) \<noteq> [] \<and>
        fkey (heap w1 ! a) \<noteq> [] \<and> nkey (heap w1 ! a) = []"
      using assms(1,2) same w1(5) by simp
    show "ascending (ikeys (A @ [child_entry (heap w) n]) @ map (\<lambda>a. fkey (heap w1 ! a)) ms @ ikeys B)"
      unfolding ce using assms(10) by (simp add: child_entry_def)
  qed (use assms w1 in auto)
  have "heap w' ! n = spilled_node (heap w ! n)" using w'(4) w1(2) assms(4,5) by auto
  then show ?thesis using w1 w' same ce by (intro exI [of _ w']) auto
qed

section \<open>The trees of the parts\<close>

lemma list_all2_concat_left:
  "list_all2 P (concat xss) ys \<Longrightarrow> \<exists>yss. list_all2 (list_all2 P) xss yss \<and> concat yss = ys"
proof (induction xss arbitrary: ys)
  case (Cons xs xss)
  then obtain ys1 ys2 where "ys = ys1 @ ys2" "list_all2 P xs ys1" "list_all2 P (concat xss) ys2"
    by (auto simp: list_all2_append1)
  with Cons.IH [of ys2] show ?case by (metis concat.simps(2) list_all2_Cons)
qed auto

fun first_key :: "tree \<Rightarrow> bytes" where
  "first_key (Leaf a kvs) = fst (hd kvs)"
| "first_key (Branch a ets) = fst (hd ets)"

text \<open>A tree is \<open>tight\<close> when every separator is the first key of a child that has entries.\<close>

fun root_keys :: "tree \<Rightarrow> bytes list" where
  "root_keys (Leaf a kvs) = map fst kvs"
| "root_keys (Branch a ets) = map fst ets"

fun tight :: "tree \<Rightarrow> bool" where
  "tight (Leaf a kvs) \<longleftrightarrow> True"
| "tight (Branch a ets) \<longleftrightarrow> (\<forall>e\<in>set ets. root_keys (snd e) \<noteq> [] \<and> hd (root_keys (snd e)) = fst e \<and> tight (snd e))"

lemma entry_keys:
  "list_all2 leaf_entry is kvs \<Longrightarrow> map fst kvs = ikeys is"
  "list_all2 branch_entry is ets \<Longrightarrow> map fst ets = ikeys is"
  by (induction rule: list_all2_induct; simp add: leaf_entry_def branch_entry_def)+

lemma repr_root_keys: "repr h t \<Longrightarrow> root_keys t = ikeys (inodes (h ! raddr t))"
  by (cases t) (simp_all add: entry_keys)

lemma hd_root_keys: "root_keys t \<noteq> [] \<Longrightarrow> hd (root_keys t) = first_key t"
  by (cases t) (simp_all add: hd_map)

lemma oks_leaf_parts:
  assumes "length as = length kvss" and "[] \<notin> set kvss" and "ascending (map fst (concat kvss))"
    and "\<forall>q\<in>set (concat kvss). bnd lo hi (fst q)"
  shows "oks lo hi (map (\<lambda>t. (first_key t, t)) (map2 Leaf as kvss))"
  using assms
proof (induction as kvss arbitrary: lo rule: list_induct2)
  case (Cons a as kvs kvss)
  let ?r = "map (\<lambda>t. (first_key t, t)) (map2 Leaf as kvss)"
  have ne: "kvs \<noteq> []" "[] \<notin> set kvss" using Cons.prems(1) by auto
  have asc: "ascending (map fst kvs)" "ascending (map fst (concat kvss))"
    "\<forall>x\<in>set kvs. \<forall>y\<in>set (concat kvss). fst x < fst y"
    using Cons.prems(2) by (auto simp: ascending_append)
  show ?case
  proof (cases kvss)
    case Nil
    then show ?thesis using ne asc(1) Cons.prems(3) Cons.hyps by (auto simp: list_all_iff)
  next
    case C: (Cons kvs1 kvss1)
    then obtain a1 as1 where as: "as = a1 # as1" using Cons.hyps by (cases as) auto
    let ?k = "fst (hd kvs1)"
    have k1: "hd kvs1 \<in> set kvs1" using ne(2) C by auto
    have hd: "?r \<noteq> []" "fst (hd ?r) = ?k" using C as by auto
    have lt: "\<forall>x\<in>set kvs. fst x < ?k" using asc(3) C k1 by auto
    have le: "\<forall>y\<in>set (concat kvss). ?k \<le> fst y"
    proof -
      have c: "concat kvss = hd kvs1 # tl (concat kvss)" using C ne(2) by (cases kvs1) auto
      have "ascending (map fst (hd kvs1 # tl (concat kvss)))" using asc(2) c by simp
      then have "\<forall>y\<in>set (hd kvs1 # tl (concat kvss)). ?k \<le> fst y" by auto
      then show ?thesis using c by simp
    qed
    have "oks ?k hi ?r"
      by (rule Cons.IH) (use ne asc le Cons.prems(3) in \<open>auto simp: bnd_def\<close>)
    moreover have "ok lo (Some ?k) (Leaf a kvs)"
      using asc(1) lt Cons.prems(3) by (auto simp: list_all_iff bnd_def)
    moreover have "bnd lo hi (fst (hd kvs))" using Cons.prems(3) ne by auto
    moreover have "fst (hd kvs) < ?k" using lt ne by auto
    moreover have "hi_of ?r hi = Some ?k" using C as by simp
    ultimately show ?thesis using hd by (simp add: oks_Cons)
  qed
qed simp

lemma oks_branch_parts:
  assumes "length as = length etss" and "[] \<notin> set etss" and "oks lo hi (concat etss)"
  shows "oks lo hi (map (\<lambda>t. (first_key t, t)) (map2 Branch as etss))"
  using assms
proof (induction as etss arbitrary: lo rule: list_induct2)
  case (Cons a as ets etss)
  let ?r = "map (\<lambda>t. (first_key t, t)) (map2 Branch as etss)"
  have ne: "ets \<noteq> []" "[] \<notin> set etss" using Cons.prems(1) by auto
  show ?case
  proof (cases etss)
    case Nil
    then show ?thesis using ne Cons.prems(2) Cons.hyps oks_hd_bnd [of lo hi ets] by auto
  next
    case C: (Cons ets1 etss1)
    then obtain a1 as1 where as: "as = a1 # as1" using Cons.hyps by (cases as) auto
    obtain k1 t1 r1 where e1: "ets1 = (k1, t1) # r1" using ne(2) C by (cases ets1) auto
    obtain k0 t0 r0 where e0: "ets = (k0, t0) # r0" using ne(1) by (cases ets) auto
    have "oks lo hi (ets @ (k1, t1) # (r1 @ concat etss1))" using Cons.prems(2) C e1 by simp
    then have o: "oks lo (Some k1) ets" "oks k1 hi (concat etss)"
      using oks_append [OF ne(1)] C e1 by auto
    have "oks k1 hi ?r" by (rule Cons.IH [OF ne(2) o(2)])
    moreover have "ok lo (Some k1) (Branch a ets)" using o(1) ne(1) by simp
    moreover have "bnd lo (Some k1) k0" using oks_hd_bnd [OF o(1) ne(1)] e0 by simp
    moreover have "bnd k1 hi k1" using oks_hd_bnd [OF o(2)] C e1 by simp
    moreover have "hi_of ?r hi = Some k1" "?r \<noteq> []" "fst (hd ?r) = k1" using C as e1 by auto
    ultimately show ?thesis using e0 bnd_mono [of lo k1 k0 k1 hi] by (simp add: oks_Cons)
  qed
qed simp


fun seps :: "tree \<Rightarrow> bytes list" where
  "seps (Leaf a kvs) = []"
| "seps (Branch a ets) = map fst ets @ concat (map (\<lambda>e. seps (snd e)) ets)"

text \<open>All keys and separators of a tree; none may be empty.\<close>

definition tkeys :: "tree \<Rightarrow> bytes set" where
  "tkeys t = fst ` set (items t) \<union> set (seps t)"

definition keys_ok :: "tree \<Rightarrow> bool" where
  "keys_ok t \<longleftrightarrow> [] \<notin> tkeys t"

text \<open>
  \<open>parts h lo hi t ts\<close>: the trees \<open>ts\<close> have the contents of \<open>t\<close>, in order, and can take its
  place in a parent whose separators are their first keys.
\<close>

definition parts :: "heap \<Rightarrow> bytes \<Rightarrow> bytes option \<Rightarrow> tree \<Rightarrow> tree list \<Rightarrow> bool" where
  "parts h lo hi t ts \<longleftrightarrow>
     (\<forall>t'\<in>set ts. intree h {} t' \<and> first_key t' = fkey (h ! raddr t') \<and> inodes (h ! raddr t') \<noteq> [] \<and>
        tkeys t' \<subseteq> tkeys t \<and> first_key t' \<in> tkeys t \<and> (tight t \<longrightarrow> tight t')) \<and>
     concat (map items ts) = items t \<and> oks lo hi (map (\<lambda>t. (first_key t, t)) ts) \<and>
     distinct (concat (map addrs ts)) \<and>
     set (concat (map addrs ts)) \<subseteq> set (addrs t) \<union> set (map raddr ts)"

lemma leaf_parts:
  assumes "repr (heap w) (Leaf n kvs)" and "ok lo hi (Leaf n kvs)" and "split_of w n w' ns"
    and "inodes (heap w ! n) \<noteq> []"
  shows "\<exists>kvss. length kvss = length ns \<and> concat kvss = kvs \<and>
    (\<forall>t'\<in>set (map2 Leaf ns kvss). repr (heap w') t') \<and> parts (heap w') lo hi (Leaf n kvs) (map2 Leaf ns kvss)"
proof -
  have s: "concat (map (\<lambda>a. inodes (heap w' ! a)) ns) = inodes (heap w ! n)" "distinct ns" "hd ns = n" "ns \<noteq> []"
    "set (tl ns) \<subseteq> {length (heap w)..<length (heap w')}" "length (heap w) \<le> length (heap w')"
    "\<forall>a\<in>set ns. isLeaf (heap w' ! a) = isLeaf (heap w ! n)"
    using assms(3) by (simp_all add: split_of_def)
  have ne: "inodes (heap w' ! a) \<noteq> []" if "a \<in> set ns" for a
  proof (cases "tl ns = []")
    case True
    then have "w' = w" "a = n" using assms(3) that s(3,4) by (cases ns; simp add: split_of_def)+
    then show ?thesis using assms(4) by simp
  next
    case False
    then have "minKeys (heap w ! n) \<le> length (inodes (heap w' ! a))"
      using assms(3) that by (simp add: split_of_def)
    then show ?thesis by (auto simp: minKeys_def split: if_splits)
  qed
  have l: "list_all2 leaf_entry (concat (map (\<lambda>a. inodes (heap w' ! a)) ns)) kvs"
    using assms(1) s(1) by simp
  obtain kvss where k: "list_all2 (list_all2 leaf_entry) (map (\<lambda>a. inodes (heap w' ! a)) ns) kvss" "concat kvss = kvs"
    using list_all2_concat_left [OF l] by blast
  have len: "length ns = length kvss" using list_all2_lengthD [OF k(1)] by simp
  have nth: "list_all2 leaf_entry (inodes (heap w' ! (ns ! i))) (kvss ! i)" if "i < length ns" for i
    using list_all2_nthD [OF k(1)] that by simp
  have lt: "a < length (heap w')" if "a \<in> set ns" for a
    using that s assms(1) by (cases ns) auto
  have t: "repr (heap w') t' \<and> first_key t' = fkey (heap w' ! raddr t') \<and> inodes (heap w' ! raddr t') \<noteq> [] \<and>
      items t' \<noteq> [] \<and> set (items t') \<subseteq> set kvs \<and> seps t' = [] \<and> tight t'"
    if t': "t' \<in> set (map2 Leaf ns kvss)" for t'
  proof -
    obtain i where i: "i < length ns" "t' = Leaf (ns ! i) (kvss ! i)"
      using t' len by (auto simp: in_set_conv_nth)
    have "inodes (heap w' ! (ns ! i)) \<noteq> []" using ne i(1) by simp
    moreover from this have "kvss ! i \<noteq> []" "leaf_entry (hd (inodes (heap w' ! (ns ! i)))) (hd (kvss ! i))"
      using nth [OF i(1)] by (cases "inodes (heap w' ! (ns ! i))"; auto simp: list_all2_Cons1)+
    moreover have "set (kvss ! i) \<subseteq> set kvs" using k(2) nth_mem [of i kvss] i(1) len by fastforce
    ultimately show ?thesis
      using i nth [OF i(1)] lt [of "ns ! i"] s(7) assms(1) by (auto simp: fkey_def leaf_entry_def)
  qed
  have "[] \<notin> set kvss"
  proof
    assume "[] \<in> set kvss"
    then obtain i where "i < length ns" "kvss ! i = []" using len by (auto simp: in_set_conv_nth)
    then show False using nth [of i] ne [of "ns ! i"] by auto
  qed
  then have "oks lo hi (map (\<lambda>t. (first_key t, t)) (map2 Leaf ns kvss))"
    by (rule oks_leaf_parts [OF len]) (use assms(2) k(2) in \<open>auto simp: list_all_iff\<close>)
  moreover have "concat (map items (map2 Leaf ns kvss)) = kvs"
  proof -
    have "map items (map2 Leaf ns kvss) = kvss" using len by (intro nth_equalityI) auto
    then show ?thesis using k(2) by simp
  qed
  moreover have "concat (map addrs (map2 Leaf ns kvss)) = ns" "map raddr (map2 Leaf ns kvss) = ns"
  proof -
    have "map addrs (map2 Leaf ns kvss) = map (\<lambda>a. [a]) ns" using len by (intro nth_equalityI) auto
    then show "concat (map addrs (map2 Leaf ns kvss)) = ns" by simp
    show "map raddr (map2 Leaf ns kvss) = ns" using len by (intro nth_equalityI) auto
  qed
  moreover have "first_key t' \<in> fst ` set kvs" if "t' \<in> set (map2 Leaf ns kvss)" for t'
  proof (cases t')
    case (Leaf a kvs')
    then have "first_key t' = fst (hd kvs')" "hd kvs' \<in> set kvs" using t [OF that] by auto
    then show ?thesis by simp
  qed (use that in \<open>auto dest!: in_set_zipE\<close>)
  ultimately show ?thesis
    using t len k(2) s(2) by (intro exI [of _ kvss]) (auto simp: parts_def tkeys_def intree_def)
qed


text \<open>Trees whose dirty nodes play no role: only the view of each node counts.\<close>

lemma intree_view:
  "intree h {} t \<Longrightarrow> (\<forall>b\<in>set (addrs t). b < length h' \<and> isLeaf (h' ! b) = isLeaf (h ! b) \<and> inodes (h' ! b) = inodes (h ! b)) \<Longrightarrow>
   (\<forall>b\<in>set (addrs t) - {raddr t}. nkey (h' ! b) = nkey (h ! b)) \<Longrightarrow> distinct (addrs t) \<Longrightarrow> intree h' {} t"
proof (induction t)
  case (Leaf a kvs)
  then show ?case by (simp add: intree_def)
next
  case (Branch a ets)
  have a: "a < length h'" "isLeaf (h' ! a) = isLeaf (h ! a)" "inodes (h' ! a) = inodes (h ! a)"
    using Branch.prems(2) by simp_all
  have "wchild h' {} a e \<and> intree h' {} (snd e)" if e: "e \<in> set ets" for e
  proof -
    have e': "(fst e, snd e) \<in> set ets" using e by simp
    have sub: "set (addrs (snd e)) \<subseteq> set (addrs (Branch a ets)) - {a}"
      using child_addrs [OF e', of a] Branch.prems(4) e by auto
    have "distinct (addrs (snd e))" using Branch.prems(4) e by (auto simp: distinct_concat_iff)
    moreover have "wchild h {} a e" "intree h {} (snd e)"
      using Branch.prems(1) e unfolding intree_Branch by blast+
    moreover have "\<forall>b\<in>set (addrs (snd e)). b < length h' \<and> isLeaf (h' ! b) = isLeaf (h ! b) \<and> inodes (h' ! b) = inodes (h ! b)"
      using Branch.prems(2) sub by blast
    moreover have nk: "\<forall>b\<in>set (addrs (snd e)). nkey (h' ! b) = nkey (h ! b)"
      using Branch.prems(3) sub by (metis raddr.simps(2) subsetD)
    ultimately have "intree h' {} (snd e)" by (intro Branch.IH [OF e']) blast+
    moreover have "wchild h' {} a e"
      using \<open>wchild h {} a e\<close> nk raddr_in_addrs [of "snd e"] by (simp add: wchild_def)
    ultimately show ?thesis by blast
  qed
  then show ?case using Branch.prems(1) a unfolding intree_Branch by simp
qed

lemma tkeys_Branch: "tkeys (Branch a ets) = (\<Union>e\<in>set ets. insert (fst e) (tkeys (snd e)))"
  by (auto simp: tkeys_def)

lemma tkeys_mono: "set es \<subseteq> set ets \<Longrightarrow> tkeys (Branch a es) \<subseteq> tkeys (Branch b ets)"
  unfolding tkeys_Branch by (rule UN_mono) auto

lemma addrs_branch_parts:
  assumes "length as = length etss" and "distinct as" and "distinct (addrs_of (concat etss))"
    and "set as \<inter> set (addrs_of (concat etss)) = {}"
  shows "distinct (concat (map addrs (map2 Branch as etss))) \<and>
    set (concat (map addrs (map2 Branch as etss))) = set as \<union> set (addrs_of (concat etss))"
  using assms
proof (induction as etss rule: list_induct2)
  case (Cons a as ets etss)
  let ?R = "concat (map addrs (map2 Branch as etss))"
  have i: "set (a # as) \<inter> (set (addrs_of ets) \<union> set (addrs_of (concat etss))) = {}"
    using Cons.prems(3) by simp
  have d: "distinct (a # as)" "distinct (addrs_of ets)" "distinct (addrs_of (concat etss))"
    "set (addrs_of ets) \<inter> set (addrs_of (concat etss)) = {}"
    using Cons.prems(1,2) by simp_all
  have "distinct as" "set as \<inter> set (addrs_of (concat etss)) = {}"
    using d(1) i by (simp, unfold list.set, blast)
  then have IH: "distinct ?R" "set ?R = set as \<union> set (addrs_of (concat etss))"
    using Cons.IH [OF _ d(3)] by blast+
  have eq: "concat (map addrs (map2 Branch (a # as) (ets # etss))) = (a # addrs_of ets) @ ?R"
    by simp
  have "distinct ((a # addrs_of ets) @ ?R)"
    unfolding distinct_append distinct.simps(2) IH(2) list.set
    using IH(1) d(1,2,4) i unfolding list.set distinct.simps(2) by blast
  moreover have "set ((a # addrs_of ets) @ ?R) = set (a # as) \<union> set (addrs_of (concat (ets # etss)))"
    unfolding set_append IH(2) concat.simps map_append concat_append list.set by blast
  ultimately show ?case unfolding eq by blast
qed simp

lemma branch_parts:
  assumes "intree (heap w) {} (Branch n ets)" and "ok lo hi (Branch n ets)" and "split_of w n w' ns"
    and "distinct (addrs (Branch n ets))"
  shows "\<exists>etss. length etss = length ns \<and> concat etss = ets \<and>
    parts (heap w') lo hi (Branch n ets) (map2 Branch ns etss)"
proof -
  have s: "concat (map (\<lambda>a. inodes (heap w' ! a)) ns) = inodes (heap w ! n)" "distinct ns" "hd ns = n" "ns \<noteq> []"
    "set (tl ns) \<subseteq> {length (heap w)..<length (heap w')}" "length (heap w) \<le> length (heap w')"
    "\<forall>a\<in>set ns. isLeaf (heap w' ! a) = isLeaf (heap w ! n)"
    "\<forall>b<length (heap w). b \<noteq> n \<longrightarrow> heap w' ! b = heap w ! b"
    using assms(3) by (simp_all add: split_of_def)
  have n: "n < length (heap w)" "\<not> isLeaf (heap w ! n)" "ets \<noteq> []" "oks lo hi ets"
    "list_all2 branch_entry (inodes (heap w ! n)) ets"
    using assms(1,2) by (auto simp: intree_def)
  have ne: "inodes (heap w' ! a) \<noteq> []" if "a \<in> set ns" for a
  proof (cases "tl ns = []")
    case True
    then have "w' = w" "a = n" using assms(3) that s(3,4) by (cases ns; simp add: split_of_def)+
    then show ?thesis using n(3,5) by auto
  next
    case False
    then have "minKeys (heap w ! n) \<le> length (inodes (heap w' ! a))"
      using assms(3) that by (simp add: split_of_def)
    then show ?thesis by (auto simp: minKeys_def split: if_splits)
  qed
  have l: "list_all2 branch_entry (concat (map (\<lambda>a. inodes (heap w' ! a)) ns)) ets"
    using n(5) s(1) by simp
  obtain etss where k: "list_all2 (list_all2 branch_entry) (map (\<lambda>a. inodes (heap w' ! a)) ns) etss" "concat etss = ets"
    using list_all2_concat_left [OF l] by blast
  have len: "length ns = length etss" using list_all2_lengthD [OF k(1)] by simp
  have nth: "list_all2 branch_entry (inodes (heap w' ! (ns ! i))) (etss ! i)" if "i < length ns" for i
    using list_all2_nthD [OF k(1)] that by simp
  have lt: "a < length (heap w')" if "a \<in> set ns" for a
    using that s n(1) by (cases ns) auto
  have child: "wchild (heap w') {} a e \<and> intree (heap w') {} (snd e)" if e: "e \<in> set ets" for a e
  proof -
    have e': "(fst e, snd e) \<in> set ets" using e by simp
    have i: "intree (heap w) {} (snd e)" "wchild (heap w) {} n e"
      using assms(1) e unfolding intree_Branch by blast+
    have "n \<notin> set (addrs (snd e))" using assms(4) e by auto
    moreover have "\<forall>b\<in>set (addrs (snd e)). b < length (heap w)"
      using repr_addrs i(1) unfolding intree_def by blast
    ultimately have sm: "same_on (set (addrs (snd e))) (heap w) {} (heap w') {}"
      using s(6,8) unfolding same_on_def by blast
    have "wchild (heap w') {} a e"
      using i(2) sm raddr_in_addrs [of "snd e"] by (simp add: wchild_def same_on_def)
    then show ?thesis using intree_same [OF i(1) sm] by blast
  qed
  have t: "intree (heap w') {} t' \<and> first_key t' = fkey (heap w' ! raddr t') \<and> inodes (heap w' ! raddr t') \<noteq> [] \<and>
      tkeys t' \<subseteq> tkeys (Branch n ets) \<and> first_key t' \<in> tkeys (Branch n ets) \<and> (tight (Branch n ets) \<longrightarrow> tight t')"
    if t': "t' \<in> set (map2 Branch ns etss)" for t'
  proof -
    obtain i where i: "i < length ns" "t' = Branch (ns ! i) (etss ! i)"
      using t' len by (auto simp: in_set_conv_nth)
    have ine: "inodes (heap w' ! (ns ! i)) \<noteq> []" using ne i(1) by simp
    then have hd: "etss ! i \<noteq> []" "branch_entry (hd (inodes (heap w' ! (ns ! i)))) (hd (etss ! i))"
      using nth [OF i(1)] by (cases "inodes (heap w' ! (ns ! i))"; auto simp: list_all2_Cons1)+
    have sub: "set (etss ! i) \<subseteq> set ets" using k(2) nth_mem [of i etss] i(1) len by fastforce
    have m: "ns ! i \<in> set ns" using i(1) by simp
    have "\<not> isLeaf (heap w' ! (ns ! i))" using s(7) m n(2) by simp
    moreover have "\<forall>e\<in>set (etss ! i). wchild (heap w') {} (ns ! i) e \<and> intree (heap w') {} (snd e)"
      using sub child by blast
    ultimately have "intree (heap w') {} t'"
      unfolding i(2) intree_Branch using lt [OF m] nth [OF i(1)] by blast
    moreover have "tkeys t' \<subseteq> tkeys (Branch n ets)" unfolding i(2) by (rule tkeys_mono [OF sub])
    moreover have "hd (etss ! i) \<in> set ets" using sub hd(1) by auto
    then have "first_key t' \<in> tkeys (Branch n ets)" unfolding i(2) tkeys_Branch by auto
    moreover have "tight (Branch n ets) \<longrightarrow> tight t'" unfolding i(2) tight.simps using sub by blast
    moreover have "first_key t' = fkey (heap w' ! raddr t')" "inodes (heap w' ! raddr t') \<noteq> []"
      using hd ine i(2) by (simp_all add: fkey_def branch_entry_def)
    ultimately show ?thesis by blast
  qed
  have "[] \<notin> set etss"
  proof
    assume "[] \<in> set etss"
    then obtain i where "i < length ns" "etss ! i = []" using len by (auto simp: in_set_conv_nth)
    then show False using nth [of i] ne [of "ns ! i"] by auto
  qed
  then have "oks lo hi (map (\<lambda>t. (first_key t, t)) (map2 Branch ns etss))"
    by (rule oks_branch_parts [OF len]) (use n(4) k(2) in simp)
  moreover have "concat (map items (map2 Branch ns etss)) = items_of ets"
  proof -
    have "map items (map2 Branch ns etss) = map items_of etss" using len by (intro nth_equalityI) auto
    moreover have "concat (map items_of xss) = items_of (concat xss)" for xss :: "(bytes \<times> tree) list list"
      by (induction xss) auto
    ultimately show ?thesis unfolding k(2) [symmetric] by simp
  qed
  moreover have "distinct (concat (map addrs (map2 Branch ns etss)))"
    "set (concat (map addrs (map2 Branch ns etss))) \<subseteq> set (addrs (Branch n ets)) \<union> set ns"
  proof -
    have old: "b < length (heap w) \<and> b \<noteq> n" if "b \<in> set (addrs_of ets)" for b
    proof -
      have "b \<in> set (addrs (Branch n ets))" "n \<notin> set (addrs_of ets)" using that assms(4) by simp_all
      then show ?thesis using repr_addrs assms(1) that unfolding intree_def by blast
    qed
    have "b = n \<or> length (heap w) \<le> b" if "b \<in> set ns" for b
      using s(3,4,5) that by (cases ns) auto
    then have "set ns \<inter> set (addrs_of (concat etss)) = {}"
      unfolding k(2) using old by (meson disjoint_iff linorder_not_less)
    moreover have "distinct (addrs_of (concat etss))" using assms(4) unfolding k(2) by simp
    ultimately show "distinct (concat (map addrs (map2 Branch ns etss)))"
      "set (concat (map addrs (map2 Branch ns etss))) \<subseteq> set (addrs (Branch n ets)) \<union> set ns"
      using addrs_branch_parts [OF len s(2)] k(2) by auto
  qed
  moreover have ra: "map raddr (map2 Branch ns etss) = ns"
    using len by (intro nth_equalityI) auto
  moreover have "\<forall>t'\<in>set (map2 Branch ns etss). intree (heap w') {} t' \<and>
      first_key t' = fkey (heap w' ! raddr t') \<and> inodes (heap w' ! raddr t') \<noteq> [] \<and>
      tkeys t' \<subseteq> tkeys (Branch n ets) \<and> first_key t' \<in> tkeys (Branch n ets) \<and> (tight (Branch n ets) \<longrightarrow> tight t')"
    using t by blast
  ultimately have "parts (heap w') lo hi (Branch n ets) (map2 Branch ns etss)"
    unfolding parts_def items.simps ra by blast
  then show ?thesis using len k(2) by metis
qed


section \<open>Finalizing a node whose children are done\<close>

definition settled :: "wst \<Rightarrow> addr \<Rightarrow> bool" where
  "settled w n \<longleftrightarrow> (\<forall>i\<in>set (inodes (heap w ! n)). \<forall>c. ichild i = Some c \<longrightarrow> c \<in> dirty w \<longrightarrow> spilled (heap w ! c))"

lemma finalize_children_settled:
  assumes "settled w n" and "0 < f" and "len \<le> length (inodes (heap w ! n))"
  shows "finalize_children f n len i w = Inr w"
proof (induction "len - i" arbitrary: i)
  case (Suc x)
  then have i: "i < length (inodes (heap w ! n))" "i < len" using assms(3) by auto
  obtain f' where f: "f = Suc f'" using assms(2) by (cases f) auto
  have "(case ichild (inodes (heap w ! n) ! i) of None \<Rightarrow> Inr w
      | Some c \<Rightarrow> if c \<in> dirty w then finalize f c w else Inr w) = Inr w"
    using assms(1) i(1) f by (auto simp: settled_def split: option.splits dest: nth_mem)
  moreover have "finalize_children f n len (Suc i) w = Inr w" using Suc by simp
  ultimately show ?case using i by simp
qed simp

declare finalize_children.simps [simp del]

lemma split_parts:
  assumes "intree (heap w) {} t" and "ok lo hi t" and "distinct (addrs t)" and "split_of w (raddr t) w' ns"
    and "inodes (heap w ! raddr t) \<noteq> []"
  shows "\<exists>ts. map raddr ts = ns \<and> parts (heap w') lo hi t ts"
proof (cases t)
  case (Leaf n kvs)
  obtain kvss where "length kvss = length ns" "parts (heap w') lo hi t (map2 Leaf ns kvss)"
    using leaf_parts [of w n kvs lo hi w' ns] assms Leaf by (auto simp: intree_def)
  moreover from this(1) have "map raddr (map2 Leaf ns kvss) = ns" by (intro nth_equalityI) auto
  ultimately show ?thesis by blast
next
  case (Branch n ets)
  obtain etss where "length etss = length ns" "parts (heap w') lo hi t (map2 Branch ns etss)"
    using branch_parts [of w n ets lo hi w' ns] assms Branch by auto
  moreover from this(1) have "map raddr (map2 Branch ns etss) = ns" by (intro nth_equalityI) auto
  ultimately show ?thesis by blast
qed

lemma distinct_concat_nth_disjoint:
  assumes "distinct (concat xss)" and "i < length xss" and "j < length xss" and "i \<noteq> j"
  shows "set (xss ! i) \<inter> set (xss ! j) = {}"
  using assms
proof (induction xss arbitrary: i j)
  case (Cons xs xss)
  have d: "set xs \<inter> set ys = {}" if "ys \<in> set xss" for ys using Cons.prems(1) that by auto
  show ?case
  proof (cases i)
    case 0
    then show ?thesis using Cons.prems d [of "xss ! (j - 1)"] by (cases j) auto
  next
    case (Suc i')
    then show ?thesis using Cons.prems Cons.IH [of i'] d [of "xss ! i'"] by (cases j) auto
  qed
qed simp

text \<open>The tree of a parent that holds exactly the parts.\<close>

lemma intree_over_parts:
  assumes "parts h lo hi t ts" and "p < length h'" and "\<not> isLeaf (h' ! p)"
    and "inodes (h' ! p) = map (child_entry h) (map raddr ts)"
    and "\<forall>a\<in>set (map raddr ts). h' ! a = spilled_node (h ! a)"
    and "\<forall>b\<in>set (concat (map addrs ts)). b \<notin> set (map raddr ts) \<longrightarrow> h' ! b = h ! b"
    and "length h \<le> length h'"
  shows "intree h' {} (Branch p (map (\<lambda>t. (first_key t, t)) ts))"
proof -
  have P: "intree h {} t'" "first_key t' = fkey (h ! raddr t')" if "t' \<in> set ts" for t'
    using assms(1) that by (auto simp: parts_def)
  have "distinct (addrs t')" if "t' \<in> set ts" for t'
    using assms(1) that by (auto simp: parts_def distinct_concat_iff)
  moreover have v: "isLeaf (h' ! b) = isLeaf (h ! b) \<and> inodes (h' ! b) = inodes (h ! b)"
    if "t' \<in> set ts" "b \<in> set (addrs t')" for t' b
    using assms(5,6) that by (cases "b \<in> set (map raddr ts)") auto
  moreover have nk: "nkey (h' ! b) = nkey (h ! b)" if t': "t' \<in> set ts" and b: "b \<in> set (addrs t') - {raddr t'}" for t' b
  proof -
    have "b \<noteq> raddr t''" if t'': "t'' \<in> set ts" for t''
    proof
      assume e: "b = raddr t''"
      obtain i j where ij: "i < length ts" "ts ! i = t'" "j < length ts" "ts ! j = t''"
        using t' t'' by (auto simp: in_set_conv_nth)
      have d: "distinct (concat (map addrs ts))" using assms(1) by (simp add: parts_def)
      have "i \<noteq> j" using e b ij by auto
      then have "set (addrs t') \<inter> set (addrs t'') = {}"
        using d ij distinct_concat_iff [of "map addrs ts"]
        by (metis distinct_concat_nth_disjoint length_map nth_map)
      then show False using e b raddr_in_addrs [of t''] by blast
    qed
    then have "b \<notin> raddr ` set ts" by blast
    then have "h' ! b = h ! b" using assms(6) t' b by auto
    then show ?thesis by simp
  qed
  ultimately have "intree h' {} t'" if "t' \<in> set ts" for t'
    using intree_view [OF P(1) [OF that], of h'] repr_addrs [of h t'] P(1) [OF that] that assms(7)
    by (fastforce simp: intree_def)
  moreover have "wchild h' {} p (first_key t', t')" if "t' \<in> set ts" for t'
    using that assms(5) P(2) by (simp add: wchild_def)
  moreover have "list_all2 branch_entry (inodes (h' ! p)) (map (\<lambda>t. (first_key t, t)) ts)"
    unfolding assms(4) using P(2)
    by (auto simp: list_all2_conv_all_nth branch_entry_def child_entry_def)
  ultimately show ?thesis unfolding intree_Branch using assms(2,3) by auto
qed


lemma parts_over:
  assumes "parts h [] None t ts" and "ts \<noteq> []" and "p \<notin> set (addrs t) \<union> set (map raddr ts)"
    and "t1 = Branch p (map (\<lambda>t. (first_key t, t)) ts)"
  shows "btree t1" and "items t1 = items t" and "tkeys t1 \<subseteq> tkeys t" and "tight t \<Longrightarrow> tight t1"
proof -
  have P: "oks [] None (map (\<lambda>t. (first_key t, t)) ts)" "concat (map items ts) = items t"
    "distinct (concat (map addrs ts))" "set (concat (map addrs ts)) \<subseteq> set (addrs t) \<union> set (map raddr ts)"
    "\<forall>t'\<in>set ts. tkeys t' \<subseteq> tkeys t \<and> first_key t' \<in> tkeys t"
    using assms(1) unfolding parts_def by blast+
  have "p \<notin> set (concat (map addrs ts))" using P(4) assms(3) by blast
  then show "btree t1" using P(1,3) assms(2,4) by (simp add: btree_def comp_def)
  show "items t1 = items t" using P(2) assms(4) by (simp add: comp_def)
  show "tkeys t1 \<subseteq> tkeys t" unfolding assms(4) tkeys_Branch using P(5) by auto
  have "root_keys t' \<noteq> []" if "t' \<in> set ts" for t'
    using assms(1) that repr_root_keys [of h t'] by (auto simp: parts_def intree_def)
  then show "tight t \<Longrightarrow> tight t1" using assms(1) hd_root_keys unfolding assms(4) parts_def by auto
qed

lemma parts_ascending:
  assumes "parts h lo hi t ts"
  shows "ascending (map (\<lambda>a. fkey (h ! a)) (map raddr ts))"
proof -
  have "oks lo hi (map (\<lambda>t. (first_key t, t)) ts)" using assms unfolding parts_def by blast
  then have "ascending (map fst (map (\<lambda>t. (first_key t, t)) ts))" by (rule oks_ascending_seps)
  moreover have "map fst (map (\<lambda>t. (first_key t, t)) ts) = map (\<lambda>a. fkey (h ! a)) (map raddr ts)"
    using assms by (simp add: parts_def comp_def)
  ultimately show ?thesis by (simp only:)
qed

text \<open>
  The result of finalizing the topmost node: the parent pointers lead from it to the root
  of a tree with the same pairs.
\<close>

definition finalized :: "wst \<Rightarrow> addr \<Rightarrow> tree \<Rightarrow> wst \<Rightarrow> bool" where
  "finalized w n t w' \<longleftrightarrow>
     (\<exists>t' m. intree (heap w') {} t' \<and> btree t' \<and> items t' = items t \<and> tkeys t' \<subseteq> tkeys t \<and> (tight t \<longrightarrow> tight t') \<and>
        node_root (Suc m) (heap w') n = Inr (raddr t') \<and> m + length (heap w) \<le> length (heap w') \<and>
        raddr t' \<in> dirty w' \<and> set (addrs t') \<subseteq> set (addrs t) \<union> {length (heap w)..}) \<and>
     (\<forall>b<length (heap w). b \<noteq> n \<longrightarrow> heap w' ! b = heap w ! b) \<and> rootNode w' = rootNode w"

lemma finalize_unsplit:
  assumes "intree (heap w) {} t" and "btree t" and "raddr t = n" and "n \<in> dirty w"
    and "parent (heap w ! n) = None"
  shows "\<exists>w'. finalize_node n w = Inr w' \<and> finalized w n t w' \<and> parent (heap w' ! n) = None \<and>
           inodes (heap w' ! n) = inodes (heap w ! n)"
proof -
  let ?w = "upd_node n (\<lambda>x. x\<lparr>spilled := True\<rparr>) w"
  let ?w' = "?w\<lparr>stats := IncSpill 1 (stats ?w)\<rparr>"
  have lt: "n < length (heap w)" using assms(1,3) repr_raddr by (auto simp: intree_def)
  have h: "heap ?w' ! n = (heap w ! n)\<lparr>spilled := True\<rparr>" "\<And>b. b \<noteq> n \<Longrightarrow> heap ?w' ! b = heap w ! b"
    "length (heap ?w') = length (heap w)"
    using lt by (auto simp: upd_node_def)
  have "finalize_node n w = Inr ?w'"
    using assms(5) h(1) by (simp add: finalize_node_def Let_def)
  moreover have "intree (heap ?w') {} t"
  proof (rule intree_view [OF assms(1)])
    have "isLeaf (heap ?w' ! b) = isLeaf (heap w ! b) \<and> inodes (heap ?w' ! b) = inodes (heap w ! b)" for b
      using h(1) h(2) [of b] by (cases "b = n") simp_all
    then show "\<forall>b\<in>set (addrs t). b < length (heap ?w') \<and> isLeaf (heap ?w' ! b) = isLeaf (heap w ! b) \<and>
        inodes (heap ?w' ! b) = inodes (heap w ! b)"
      using h(3) repr_addrs [of "heap w" t] assms(1) by (simp add: intree_def)
    show "\<forall>b\<in>set (addrs t) - {raddr t}. nkey (heap ?w' ! b) = nkey (heap w ! b)"
      using h(2) assms(3) by simp
  qed (use assms(2) in \<open>simp add: btree_def\<close>)
  moreover have "node_root (Suc 0) (heap ?w') n = Inr (raddr t)" using h(1) assms(3,5) by simp
  ultimately have "finalized w n t ?w'"
    unfolding finalized_def using assms(2-4) h
    by (intro conjI exI [of _ t] exI [of _ 0]) (auto simp: upd_node_def)
  then show ?thesis using \<open>finalize_node n w = Inr ?w'\<close> h(1) assms(5) by auto
qed

text \<open>A root that is split: its parts are done and hang below a new root.\<close>

lemma split_root:
  assumes "intree (heap w) {} t" and "btree t" and "keys_ok t" and "raddr t = n" and "n \<in> dirty w" and "owned w"
    and "parent (heap w ! n) = None" and "split n w = (ns, w1)" and "tl ns \<noteq> []"
  shows "\<exists>ts w2. map raddr ts = ns \<and> parts (heap w1) [] None t ts \<and> finalize_nodes ns w1 = Inr w2 \<and>
     (\<forall>a\<in>set ns. heap w2 ! a = spilled_node (heap w1 ! a) \<and> parent (heap w2 ! a) = Some (length (heap w))) \<and>
     heap w2 ! length (heap w) = new_node\<lparr>bucket := bucket (heap w ! n), inodes := map (child_entry (heap w1)) ns\<rparr> \<and>
     (\<forall>b<length (heap w). b \<noteq> n \<longrightarrow> heap w2 ! b = heap w ! b) \<and>
     length (heap w) < length (heap w2) \<and> dirty w2 = dirty w \<union> {length (heap w)..<length (heap w2)} \<and>
     rootNode w2 = rootNode w \<and> owned w2 \<and> evolves w w2 \<and>
     length (heap w) \<notin> set (addrs t) \<union> set ns \<and> intree (heap w2) {} (Branch (length (heap w)) (map (\<lambda>t. (first_key t, t)) ts)) \<and>
     settled w2 (length (heap w)) \<and> set ns \<subseteq> insert n {length (heap w)..} \<and> length ns < length (inodes (heap w ! n))"
proof -
  let ?p = "length (heap w)"
  have lt: "n < length (heap w)" using assms(1,4) repr_raddr by (auto simp: intree_def)
  have so: "split_of w n w1 ns" using split_spec [OF assms(8) lt] by blast
  have so': "length ns < length (inodes (heap w ! n))" "parent (heap w1 ! n) = Some ?p"
    "?p < length (heap w1)" "heap w1 ! ?p = new_node\<lparr>bucket := bucket (heap w ! n)\<rparr>" "?p \<notin> set ns"
    "distinct ns" "\<forall>a\<in>set ns. parent (heap w1 ! a) = parent (heap w1 ! n)"
    "\<forall>a\<in>set (tl ns). nkey (heap w1 ! a) = []"
    "\<forall>b<length (heap w). b \<noteq> n \<longrightarrow> heap w1 ! b = heap w ! b" "rootNode w1 = rootNode w"
    "dirty w1 = dirty w \<union> {length (heap w)..<length (heap w1)}" "set (tl ns) \<subseteq> {length (heap w)..<length (heap w1)}"
    using so assms(7,9) by (simp_all add: split_of_def)
  have ns: "ns = n # tl ns" using so by (cases ns) (auto simp: split_of_def)
  have sub: "set ns \<subseteq> insert n {?p..}" "b < ?p \<Longrightarrow> b \<noteq> n \<Longrightarrow> b \<notin> set ns" for b
  proof -
    have "set ns = insert n (set (tl ns))" using ns by (metis list.simps(15))
    then show "set ns \<subseteq> insert n {?p..}" "b < ?p \<Longrightarrow> b \<noteq> n \<Longrightarrow> b \<notin> set ns" using so'(12) by auto
  qed
  have ok: "ok [] None t" "distinct (addrs t)" using assms(2) by (simp_all add: btree_def)
  have "inodes (heap w ! n) \<noteq> []" using so'(1) by auto
  then obtain ts where ts: "map raddr ts = ns" "parts (heap w1) [] None t ts"
    using split_parts [OF assms(1) ok] so assms(4) by blast
  have P: "\<forall>t'\<in>set ts. first_key t' = fkey (heap w1 ! raddr t') \<and> inodes (heap w1 ! raddr t') \<noteq> [] \<and>
      first_key t' \<in> tkeys t \<and> intree (heap w1) {} t'"
    using ts(2) unfolding parts_def by blast
  have A: "a < length (heap w1) \<and> inodes (heap w1 ! a) \<noteq> [] \<and> fkey (heap w1 ! a) \<noteq> []" if "a \<in> set ns" for a
  proof -
    obtain t' where t': "t' \<in> set ts" "raddr t' = a" using \<open>a \<in> set ns\<close> ts(1) by auto
    then have "fkey (heap w1 ! a) \<noteq> []" using P assms(3) by (metis keys_ok_def)
    then show ?thesis using P t' repr_raddr by (auto simp: intree_def)
  qed
  have A': "\<forall>a\<in>set (n # tl ns). parent (heap w1 ! a) = Some ?p \<and> a < length (heap w1) \<and>
      inodes (heap w1 ! a) \<noteq> [] \<and> fkey (heap w1 ! a) \<noteq> []"
    using A so'(2,7) ns by metis
  have asc: "ascending (map (\<lambda>a. fkey (heap w1 ! a)) ns)"
    using parts_ascending [OF ts(2)] ts(1) by simp
  obtain w2 where w2: "finalize_nodes ns w1 = Inr w2"
    "\<forall>a\<in>set ns. heap w2 ! a = spilled_node (heap w1 ! a)"
    "heap w2 ! ?p = (heap w1 ! ?p)\<lparr>inodes := map (child_entry (heap w1)) ns\<rparr>"
    "\<forall>b. b \<notin> set ns \<longrightarrow> b \<noteq> ?p \<longrightarrow> heap w2 ! b = heap w1 ! b"
    "length (heap w2) = length (heap w1)" "dirty w2 = dirty w1" "rootNode w2 = rootNode w1"
    using finalize_parts_spec [OF A' so'(8,3), of _ "[]" "[]"] so'(4,5,6) ns asc
    by (auto simp: new_node_def)
  have pa: "?p \<notin> set (addrs t) \<union> set ns"
    using repr_addrs [of "heap w" t ?p] assms(1) so'(5) by (auto simp: intree_def)
  have "intree (heap w2) {} (Branch ?p (map (\<lambda>t. (first_key t, t)) ts))"
  proof (rule intree_over_parts [OF ts(2)])
    show "\<forall>b\<in>set (concat (map addrs ts)). b \<notin> set (map raddr ts) \<longrightarrow> heap w2 ! b = heap w1 ! b"
      using w2(4) ts pa by (auto simp: parts_def)
  qed (use w2 so'(3,4) ts(1) in \<open>auto simp: new_node_def\<close>)
  moreover have "owned w2 \<and> evolves w w2"
    using split_step [OF assms(8,5,6)] finalize_nodes_step [OF w2(1)] evolves_trans by blast
  moreover have "settled w2 ?p"
    unfolding settled_def w2(3) using w2(2) by (auto simp: child_entry_def)
  moreover have "\<forall>a\<in>set ns. parent (heap w2 ! a) = Some ?p" using w2(2) so'(2,7) by simp
  ultimately show ?thesis
    using ts w2 pa sub so'(1,3,4,9-11) by (intro exI [of _ ts] exI [of _ w2]) (simp add: new_node_def)
qed

lemma finalize_top:
  assumes "intree (heap w) {} t" and "btree t" and "keys_ok t" and "raddr t = n" and "n \<in> dirty w"
    and "owned w" and "parent (heap w ! n) = None" and "\<not> spilled (heap w ! n)" and "settled w n"
    and "length (inodes (heap w ! n)) + 2 \<le> f"
  shows "\<exists>w'. finalize f n w = Inr w' \<and> finalized w n t w' \<and> inodes (heap w' ! n) = inodes (heap (snd (split n w)) ! n)"
  using assms
proof (induction "length (inodes (heap w ! n))" arbitrary: w n t f rule: less_induct)
  case less
  obtain f' where f: "f = Suc f'" "0 < f'" using less.prems(10) by (cases f) auto
  have lt: "n < length (heap w)" using less.prems(1,4) repr_raddr by (auto simp: intree_def)
  obtain ns w1 where sp: "split n w = (ns, w1)" by fastforce
  have so: "split_of w n w1 ns" using split_spec [OF sp lt] by blast
  have run: "finalize f n w = rbind (finalize_nodes ns w1) (\<lambda>w. case parent (heap w ! n) of
       None \<Rightarrow> Inr w | Some p \<Rightarrow> if spilled (heap w ! p) then Inr w else finalize f' p w)"
    using less.prems(8) finalize_children_settled [OF less.prems(9) f(2) order_refl] sp f(1) by simp
  show ?case
  proof (cases "tl ns = []")
    case True
    then have "w1 = w" "ns = [n]" using so by (cases ns; simp add: split_of_def)+
    moreover obtain w' where "finalize_node n w = Inr w'" "finalized w n t w'" "parent (heap w' ! n) = None"
      "inodes (heap w' ! n) = inodes (heap w ! n)"
      using finalize_unsplit [OF less.prems(1,2,4,5,7)] by blast
    ultimately show ?thesis using run sp by simp
  next
    case False
    let ?p = "length (heap w)"
    from split_root [OF less.prems(1-7) sp False] obtain ts w2 where ts: "map raddr ts = ns" "parts (heap w1) [] None t ts"
      and w2: "finalize_nodes ns w1 = Inr w2" "\<forall>a\<in>set ns. heap w2 ! a = spilled_node (heap w1 ! a) \<and> parent (heap w2 ! a) = Some ?p"
      "heap w2 ! ?p = new_node\<lparr>bucket := bucket (heap w ! n), inodes := map (child_entry (heap w1)) ns\<rparr>"
      "\<forall>b<length (heap w). b \<noteq> n \<longrightarrow> heap w2 ! b = heap w ! b" "?p < length (heap w2)"
      "dirty w2 = dirty w \<union> {?p..<length (heap w2)}" "rootNode w2 = rootNode w" "owned w2 \<and> evolves w w2" "?p \<notin> set (addrs t) \<union> set ns"
      "intree (heap w2) {} (Branch ?p (map (\<lambda>t. (first_key t, t)) ts))" "settled w2 ?p" "set ns \<subseteq> insert n {?p..}"
      "length ns < length (inodes (heap w ! n))" by auto
    let ?t1 = "Branch ?p (map (\<lambda>t. (first_key t, t)) ts)"
    have ns: "ns = n # tl ns" using so by (cases ns) (auto simp: split_of_def)
    have tne: "ts \<noteq> []" using ts(1) ns by auto
    note t1 = parts_over [OF ts(2) tne _ refl, of ?p]
    have ph: "parent (heap w2 ! ?p) = None" "\<not> spilled (heap w2 ! ?p)" "length (inodes (heap w2 ! ?p)) = length ns" "?p \<in> dirty w2"
      using w2(3,5,6) by (simp_all add: new_node_def)
    obtain w' where w': "finalize f' ?p w2 = Inr w'" "finalized w2 ?p ?t1 w'"
      using less.hyps [of w2 ?p ?t1 f'] t1 ph w2(8-11,13) ts(1) less.prems(3,10) f by (auto simp: keys_ok_def)
    have "n \<in> set ns" using ns by (metis list.set_intros(1))
    then have n2: "parent (heap w2 ! n) = Some ?p" "n \<noteq> ?p" "n < length (heap w2)" using w2(2,5) lt by auto
    then have "finalize f n w = Inr w'" using run w2(1) ph w'(1) by simp
    moreover have "finalized w n t w'"
    proof -
      obtain t' m where t': "intree (heap w') {} t'" "btree t'" "items t' = items ?t1" "tkeys t' \<subseteq> tkeys ?t1"
        "node_root (Suc m) (heap w') ?p = Inr (raddr t')" "m + length (heap w2) \<le> length (heap w')" "raddr t' \<in> dirty w'"
        "set (addrs t') \<subseteq> set (addrs ?t1) \<union> {length (heap w2)..}" "tight ?t1 \<longrightarrow> tight t'"
        and fr: "\<forall>b<length (heap w2). b \<noteq> ?p \<longrightarrow> heap w' ! b = heap w2 ! b" "rootNode w' = rootNode w2"
        using w'(2) unfolding finalized_def by blast
      have "node_root (Suc (Suc m)) (heap w') n = Inr (raddr t')"
        using fr(1) n2 t'(5) by simp
      moreover have "heap w' ! b = heap w ! b" if "b < length (heap w)" "b \<noteq> n" for b
        using fr(1) w2(4,5) that by auto
      moreover have "set (addrs t') \<subseteq> set (addrs t) \<union> {length (heap w)..}"
      proof -
        have "set (addrs ?t1) \<subseteq> insert ?p (set (addrs t) \<union> set ns)"
          using ts by (auto simp: parts_def)
        also have "\<dots> \<subseteq> set (addrs t) \<union> {length (heap w)..}" using w2(12) less.prems(4) by auto
        finally show ?thesis using t'(8) w2(5) by fastforce
      qed
      ultimately show ?thesis
        unfolding finalized_def
        using t' t1 fr(2) w2(5,7,9) ts(1) by (intro conjI exI [of _ t'] exI [of _ "Suc m"]) auto
    qed
    moreover have "heap w' ! n = heap w2 ! n" using w'(2) n2(2,3) by (simp add: finalized_def)
    then have "inodes (heap w' ! n) = inodes (heap w1 ! n)" using w2(2) ns by (metis list.set_intros(1) spilled_node_simps(1))
    ultimately show ?thesis using sp by auto
  qed
qed


section \<open>Committing a bucket whose root is a leaf\<close>

lemma node_root_mono: "node_root f h n = Inr r \<Longrightarrow> f \<le> f' \<Longrightarrow> node_root f' h n = Inr r"
proof (induction f arbitrary: n f')
  case (Suc f)
  then show ?case by (cases f') (auto split: option.splits)
qed simp

lemma winv_stats [simp]: "winv (w\<lparr>stats := x\<rparr>) t = winv w t"
  by (simp add: winv_def rootView_def owned_def fresh_def cong: option.case_cong)

lemma rebalance_leaf_root:
  assumes "winv w (Leaf r kvs)" and "rootNode w = Some r"
  shows "\<exists>w'. rebalance (Suc f) r w = Inr w' \<and> winv w' (Leaf r kvs) \<and> rootNode w' = Some r \<and> dirty w' = dirty w"
proof -
  let ?n = "(heap w ! r)\<lparr>unbalanced := False\<rparr>"
  let ?w = "(upd_node r (\<lambda>_. ?n) w)\<lparr>stats := IncRebalance 1 (stats w)\<rparr>"
  have w: "r \<in> dirty w" "r < length (heap w)" "isLeaf (heap w ! r)" "parent (heap w ! r) = None"
    "list_all2 leaf_entry (inodes (heap w ! r)) kvs" "ok [] None (Leaf r kvs)"
    using assms by (auto simp: winv_def intree_def owned_def btree_def)
  have "winv ?w (Leaf r kvs)"
    using winv_set_leaf [OF assms(1), of "[0]" ?n kvs] w assms(2) by simp
  moreover have "rebalance (Suc f) r w = Inr (if unbalanced (heap w ! r) then ?w else w)"
    using w by (auto simp: Let_def upd_node_def collapse_root_def)
  ultimately show ?thesis using assms by (auto simp: upd_node_def)
qed

lemma bucket_rebalance_leaf_root:
  assumes "winv w (Leaf r kvs)" and "rootNode w = Some r" and "set ord \<subseteq> dirty w"
  shows "\<exists>w'. bucket_rebalance ord w = Inr w' \<and> winv w' (Leaf r kvs) \<and> rootNode w' = Some r"
  using assms
proof (induction ord arbitrary: w)
  case (Cons n ord)
  have "n = r" using Cons.prems(1,3) by (auto simp: winv_def)
  moreover obtain f where "dfuel (heap w) = Suc f" by (simp add: dfuel_def)
  ultimately show ?case
    using rebalance_leaf_root [OF Cons.prems(1,2), of f] Cons.IH Cons.prems(3) by fastforce
qed simp

lemma ffuel_node: "n < length (heap w) \<Longrightarrow> length (inodes (heap w ! n)) + 2 \<le> ffuel w"
  using member_le_sum_list [of "length (inodes (heap w ! n))" "map (\<lambda>n. length (inodes n)) (heap w)"]
  by (simp add: ffuel_def)

lemma bucket_spill_settled:
  assumes "intree (heap w) {} t" and "btree t" and "keys_ok t" and "owned w" and "rootNode w = Some (raddr t)"
    and "parent (heap w ! raddr t) = None" and "\<not> spilled (heap w ! raddr t)" and "settled w (raddr t)"
  shows "\<exists>w' t'. bucket_spill w = Inr w' \<and> intree (heap w') {} t' \<and> btree t' \<and> items t' = items t \<and>
           tkeys t' \<subseteq> tkeys t \<and> (tight t \<longrightarrow> tight t') \<and> rootNode w' = Some (raddr t') \<and> owned w' \<and> evolves w w' \<and>
           set (addrs t') \<subseteq> set (addrs t) \<union> {length (heap w)..}"
proof -
  let ?r = "raddr t"
  have r: "?r \<in> dirty w" "?r < length (heap w)"
    using assms(4,5) by (auto simp: owned_def)
  obtain w1 where w1: "finalize (ffuel w) ?r w = Inr w1" "finalized w ?r t w1"
    using finalize_top [OF assms(1-3) refl r(1) assms(4,6-8) ffuel_node [OF r(2)]] by blast
  obtain t' m where t': "intree (heap w1) {} t'" "btree t'" "items t' = items t" "tkeys t' \<subseteq> tkeys t"
    "node_root (Suc m) (heap w1) ?r = Inr (raddr t')" "m + length (heap w) \<le> length (heap w1)" "raddr t' \<in> dirty w1"
    "set (addrs t') \<subseteq> set (addrs t) \<union> {length (heap w)..}" "tight t \<longrightarrow> tight t'"
    using w1(2) unfolding finalized_def by blast
  have "node_root (dfuel (heap w1)) (heap w1) ?r = Inr (raddr t')"
    by (rule node_root_mono [OF t'(5)]) (use t'(6) r(2) in \<open>simp add: dfuel_def\<close>)
  then have "bucket_spill w = Inr (w1\<lparr>rootNode := Some (raddr t')\<rparr>)"
    using assms(5) w1(1) by (simp add: bucket_spill_def)
  moreover have "owned w1 \<and> evolves w w1"
    using finalize_step(1) [OF w1(1) r(1) assms(4)] .
  ultimately show ?thesis using t' by (auto simp: owned_def evolves_def)
qed

lemma publishRoot_spec:
  assumes "intree (heap w) {} t" and "btree t" and "rootNode w = Some (raddr t)"
  shows "\<exists>w'. publishRoot w = (Some \<lparr>root = Some (raddr t)\<rparr>, w') \<and> intree (heap w') {} t \<and>
           dirty w' = {} \<and> length (heap w') = length (heap w) \<and>
           (\<forall>a<length (heap w). heap w' ! a = (if a \<in> dirty w then detach_node (heap w ! a) else heap w ! a))"
proof -
  let ?w = "detachPublishedNodes w"
  have h: "heap ?w ! a = (if a \<in> dirty w then detach_node (heap w ! a) else heap w ! a)"
    if "a < length (heap w)" for a using that by (simp add: detachPublishedNodes_def)
  have l: "length (heap ?w) = length (heap w)" by (simp add: detachPublishedNodes_def)
  have "intree (heap ?w) {} t"
  proof (rule intree_view [OF assms(1)])
    have "\<forall>b\<in>set (addrs t). b < length (heap w)"
      using repr_addrs assms(1) unfolding intree_def by blast
    then show "\<forall>b\<in>set (addrs t). b < length (heap ?w) \<and> isLeaf (heap ?w ! b) = isLeaf (heap w ! b) \<and>
        inodes (heap ?w ! b) = inodes (heap w ! b)"
      "\<forall>b\<in>set (addrs t) - {raddr t}. nkey (heap ?w ! b) = nkey (heap w ! b)"
      using h l by (auto simp: detach_node_def)
  qed (use assms(2) in \<open>simp add: btree_def\<close>)
  then show ?thesis using h l assms(3)
    by (auto simp: publishRoot_def detachPublishedNodes_def)
qed

section \<open>Properties\<close>

text \<open>
  A bucket whose root is a leaf with three pairs of 70000 bytes each, more than a node may hold.
\<close>

definition example_big :: wst where
  "example_big = example_wst\<lparr>rootNode := Some 0, dirty := {0}, heap :=
     [new_node\<lparr>bucket := Some 0, isLeaf := True, inodes :=
        map (\<lambda>k. \<lparr>iflags = 0, ikey = [k], ivalue = replicate 70000 0, ichild = None\<rparr>) [1, 2, 3]\<rparr>]\<rparr>"

text \<open>
  C14: splitting a node distributes its entries, in order, over the node itself and new nodes of
  the same kind. Every part respects the size limit or has too few entries to be split, no part
  of a real split has fewer entries than the minimum, and no other existing node changes.
\<close>

theorem split_parts_fit:
  assumes "split n w = (ns, w')" and "n < length (heap w)"
  shows "concat (map (\<lambda>a. inodes (heap w' ! a)) ns) = inodes (heap w ! n) \<and> hd ns = n \<and> distinct ns \<and>
     (\<forall>a\<in>set ns. isLeaf (heap w' ! a) = isLeaf (heap w ! n) \<and>
        (length (inodes (heap w' ! a)) \<le> 2 * minKeys (heap w' ! a) \<or> node_size (heap w' ! a) \<le> defaultMaxNodeSizeBytes)) \<and>
     (1 < length ns \<longrightarrow> (\<forall>a\<in>set ns. minKeys (heap w ! n) \<le> length (inodes (heap w' ! a)))) \<and>
     (\<forall>b<length (heap w). b \<noteq> n \<longrightarrow> heap w' ! b = heap w ! b)"
proof -
  have s: "split_of w n w' ns" "\<forall>a\<in>set ns. fits (heap w' ! a)" using split_spec [OF assms] by simp_all
  have "1 < length ns \<longrightarrow> tl ns \<noteq> []" by (cases ns) auto
  then show ?thesis using s by (simp add: split_of_def fits_def)
qed

theorem split_parts_fit_witness:
  "\<exists>ns w'. split 0 example_big = (ns, w') \<and> 1 < length ns \<and>
     concat (map (\<lambda>a. inodes (heap w' ! a)) ns) = inodes (heap example_big ! 0)"
proof -
  obtain ns w' where s: "split 0 example_big = (ns, w')" by fastforce
  have len: "0 < length (heap example_big)" by (simp add: example_big_def)
  note p = split_parts_fit [OF s len]
  have "1 < length ns"
  proof (rule ccontr)
    assume "\<not> 1 < length ns"
    moreover have "ns \<noteq> []" using p by (auto simp: example_big_def)
    ultimately obtain a where "ns = [a]" by (cases ns; cases "tl ns"; simp)
    then have ns: "ns = [0]" using p by simp
    have i: "inodes (heap w' ! 0) = inodes (heap example_big ! 0)" "isLeaf (heap w' ! 0) = isLeaf (heap example_big ! 0)"
      using p by (simp_all add: ns)
    have "node_size (heap w' ! 0) = 210107" "minKeys (heap w' ! 0) = 1" "length (inodes (heap w' ! 0)) = 3"
      unfolding node_size_eq minKeys_def i by (simp_all add: example_big_def inode_size_def node_consts)
    then show False using p unfolding ns by (simp add: node_consts)
  qed
  then show ?thesis using s p by blast
qed

text \<open>What the stages of a commit do to the nodes a transaction does not own: nothing.\<close>

lemma publishRoot_nodes:
  "publishRoot w = (bs, w') \<Longrightarrow> length (heap w') = length (heap w) \<and>
     (\<forall>a<length (heap w). a \<notin> dirty w \<longrightarrow> heap w' ! a = heap w ! a)"
  by (auto simp: publishRoot_def detachPublishedNodes_def split: option.splits)

lemma bucket_spill_step:
  assumes "bucket_spill w = Inr w'" and "owned w"
  shows "evolves w w'"
proof (cases "rootNode w")
  case None
  then show ?thesis using assms(1) by (simp add: bucket_spill_def)
next
  case (Some r)
  then obtain w1 r' where w1: "finalize (ffuel w) r w = Inr w1" "w' = w1\<lparr>rootNode := Some r'\<rparr>"
    using assms(1) by (auto simp: bucket_spill_def)
  have "r \<in> dirty w" using assms(2) Some by (simp add: owned_def)
  then have "evolves w w1" using finalize_step(1) [OF w1(1)] assms(2) by blast
  then show ?thesis by (simp add: w1(2) evolves_def)
qed

lemma evolves_repr:
  assumes "evolves w w'" and "repr (heap w) t" and "set (addrs t) \<inter> dirty w = {}"
  shows "repr (heap w') t" and "set (addrs t) \<inter> dirty w' = {}"
proof -
  have b: "heap w' ! b = heap w ! b" "b \<notin> dirty w'" if "b \<in> set (addrs t)" for b
    using assms(1,3) that repr_addrs [OF assms(2) that] evolves_dirty [OF assms(1), of b] by (auto simp: evolves_def)
  moreover have "length (heap w) \<le> length (heap w')" using assms(1) by (simp add: evolves_def)
  ultimately show "repr (heap w') t" by (intro repr_agree [OF assms(2)]) (auto simp: agree_def)
  show "set (addrs t) \<inter> dirty w' = {}" using b(2) by blast
qed


text \<open>
  C10: committing a bucket whose materialised root is a leaf, however large, succeeds in any
  order of the rebalancing; the tree it publishes is well-formed and holds exactly the pairs the
  leaf held.
\<close>

theorem leaf_commit_publishes:
  assumes "winv w (Leaf r kvs)" and "rootNode w = Some r" and "[] \<notin> fst ` set kvs" and "set ord \<subseteq> dirty w"
  shows "\<exists>w1 w2 w3 t. bucket_rebalance ord w = Inr w1 \<and> bucket_spill w1 = Inr w2 \<and>
     publishRoot w2 = (Some \<lparr>root = Some (raddr t)\<rparr>, w3) \<and> repr (heap w3) t \<and> btree t \<and> items t = kvs \<and> dirty w3 = {}"
proof -
  obtain w1 where w1: "bucket_rebalance ord w = Inr w1" "winv w1 (Leaf r kvs)" "rootNode w1 = Some r"
    using bucket_rebalance_leaf_root [OF assms(1,2,4)] by blast
  have i: "intree (heap w1) {} (Leaf r kvs)" "btree (Leaf r kvs)" "owned w1" "parent (heap w1 ! r) = None" "\<not> spilled (heap w1 ! r)"
    using w1(2,3) by (auto simp: winv_def intree_def owned_def fresh_def)
  have "settled w1 r"
    using i(1) unfolding settled_def intree_def
    by (auto simp: list_all2_conv_all_nth leaf_entry_def in_set_conv_nth)
  moreover have "keys_ok (Leaf r kvs)" using assms(3) by (simp add: keys_ok_def tkeys_def)
  ultimately obtain w2 t where w2: "bucket_spill w1 = Inr w2" "intree (heap w2) {} t" "btree t" "items t = kvs" "rootNode w2 = Some (raddr t)"
    using bucket_spill_settled [of w1 "Leaf r kvs"] i w1(3) by auto
  obtain w3 where "publishRoot w2 = (Some \<lparr>root = Some (raddr t)\<rparr>, w3)" "intree (heap w3) {} t" "dirty w3 = {}"
    using publishRoot_spec [OF w2(2,3,5)] by blast
  then show ?thesis using w1(1) w2 by (auto simp: intree_def)
qed

theorem leaf_commit_publishes_witness:
  "\<exists>w1 w2 w3 t. bucket_rebalance [0] example_big = Inr w1 \<and> bucket_spill w1 = Inr w2 \<and>
     publishRoot w2 = (Some \<lparr>root = Some (raddr t)\<rparr>, w3) \<and> repr (heap w3) t \<and>
     items t = map (\<lambda>k. ([k], replicate 70000 0)) [1, 2, 3]"
proof -
  have "winv example_big (Leaf 0 (map (\<lambda>k. ([k], replicate 70000 0)) [1, 2, 3]))"
    by (simp add: example_big_def example_wst_def winv_def intree_def btree_def rootView_def owned_def fresh_def
        new_node_def leaf_entry_def)
  moreover have "rootNode example_big = Some 0" "set [0] \<subseteq> dirty example_big" by (simp_all add: example_big_def)
  ultimately show ?thesis using leaf_commit_publishes [of example_big 0 _ "[0]"] by fastforce
qed


text \<open>A branch over two small leaves, and what it looks like after deleting one pair from each.\<close>

definition two_leaves :: wst where
  "two_leaves = example_wst\<lparr>baseState := Some \<lparr>root = Some 2\<rparr>, heap :=
     [new_node\<lparr>isLeaf := True, nkey := [1], inodes :=
        [\<lparr>iflags = 0, ikey = [1], ivalue = [7], ichild = None\<rparr>, \<lparr>iflags = 0, ikey = [2], ivalue = [7], ichild = None\<rparr>]\<rparr>,
      new_node\<lparr>isLeaf := True, nkey := [3], inodes :=
        [\<lparr>iflags = 0, ikey = [3], ivalue = [7], ichild = None\<rparr>, \<lparr>iflags = 0, ikey = [4], ivalue = [7], ichild = None\<rparr>,
         \<lparr>iflags = 0, ikey = [5], ivalue = [7], ichild = None\<rparr>]\<rparr>,
      new_node\<lparr>inodes := [\<lparr>iflags = 0, ikey = [1], ivalue = [], ichild = Some 0\<rparr>,
                          \<lparr>iflags = 0, ikey = [3], ivalue = [], ichild = Some 1\<rparr>]\<rparr>]\<rparr>"

definition two_leaves_tree :: tree where
  "two_leaves_tree = Branch 2 [([1], Leaf 0 [([1], [7]), ([2], [7])]), ([3], Leaf 1 [([3], [7]), ([4], [7]), ([5], [7])])]"

definition after_deletes :: wst where
  "after_deletes = (case exec_all bucket_exec [Del [1], Del [3]] two_leaves of Inr (_, w) \<Rightarrow> w | Inl _ \<Rightarrow> two_leaves)"

text \<open>Evaluation of the threshold on integers.\<close>

lemma filled_code [code]:
  "filled n \<longleftrightarrow> minKeys n < length (inodes n) \<and>
     32768 < (32::int) + sum_list (map (\<lambda>i. 24 + int (length (ikey i)) + int (length (ivalue i))) (inodes n))"
proof -
  have "int (node_size n) = 32 + sum_list (map (\<lambda>i. 24 + int (length (ikey i)) + int (length (ivalue i))) (inodes n))"
    by (simp add: node_size_eq inode_size_def node_consts comp_def flip: sum_list_of_nat)
  moreover have "defaultMinNodeMergeBytes < node_size n \<longleftrightarrow> (32768::int) < int (node_size n)"
    by (simp add: node_consts)
  ultimately show ?thesis unfolding filled_def by auto
qed


text \<open>
  C29: whether a commit goes through can depend on the order in which Go visits the map of
  changed nodes. After deleting one pair from each of two small leaves, rebalancing the left
  leaf first merges the right one into it and makes the root a leaf; rebalancing the right leaf,
  whose parent pointer still leads to that root, then panics. In the other order the commit
  succeeds.
\<close>

theorem rebalance_depends_on_order:
  "winv two_leaves two_leaves_tree \<and>
   (\<exists>w. exec_all bucket_exec [Del [1], Del [3]] two_leaves = Inr (None, w) \<and> dirty w = {3, 4, 5} \<and>
      bucket_rebalance [4, 5, 3] w = Inl (Panic ''invalid childAt on a leaf node'') \<and>
      (\<exists>w'. bucket_rebalance [5, 4, 3] w = Inr w'))"
proof (intro conjI exI)
  show "winv two_leaves two_leaves_tree"
    by (simp add: two_leaves_def two_leaves_tree_def example_wst_def winv_def intree_def btree_def rootView_def
        owned_def fresh_def new_node_def leaf_entry_def branch_entry_def wchild_def)
  show "exec_all bucket_exec [Del [1], Del [3]] two_leaves = Inr (None, after_deletes)" by code_simp
  show "dirty after_deletes = {3, 4, 5}" by code_simp
  show "bucket_rebalance [4, 5, 3] after_deletes = Inl (Panic ''invalid childAt on a leaf node'')" by code_simp
  have "case bucket_rebalance [5, 4, 3] after_deletes of Inr w \<Rightarrow> True | Inl _ \<Rightarrow> False" by code_simp
  then show "bucket_rebalance [5, 4, 3] after_deletes = Inr (projr (bucket_rebalance [5, 4, 3] after_deletes))"
    by (simp split: sum.splits)
qed

end
