(* ===== verification/Vm_Tx.thy ===== *)
theory Vm_Tx
  imports Vm_Commit "HOL-Library.AList"
begin

text \<open>
  Transactions (\<open>tx.go\<close>), the published database state (\<open>bucket_state.go\<close>) and the
  fields of \<open>DB\<close> a transaction reads and writes (\<open>db.go\<close>).

  A Go map keyed by bucket names is an association list with distinct keys
  (\<open>buckets\<close>, \<open>bctx\<close>); a map used as a set is a set. The order in which a
  \<open>range\<close> loop visits a map is a parameter where it is visible. Bucket handles are indices
  into \<open>bufs\<close>, the \<open>Bucket\<close> objects the transaction has allocated: a handle stays usable
  after its bucket has left \<open>bctx\<close>. The nodes of all transactions live in one heap,
  \<open>nodes\<close>.
\<close>

section \<open>State\<close>

record dbState =
  buckets :: "(bytes \<times> bucketState option) list"

record DB =
  MaxBatchSize :: int
  MaxBatchDelay :: int
  opened :: bool
  db_stats :: "Stats option"
  state :: "dbState option"
  rwlock :: bool
  readOnly :: bool
  nodes :: heap

text \<open>
  \<open>db_open\<close> is \<open>tx.db != nil\<close>. A commit handler is represented by a number.
\<close>

record Tx =
  writable :: bool
  managed :: bool
  db_open :: bool
  base :: "dbState option"
  bctx :: "(bytes \<times> bref) list"
  created :: "bytes set"
  deleted :: "bytes set"
  tx_stats :: TxStats
  commitHandlers :: "nat list"
  bufs :: "Bucket list"

type_synonym txst = "DB \<times> Tx"

definition base_buckets :: "Tx \<Rightarrow> (bytes \<times> bucketState option) list" where
  "base_buckets tx = (case base tx of None \<Rightarrow> [] | Some s \<Rightarrow> buckets s)"

section \<open>Bucket methods in a transaction\<close>

text \<open>
  \<open>bucket_wst s b\<close> is what a method of the bucket \<open>b\<close> sees; \<open>Bucket.baseState\<close> looks the
  name up in the pinned state. \<open>put_back\<close> stores what the method changed.
\<close>

definition tx_baseState :: "Tx \<Rightarrow> bytes \<Rightarrow> bucketState option" where
  "tx_baseState tx nm = (case map_of (base_buckets tx) nm of None \<Rightarrow> None | Some bs \<Rightarrow> bs)"

definition bucket_wst :: "txst \<Rightarrow> bref \<Rightarrow> wst" where
  "bucket_wst s b = (case s of (db, tx) \<Rightarrow>
     Bucket.extend (bufs tx ! b)
       (wst.fields b (db_open tx) (writable tx) (tx_baseState tx (name (bufs tx ! b))) (nodes db) (tx_stats tx)))"

definition put_back :: "wst \<Rightarrow> txst \<Rightarrow> txst" where
  "put_back w s = (case s of (db, tx) \<Rightarrow>
     (db\<lparr>nodes := heap w\<rparr>, tx\<lparr>bufs := (bufs tx)[self w := Bucket.truncate w], tx_stats := stats w\<rparr>))"

definition in_bucket :: "bref \<Rightarrow> (wst \<Rightarrow> ('a \<times> wst) res) \<Rightarrow> txst \<Rightarrow> ('a \<times> txst) res" where
  "in_bucket b m s = rbind (m (bucket_wst s b)) (\<lambda>(x, w). Inr (x, put_back w s))"

section \<open>The bucket directory\<close>

definition putBctx :: "bytes \<Rightarrow> bref \<Rightarrow> Tx \<Rightarrow> Tx" where
  "putBctx key b tx = tx\<lparr>bctx := AList.update key b (bctx tx)\<rparr>"

definition bucketExistsCommitted :: "Tx \<Rightarrow> bytes \<Rightarrow> bool" where
  "bucketExistsCommitted tx key \<longleftrightarrow> map_of (base_buckets tx) key \<noteq> None"

definition tx_Bucket :: "bytes \<Rightarrow> Tx \<Rightarrow> bref option \<times> Tx" where
  "tx_Bucket key tx =
     (if \<not> db_open tx then (None, tx)
      else (case map_of (bctx tx) key of
              Some b \<Rightarrow> (Some b, tx)
            | None \<Rightarrow>
                if key \<in> deleted tx then (None, tx)
                else (case tx_baseState tx key of
                        None \<Rightarrow> (None, tx)
                      | Some st \<Rightarrow>
                          let b = length (bufs tx); tx = tx\<lparr>bufs := bufs tx @ [newBucket key]\<rparr>
                          in (Some b, putBctx key b tx))))"

definition CreateBucket :: "bytes \<Rightarrow> txst \<Rightarrow> (error + bref) \<times> txst" where
  "CreateBucket key s = (case s of (db, tx) \<Rightarrow>
     if \<not> db_open tx then (Inl ErrTxClosed, s)
     else if \<not> writable tx then (Inl ErrTxNotWritable, s)
     else if length key = 0 then (Inl ErrBucketNameRequired, s)
     else if key \<notin> deleted tx \<and> (key \<in> created tx \<or> bucketExistsCommitted tx key)
     then (Inl ErrBucketExists, s)
     else
       let b = length (bufs tx); r = length (nodes db);
           bk = (newBucket key)\<lparr>rootNode := Some r, dirty := {r}\<rparr>;
           db = db\<lparr>nodes := nodes db @ [new_node\<lparr>bucket := Some b, isLeaf := True\<rparr>]\<rparr>;
           tx = tx\<lparr>bufs := bufs tx @ [bk], created := insert key (created tx),
                   deleted := deleted tx - {key}\<rparr>
       in (Inr b, (db, putBctx key b tx)))"

definition CreateBucketIfNotExists :: "bytes \<Rightarrow> txst \<Rightarrow> (error + bref) \<times> txst" where
  "CreateBucketIfNotExists key s = (case s of (db, tx) \<Rightarrow>
     if \<not> db_open tx then (Inl ErrTxClosed, s)
     else if \<not> writable tx then (Inl ErrTxNotWritable, s)
     else if length key = 0 then (Inl ErrBucketNameRequired, s)
     else (case tx_Bucket key tx of
             (Some b, tx) \<Rightarrow> (Inr b, (db, tx))
           | (None, tx) \<Rightarrow> CreateBucket key (db, tx)))"

definition DeleteBucket :: "bytes \<Rightarrow> Tx \<Rightarrow> error option \<times> Tx" where
  "DeleteBucket key tx =
     (if \<not> db_open tx then (Some ErrTxClosed, tx)
      else if \<not> writable tx then (Some ErrTxNotWritable, tx)
      else if key \<in> created tx
      then (None, tx\<lparr>created := created tx - {key}, bctx := AList.delete key (bctx tx)\<rparr>)
      else if \<not> bucketExistsCommitted tx key then (Some ErrBucketNotFound, tx)
      else (None, tx\<lparr>deleted := insert key (deleted tx), bctx := AList.delete key (bctx tx)\<rparr>))"

text \<open>A closed transaction returns the zero \<open>Cursor\<close>, which has neither a directory nor a bucket.\<close>

definition tx_Cursor :: "Tx \<Rightarrow> dirCursor option" where
  "tx_Cursor tx =
     (if \<not> db_open tx then None
      else Some \<lparr>dir = sorted_list_of_set ((fst ` set (base_buckets tx) \<union> created tx) - deleted tx),
                 dirIdx = -1\<rparr>)"

text \<open>
  \<open>ForEach\<close>: the names are sorted, so the order of the two map iterations does not matter.
  The callback works on its own state \<open>'s\<close> and on the transaction.
\<close>

definition foreach_names :: "Tx \<Rightarrow> bytes list" where
  "foreach_names tx =
     sort (filter (\<lambda>n. n \<notin> deleted tx) (map fst (base_buckets tx)) @ sorted_list_of_set (created tx))"

fun foreach_loop ::
  "(bytes \<Rightarrow> bref option \<Rightarrow> 's \<times> txst \<Rightarrow> (error option \<times> 's \<times> txst) res) \<Rightarrow>
   bytes list \<Rightarrow> bytes set \<Rightarrow> 's \<times> txst \<Rightarrow> (error option \<times> 's \<times> txst) res" where
  "foreach_loop fn [] seen st = Inr (None, st)"
| "foreach_loop fn (n # ns) seen st =
     (if n \<in> seen then foreach_loop fn ns seen st
      else (case st of (u, db, tx) \<Rightarrow>
        (case tx_Bucket n tx of (b, tx) \<Rightarrow>
           rbind (fn n b (u, db, tx))
             (\<lambda>(e, st). if e \<noteq> None then Inr (e, st)
                        else foreach_loop fn ns (insert n seen) st))))"

definition tx_ForEach ::
  "(bytes \<Rightarrow> bref option \<Rightarrow> 's \<times> txst \<Rightarrow> (error option \<times> 's \<times> txst) res) \<Rightarrow>
   's \<times> txst \<Rightarrow> (error option \<times> 's \<times> txst) res" where
  "tx_ForEach fn st = (case st of (u, db, tx) \<Rightarrow>
     if \<not> db_open tx then Inr (Some ErrTxClosed, st)
     else foreach_loop fn (foreach_names tx) {} st)"

text \<open>The callback of \<open>Inspect\<close>; a nil bucket would be dereferenced.\<close>

definition inspect_visit ::
  "bytes \<Rightarrow> bref option \<Rightarrow> BucketStructure list \<times> txst \<Rightarrow>
     (error option \<times> BucketStructure list \<times> txst) res" where
  "inspect_visit n b st = (case st of (cs, s) \<Rightarrow>
     (case b of None \<Rightarrow> nil_deref
      | Some b \<Rightarrow> rbind (in_bucket b bucket_Inspect s) (\<lambda>(c, s). Inr (None, cs @ [c], s))))"

definition tx_Inspect :: "txst \<Rightarrow> (BucketStructure \<times> txst) res" where
  "tx_Inspect s =
     rbind (tx_ForEach inspect_visit ([], s))
       (\<lambda>(e, cs, s). Inr (BucketStructure [0x72, 0x6f, 0x6f, 0x74] 0 cs, s))"

definition OnCommit :: "nat \<Rightarrow> Tx \<Rightarrow> Tx" where
  "OnCommit fn tx = tx\<lparr>commitHandlers := commitHandlers tx @ [fn]\<rparr>"

section \<open>Sizes\<close>

text \<open>The walk of \<open>bucketStateSize\<close> skips nil nodes.\<close>

fun state_walk :: "nat \<Rightarrow> heap \<Rightarrow> addr option \<Rightarrow> nat \<Rightarrow> nat res"
  and state_walk_children :: "nat \<Rightarrow> heap \<Rightarrow> inode list \<Rightarrow> nat \<Rightarrow> nat res" where
  "state_walk 0 h n sz = Inl OutOfFuel"
| "state_walk (Suc f) h None sz = Inr sz"
| "state_walk (Suc f) h (Some n) sz =
     (let sz = sz + node_size (h ! n)
      in if isLeaf (h ! n) then Inr sz else state_walk_children f h (inodes (h ! n)) sz)"
| "state_walk_children f h [] sz = Inr sz"
| "state_walk_children f h (i # is) sz =
     rbind (state_walk f h (ichild i) sz) (\<lambda>sz. state_walk_children f h is sz)"

definition bucketStateSize :: "heap \<Rightarrow> bucketState option \<Rightarrow> nat res" where
  "bucketStateSize h st =
     (case st of None \<Rightarrow> Inr 0
      | Some st \<Rightarrow> (case root st of None \<Rightarrow> Inr 0 | Some r \<Rightarrow> state_walk (dfuel h) h (Some r) 0))"

fun size_base :: "txst \<Rightarrow> (bytes \<times> bucketState option) list \<Rightarrow> nat \<Rightarrow> nat res" where
  "size_base s [] sz = Inr sz"
| "size_base s ((nm, st) # bs) sz = (case s of (db, tx) \<Rightarrow>
     if nm \<in> deleted tx then size_base s bs sz
     else rbind (case map_of (bctx tx) nm of
                   Some b \<Rightarrow> bucket_size (bucket_wst s b)
                 | None \<Rightarrow> bucketStateSize (nodes db) st)
            (\<lambda>n. size_base s bs (sz + n)))"

fun size_bctx :: "txst \<Rightarrow> bytes set \<Rightarrow> (bytes \<times> bref) list \<Rightarrow> nat \<Rightarrow> nat res" where
  "size_bctx s seen [] sz = Inr sz"
| "size_bctx s seen ((nm, b) # bs) sz =
     (if nm \<in> seen then size_bctx s seen bs sz
      else rbind (bucket_size (bucket_wst s b)) (\<lambda>n. size_bctx s seen bs (sz + n)))"

definition tx_Size :: "txst \<Rightarrow> nat res" where
  "tx_Size s = (case s of (db, tx) \<Rightarrow>
     (case base tx of None \<Rightarrow> nil_deref
      | Some st \<Rightarrow>
          rbind (size_base s (buckets st) 0)
            (\<lambda>sz. size_bctx s (fst ` set (buckets st) - deleted tx) (bctx tx) sz)))"

section \<open>Closing\<close>

definition unlock :: "DB \<Rightarrow> DB res" where
  "unlock db = (if rwlock db then Inr (db\<lparr>rwlock := False\<rparr>)
                else Inl (Panic ''sync: unlock of unlocked mutex''))"

definition removeTx :: "Tx \<Rightarrow> DB \<Rightarrow> DB" where
  "removeTx tx db =
     db\<lparr>db_stats := map_option (\<lambda>s. s\<lparr>OpenTxN := OpenTxN s - 1,
                                       STxStats := TxStats_add (STxStats s) (tx_stats tx)\<rparr>) (db_stats db)\<rparr>"

definition tx_close :: "txst \<Rightarrow> txst res" where
  "tx_close s = (case s of (db, tx) \<Rightarrow>
     if \<not> db_open tx then Inr s
     else
       rbind (if writable tx
              then unlock (db\<lparr>db_stats := map_option (\<lambda>s. s\<lparr>STxStats := TxStats_add (STxStats s) (tx_stats tx)\<rparr>)
                                            (db_stats db)\<rparr>)
              else Inr (removeTx tx db))
         (\<lambda>db. Inr (db, tx\<lparr>db_open := False, base := None, bctx := [], created := {}, deleted := {}\<rparr>)))"

definition tx_rollback :: "txst \<Rightarrow> txst res" where
  "tx_rollback s = (if \<not> db_open (snd s) then Inr s else tx_close s)"

definition Rollback :: "txst \<Rightarrow> (error option \<times> txst) res" where
  "Rollback s = (case s of (db, tx) \<Rightarrow>
     if managed tx then Inl (Panic ''assertion failed: managed tx rollback not allowed'')
     else if \<not> db_open tx then Inr (Some ErrTxClosed, s)
     else rbind (tx_rollback s) (\<lambda>s. Inr (None, s)))"

section \<open>Commit\<close>

text \<open>
  What a commit depends on besides the state: the orders in which the three loops visit
  \<open>tx.bctx\<close>, the order in which \<open>Bucket.rebalance\<close> visits \<open>b.dirty\<close>, and the times
  measured. \<open>env_ok\<close> says that every bucket, and every dirty node of it, is visited exactly once.
\<close>

record commit_env =
  reb_ord :: "(bytes \<times> addr list) list"
  spill_ord :: "bytes list"
  pub_ord :: "bytes list"
  reb_time :: "64 word"
  spill_time :: "64 word"

fun each_bucket :: "('x \<Rightarrow> wst \<Rightarrow> wst res) \<Rightarrow> (bytes \<times> 'x) list \<Rightarrow> txst \<Rightarrow> txst res" where
  "each_bucket m [] s = Inr s"
| "each_bucket m ((nm, x) # os) s =
     (case map_of (bctx (snd s)) nm of
        None \<Rightarrow> each_bucket m os s
      | Some b \<Rightarrow> rbind (m x (bucket_wst s b)) (\<lambda>w. each_bucket m os (put_back w s)))"

definition rebalance_all :: "(bytes \<times> addr list) list \<Rightarrow> txst \<Rightarrow> txst res" where
  "rebalance_all os s = each_bucket bucket_rebalance os s"

definition spill_all :: "bytes list \<Rightarrow> txst \<Rightarrow> txst res" where
  "spill_all os s = each_bucket (\<lambda>_. bucket_spill) (map (\<lambda>nm. (nm, ())) os) s"

fun publish_all ::
  "bytes list \<Rightarrow> (bytes \<times> bucketState option) list \<Rightarrow> txst \<Rightarrow> (bytes \<times> bucketState option) list \<times> txst" where
  "publish_all [] nb s = (nb, s)"
| "publish_all (nm # os) nb s =
     (case map_of (bctx (snd s)) nm of
        None \<Rightarrow> publish_all os nb s
      | Some b \<Rightarrow>
          if nm \<in> deleted (snd s) then publish_all os nb s
          else (case publishRoot (bucket_wst s b) of
                  (bs, w) \<Rightarrow> publish_all os (AList.update nm bs nb) (put_back w s)))"

text \<open>The result also lists the commit handlers that ran, in order.\<close>

definition Commit :: "commit_env \<Rightarrow> txst \<Rightarrow> ((error option \<times> nat list) \<times> txst) res" where
  "Commit e s = (case s of (db, tx) \<Rightarrow>
     if managed tx then Inl (Panic ''assertion failed: managed tx commit not allowed'')
     else if \<not> db_open tx then Inr ((Some ErrTxClosed, []), s)
     else if \<not> writable tx then Inr ((Some ErrTxNotWritable, []), s)
     else
       rbind (rebalance_all (reb_ord e) s) (\<lambda>(db, tx).
         let tx = (if 0 < sint (Rebalance (tx_stats tx))
                   then tx\<lparr>tx_stats := IncRebalanceTime (reb_time e) (tx_stats tx)\<rparr> else tx)
         in rbind (spill_all (spill_ord e) (db, tx)) (\<lambda>(db, tx).
              let tx = tx\<lparr>tx_stats := IncSpillTime (spill_time e) (tx_stats tx)\<rparr>;
                  nb = filter (\<lambda>p. fst p \<notin> deleted tx) (base_buckets tx)
              in (case publish_all (pub_ord e) nb (db, tx) of
                    (nb, db, tx) \<Rightarrow>
                      rbind (tx_close (db\<lparr>state := Some \<lparr>buckets = nb\<rparr>\<rparr>, tx))
                        (\<lambda>(db, tx). Inr ((None, commitHandlers tx), (db, tx)))))))"

definition env_ok :: "commit_env \<Rightarrow> Tx \<Rightarrow> bool" where
  "env_ok e tx \<longleftrightarrow>
     distinct (map fst (reb_ord e)) \<and> set (map fst (reb_ord e)) = fst ` set (bctx tx) \<and>
     distinct (spill_ord e) \<and> set (spill_ord e) = fst ` set (bctx tx) \<and>
     distinct (pub_ord e) \<and> set (pub_ord e) = fst ` set (bctx tx) \<and>
     (\<forall>(nm, ord)\<in>set (reb_ord e). \<forall>b. map_of (bctx tx) nm = Some b \<longrightarrow>
        distinct ord \<and> set ord = dirty (bufs tx ! b))"

section \<open>Bucket methods and the transaction they belong to\<close>

lemma bucket_wst_simps [simp]:
  "name (bucket_wst (db, tx) b) = name (bufs tx ! b)"
  "rootNode (bucket_wst (db, tx) b) = rootNode (bufs tx ! b)"
  "dirty (bucket_wst (db, tx) b) = dirty (bufs tx ! b)"
  "FillPercent (bucket_wst (db, tx) b) = FillPercent (bufs tx ! b)"
  "self (bucket_wst (db, tx) b) = b"
  "tx_open (bucket_wst (db, tx) b) = db_open tx"
  "tx_writable (bucket_wst (db, tx) b) = writable tx"
  "baseState (bucket_wst (db, tx) b) = tx_baseState tx (name (bufs tx ! b))"
  "heap (bucket_wst (db, tx) b) = nodes db"
  "stats (bucket_wst (db, tx) b) = tx_stats tx"
  by (simp_all add: bucket_wst_def Bucket.extend_def wst.fields_def)

lemma put_back_simps [simp]:
  "fst (put_back w (db, tx)) = db\<lparr>nodes := heap w\<rparr>"
  "snd (put_back w (db, tx)) = tx\<lparr>bufs := (bufs tx)[self w := Bucket.truncate w], tx_stats := stats w\<rparr>"
  by (simp_all add: put_back_def)

lemma truncate_simps [simp]:
  "name (Bucket.truncate w) = name w" "rootNode (Bucket.truncate w) = rootNode w"
  "dirty (Bucket.truncate w) = dirty w" "FillPercent (Bucket.truncate w) = FillPercent w"
  by (simp_all add: Bucket.truncate_def)

lemma base_buckets_frame [simp]:
  "base_buckets (tx\<lparr>bufs := x\<rparr>) = base_buckets tx" "base_buckets (tx\<lparr>tx_stats := y\<rparr>) = base_buckets tx"
  "base_buckets (tx\<lparr>bctx := z\<rparr>) = base_buckets tx" "base_buckets (tx\<lparr>created := c\<rparr>) = base_buckets tx"
  "base_buckets (tx\<lparr>deleted := c\<rparr>) = base_buckets tx"
  by (simp_all add: base_buckets_def)

lemma tx_baseState_frame [simp]:
  "tx_baseState (tx\<lparr>bufs := x\<rparr>) = tx_baseState tx" "tx_baseState (tx\<lparr>tx_stats := y\<rparr>) = tx_baseState tx"
  "tx_baseState (tx\<lparr>bctx := z\<rparr>) = tx_baseState tx" "tx_baseState (tx\<lparr>created := c\<rparr>) = tx_baseState tx"
  "tx_baseState (tx\<lparr>deleted := c\<rparr>) = tx_baseState tx"
  by (simp_all add: tx_baseState_def fun_eq_iff)

lemma put_back_id: "put_back (bucket_wst (db, tx) b) (db, tx) = (db, tx)"
proof -
  have "Bucket.truncate (bucket_wst (db, tx) b) = bufs tx ! b"
    by (simp add: Bucket.truncate_def)
  then show ?thesis by (simp only: put_back_def prod.case bucket_wst_simps list_update_id) simp
qed

lemma wst_eqI:
  fixes w w' :: wst
  assumes "name w = name w'" "rootNode w = rootNode w'" "dirty w = dirty w'" "FillPercent w = FillPercent w'"
    "self w = self w'" "tx_open w = tx_open w'" "tx_writable w = tx_writable w'"
    "baseState w = baseState w'" "heap w = heap w'" "stats w = stats w'"
  shows "w = w'"
  using assms by simp

text \<open>After a method of \<open>b\<close>, its bucket is as the method left it, the others see the new heap.\<close>

lemma bucket_wst_put_back:
  assumes "evolves (bucket_wst (db, tx) b) w" and "b < length (bufs tx)"
  shows "bucket_wst (put_back w (db, tx)) c =
    (if c = b then w else (bucket_wst (db, tx) c)\<lparr>heap := heap w, stats := stats w\<rparr>)"
proof -
  have w: "name w = name (bufs tx ! b)" "self w = b" "tx_open w = db_open tx" "tx_writable w = writable tx"
    "baseState w = tx_baseState tx (name (bufs tx ! b))" "FillPercent w = FillPercent (bufs tx ! b)"
    using assms(1) by (simp_all add: evolves_def)
  show ?thesis
    by (rule wst_eqI) (use w assms(2) in \<open>auto simp: put_back_def nth_list_update\<close>)
qed

section \<open>What a transaction holds\<close>

text \<open>
  A database state stands for a finite map from bucket names to ordered pair lists.
  \<open>published\<close>: a bucket state whose tree lies below the address \<open>n\<close>, complete and with
  non-empty keys. \<open>tx_holds n s M0 M\<close>: the pinned state is \<open>M0\<close>, what the transaction
  sees is \<open>M\<close>; every node of the pinned state lies below \<open>n\<close>, every node the transaction
  may change lies above, and two handles never share such a node.
\<close>

definition published :: "heap \<Rightarrow> nat \<Rightarrow> bucketState option \<Rightarrow> kv list \<Rightarrow> bool" where
  "published h n bs kvs \<longleftrightarrow>
     (\<exists>st t. bs = Some st \<and> root st = Some (raddr t) \<and> intree h {} t \<and> btree t \<and> keys_ok t \<and>
             items t = kvs \<and> set (addrs t) \<subseteq> {..<n})"

definition state_holds :: "heap \<Rightarrow> nat \<Rightarrow> dbState \<Rightarrow> (bytes \<rightharpoonup> kv list) \<Rightarrow> bool" where
  "state_holds h n st M \<longleftrightarrow>
     distinct (map fst (buckets st)) \<and> n \<le> length h \<and>
     (\<forall>nm. rel_option (published h n) (map_of (buckets st) nm) (M nm))"

text \<open>
  A handle keeps track of buckets that are a single leaf: those the transaction created and
  those whose pinned root is a leaf. Writing never turns such a leaf into a branch; only the
  spill of a commit does.
\<close>

definition leaf_root :: "wst \<Rightarrow> bool" where
  "leaf_root w \<longleftrightarrow> (\<exists>r. rootView w = Some r \<and> isLeaf (heap w ! r))"

definition leaf_base :: "nat \<Rightarrow> wst \<Rightarrow> bool" where
  "leaf_base n w \<longleftrightarrow> (\<exists>st r. baseState w = Some st \<and> root st = Some r \<and> r < n \<and> isLeaf (heap w ! r))"

definition handle_ok :: "nat \<Rightarrow> bool \<Rightarrow> wst \<Rightarrow> kv list \<Rightarrow> bool" where
  "handle_ok n l w kvs \<longleftrightarrow>
     (\<exists>t. winv w t \<and> items t = kvs \<and> keys_ok t \<and> set (addrs t) \<subseteq> {..<n} \<union> dirty w) \<and>
     (\<forall>a\<in>dirty w. n \<le> a) \<and> (l \<or> leaf_base n w \<longrightarrow> leaf_root w)"

definition handles_wf :: "nat \<Rightarrow> txst \<Rightarrow> bool" where
  "handles_wf n s \<longleftrightarrow> (case s of (db, tx) \<Rightarrow>
     distinct (map fst (bctx tx)) \<and> distinct (map snd (bctx tx)) \<and>
     (\<forall>(nm, b)\<in>set (bctx tx). b < length (bufs tx) \<and> name (bufs tx ! b) = nm) \<and>
     (\<forall>b<length (bufs tx). dirty (bufs tx ! b) \<subseteq> {n..<length (nodes db)}) \<and>
     (\<forall>b<length (bufs tx). \<forall>c<length (bufs tx). b \<noteq> c \<longrightarrow> dirty (bufs tx ! b) \<inter> dirty (bufs tx ! c) = {}))"

definition dir_wf :: "(bytes \<rightharpoonup> kv list) \<Rightarrow> Tx \<Rightarrow> bool" where
  "dir_wf M0 tx \<longleftrightarrow>
     finite (created tx) \<and> created tx \<subseteq> fst ` set (bctx tx) \<and> deleted tx \<subseteq> dom M0 \<and>
     fst ` set (bctx tx) \<inter> deleted tx = {} \<and> fst ` set (bctx tx) \<subseteq> created tx \<union> dom M0 \<and>
     [] \<notin> created tx"

definition view_at :: "nat \<Rightarrow> txst \<Rightarrow> (bytes \<rightharpoonup> kv list) \<Rightarrow> bytes \<Rightarrow> kv list option \<Rightarrow> bool" where
  "view_at n s M0 nm v \<longleftrightarrow>
     (case map_of (bctx (snd s)) nm of
        Some b \<Rightarrow> \<exists>kvs. v = Some kvs \<and> handle_ok n (nm \<in> created (snd s)) (bucket_wst s b) kvs
      | None \<Rightarrow> v = (if nm \<in> deleted (snd s) then None else M0 nm))"

definition tx_holds :: "nat \<Rightarrow> txst \<Rightarrow> (bytes \<rightharpoonup> kv list) \<Rightarrow> (bytes \<rightharpoonup> kv list) \<Rightarrow> bool" where
  "tx_holds n s M0 M \<longleftrightarrow> (case s of (db, tx) \<Rightarrow>
     db_open tx \<and> (\<exists>st. base tx = Some st \<and> state_holds (nodes db) n st M0) \<and>
     handles_wf n s \<and> dir_wf M0 tx \<and>
     (\<forall>nm. view_at n s M0 nm (M nm)))"

text \<open>Changes above \<open>n\<close> do not touch a published state.\<close>

lemma published_frame:
  assumes "published h n bs kvs" and "\<forall>a<n. h' ! a = h ! a" and "n \<le> length h" and "length h \<le> length h'"
  shows "published h' n bs kvs"
proof -
  obtain st t where t: "bs = Some st" "root st = Some (raddr t)" "intree h {} t" "btree t" "keys_ok t"
    "items t = kvs" "set (addrs t) \<subseteq> {..<n}"
    using assms(1) by (auto simp: published_def)
  have "intree h' {} t"
    by (rule intree_same [OF t(3)]) (use assms t(7) in \<open>auto simp: same_on_def\<close>)
  then show ?thesis using t by (auto simp: published_def)
qed

lemma state_holds_frame:
  assumes "state_holds h n st M" and "\<forall>a<n. h' ! a = h ! a" and "length h \<le> length h'"
  shows "state_holds h' n st M"
proof -
  have n: "n \<le> length h" using assms(1) by (simp add: state_holds_def)
  have "rel_option (published h' n) (map_of (buckets st) nm) (M nm)" for nm
    by (rule option.rel_mono_strong [of "published h n"])
      (use assms(1) published_frame [OF _ assms(2) n assms(3)] in \<open>auto simp: state_holds_def\<close>)
  then show ?thesis using assms n by (auto simp: state_holds_def)
qed

lemma winv_frame:
  assumes "winv w t" and "\<forall>a\<in>set (addrs t). h' ! a = heap w ! a" and "length (heap w) \<le> length h'"
  shows "winv (w\<lparr>heap := h', stats := x\<rparr>) t"
proof -
  have "intree h' (dirty w) t"
    by (rule intree_same) (use assms in \<open>auto simp: winv_def same_on_def\<close>)
  moreover have "\<forall>a\<in>dirty w. h' ! a = heap w ! a" using assms(1,2) by (auto simp: winv_def)
  moreover have "\<forall>r. rootNode w = Some r \<longrightarrow> h' ! r = heap w ! r"
    using assms(1) calculation(2) by (auto simp: winv_def owned_def)
  ultimately show ?thesis using assms(1,3)
    by (auto simp: winv_def owned_def fresh_def rootView_def split: option.splits)
qed

lemma rootView_heap: "rootView (w\<lparr>heap := h, stats := x\<rparr>) = rootView w"
  by (simp add: rootView_def cong: option.case_cong)

lemma handle_ok_frame:
  assumes "handle_ok n l w kvs" and "\<forall>a\<in>{..<n} \<union> dirty w. h' ! a = heap w ! a" and "length (heap w) \<le> length h'"
  shows "handle_ok n l (w\<lparr>heap := h', stats := x\<rparr>) kvs"
proof -
  obtain t where t: "winv w t" "items t = kvs" "keys_ok t" "set (addrs t) \<subseteq> {..<n} \<union> dirty w"
    using assms(1) by (auto simp: handle_ok_def)
  have "winv (w\<lparr>heap := h', stats := x\<rparr>) t"
    by (rule winv_frame [OF t(1)]) (use assms t(4) in auto)
  moreover have "raddr t \<in> {..<n} \<union> dirty w" using t(4) raddr_in_addrs by blast
  then have "leaf_root (w\<lparr>heap := h', stats := x\<rparr>) \<longleftrightarrow> leaf_root w"
    using assms(2) t(1) unfolding leaf_root_def winv_def rootView_heap by auto
  moreover have "leaf_base n (w\<lparr>heap := h', stats := x\<rparr>) \<longleftrightarrow> leaf_base n w"
    using assms(2) by (auto simp: leaf_base_def)
  ultimately show ?thesis using t(2-4) assms(1) unfolding handle_ok_def by (intro conjI exI [of _ t]) simp_all
qed


text \<open>
  The effect of a bucket method on the transaction: it changes what its own bucket holds
  and nothing else.
\<close>

lemma tx_holdsD:
  assumes "tx_holds n (db, tx) M0 M" and "map_of (bctx tx) nm = Some b"
  shows "b < length (bufs tx)" and "name (bufs tx ! b) = nm"
    and "\<exists>kvs. M nm = Some kvs \<and> handle_ok n (nm \<in> created tx) (bucket_wst (db, tx) b) kvs"
proof -
  show "b < length (bufs tx)" "name (bufs tx ! b) = nm"
    using assms(1) map_of_SomeD [OF assms(2)] by (auto simp: tx_holds_def handles_wf_def)
  have "view_at n (db, tx) M0 nm (M nm)" using assms(1) by (simp add: tx_holds_def)
  then show "\<exists>kvs. M nm = Some kvs \<and> handle_ok n (nm \<in> created tx) (bucket_wst (db, tx) b) kvs"
    using assms(2) by (simp add: view_at_def)
qed

lemma map_of_inj_snd: "distinct (map snd xs) \<Longrightarrow> map_of xs k = Some b \<Longrightarrow> map_of xs k' = Some b \<Longrightarrow> k = k'"
  by (metis distinct_map inj_onD map_of_SomeD prod.inject snd_conv)

lemma handles_wf_put_back:
  assumes "handles_wf n (db, tx)" and "evolves (bucket_wst (db, tx) b) w" and "owned w" and "b < length (bufs tx)"
    and "n \<le> length (nodes db)"
  shows "handles_wf n (put_back w (db, tx))"
proof -
  have w: "name w = name (bufs tx ! b)" "self w = b" "length (nodes db) \<le> length (heap w)"
    "dirty w \<subseteq> dirty (bufs tx ! b) \<union> {length (nodes db)..}" "\<forall>a\<in>dirty w. a < length (heap w)"
    using assms(2,3) by (auto simp: evolves_def owned_def)
  have d: "dirty (bufs tx ! c) \<subseteq> {n..<length (nodes db)}" if "c < length (bufs tx)" for c
    using assms(1) that by (simp add: handles_wf_def)
  have old: "dirty (bufs tx ! c) \<inter> {length (nodes db)..} = {}" if "c < length (bufs tx)" for c
    using d [OF that] by force
  have disj: "dirty (bufs tx ! c) \<inter> dirty (bufs tx ! c') = {}"
    if "c < length (bufs tx)" "c' < length (bufs tx)" "c \<noteq> c'" for c c'
    using assms(1) that by (simp add: handles_wf_def)
  have "dirty w \<inter> dirty (bufs tx ! c) = {}" if "c < length (bufs tx)" "c \<noteq> b" for c
    using w(4) old [OF that(1)] disj [OF assms(4) that(1)] that(2) by blast
  moreover have "dirty w \<subseteq> {n..<length (heap w)}"
    using w(3-5) d [OF assms(4)] assms(5) by force
  moreover have "dirty (bufs tx ! c) \<subseteq> {n..<length (heap w)}" if "c < length (bufs tx)" for c
    using d [OF that] w(3) by force
  ultimately show ?thesis using assms(1,4) disj w(1,2)
    by (auto simp: handles_wf_def put_back_def nth_list_update)
qed

lemma evolves_frame:
  assumes "handles_wf n (db, tx)" and "evolves (bucket_wst (db, tx) b) w" and "b < length (bufs tx)"
    and "n \<le> length (nodes db)"
  shows "\<forall>a<n. heap w ! a = nodes db ! a"
    and "c < length (bufs tx) \<Longrightarrow> c \<noteq> b \<Longrightarrow> \<forall>a\<in>dirty (bufs tx ! c). heap w ! a = nodes db ! a"
proof -
  have e: "heap w ! a = nodes db ! a" if "a < length (nodes db)" "a \<notin> dirty (bufs tx ! b)" for a
    using assms(2) that by (simp add: evolves_def)
  have d: "dirty (bufs tx ! c) \<subseteq> {n..<length (nodes db)}" if "c < length (bufs tx)" for c
    using assms(1) that by (simp add: handles_wf_def)
  show "\<forall>a<n. heap w ! a = nodes db ! a"
  proof (intro allI impI)
    fix a assume "a < n"
    then show "heap w ! a = nodes db ! a" using e [of a] d [OF assms(3)] assms(4) by force
  qed
  show "\<forall>a\<in>dirty (bufs tx ! c). heap w ! a = nodes db ! a" if "c < length (bufs tx)" "c \<noteq> b"
  proof -
    have "dirty (bufs tx ! c) \<inter> dirty (bufs tx ! b) = {}"
      using assms(1,3) that by (simp add: handles_wf_def)
    then show ?thesis using e d [OF that(1)] by fastforce
  qed
qed

lemma put_back_holds:
  assumes "tx_holds n (db, tx) M0 M" and "map_of (bctx tx) nm = Some b"
    and "evolves (bucket_wst (db, tx) b) w" and "handle_ok n (nm \<in> created tx) w kvs"
  shows "tx_holds n (put_back w (db, tx)) M0 (M(nm \<mapsto> kvs))"
proof -
  note b = tx_holdsD [OF assms(1,2)]
  have len: "length (nodes db) \<le> length (heap w)" "self w = b"
    using assms(3) by (simp_all add: evolves_def)
  have t: "handles_wf n (db, tx)" "dir_wf M0 tx" "db_open tx" "distinct (map snd (bctx tx))"
    using assms(1) by (auto simp: tx_holds_def handles_wf_def)
  obtain st where st: "base tx = Some st" "state_holds (nodes db) n st M0"
    using assms(1) by (auto simp: tx_holds_def)
  have n: "n \<le> length (nodes db)" using st(2) by (simp add: state_holds_def)
  have "owned w" using assms(4) by (auto simp: handle_ok_def winv_def)
  note wf = handles_wf_put_back [OF t(1) assms(3) this b(1) n]
  note fr = evolves_frame [OF t(1) assms(3) b(1) n]
  have "view_at n (put_back w (db, tx)) M0 nm' ((M(nm \<mapsto> kvs)) nm')" for nm'
  proof (cases "map_of (bctx tx) nm'")
    case None
    have "view_at n (db, tx) M0 nm' (M nm')" using assms(1) by (simp add: tx_holds_def)
    then show ?thesis using None assms(2) by (auto simp: view_at_def)
  next
    case (Some c)
    show ?thesis
    proof (cases "c = b")
      case True
      then have "nm' = nm" using map_of_inj_snd [OF t(4)] Some assms(2) by blast
      then show ?thesis using Some True assms(4) bucket_wst_put_back [OF assms(3) b(1)] by (simp add: view_at_def)
    next
      case False
      note c = tx_holdsD [OF assms(1) Some]
      obtain kvs' where k: "M nm' = Some kvs'" "handle_ok n (nm' \<in> created tx) (bucket_wst (db, tx) c) kvs'" using c(3) by blast
      have "handle_ok n (nm' \<in> created tx) ((bucket_wst (db, tx) c)\<lparr>heap := heap w, stats := stats w\<rparr>) kvs'"
        by (rule handle_ok_frame [OF k(2)]) (use fr(1) fr(2) [OF c(1) False] len in auto)
      then show ?thesis using Some False k(1) bucket_wst_put_back [OF assms(3) b(1)] assms(2) by (auto simp: view_at_def)
    qed
  qed
  then show ?thesis
    using t(2,3) st(1) state_holds_frame [OF st(2) fr(1) len(1)] wf
    by (cases "put_back w (db, tx)") (auto simp: tx_holds_def put_back_def dir_wf_def)
qed


section \<open>Writing and reading through a handle\<close>

lemma seps_skel: "seps (skel t) = seps t"
proof (induction t)
  case (Branch a ets)
  have "map (\<lambda>e. seps (skel (snd e))) ets = map (\<lambda>e. seps (snd e)) ets"
    by (rule map_cong [OF refl]) (metis Branch prod.collapse)
  then show ?case by (simp only: skel.simps seps.simps map_map comp_def fst_conv snd_conv)
qed simp

lemma apply_write_keys:
  assumes "ascending (map fst kvs)" and "write_ok a" and "[] \<notin> fst ` set kvs"
  shows "[] \<notin> fst ` set (apply_write a kvs)"
  using assms set_alist_put [OF assms(1)] by (cases a) (auto simp: alist_del_def)

lemma addrs_evolves:
  assumes "intree (heap w') D t'" and "set (addrs t') \<subseteq> set (addrs t) \<union> {length (heap w)..}"
    and "evolves w w'" and "set (addrs t) \<subseteq> {..<n} \<union> dirty w"
  shows "set (addrs t') \<subseteq> {..<n} \<union> dirty w'"
proof -
  have "\<forall>a\<in>set (addrs t'). a < length (heap w')"
    using assms(1) repr_addrs unfolding intree_def by blast
  then show ?thesis using assms(2-4) unfolding evolves_def by fastforce
qed

lemma evolves_above: "evolves w w' \<Longrightarrow> \<forall>a\<in>dirty w. n \<le> a \<Longrightarrow> n \<le> length (heap w) \<Longrightarrow> \<forall>a\<in>dirty w'. n \<le> a"
  unfolding evolves_def by (meson DiffI le_trans)

lemma handle_ok_exec:
  assumes "handle_ok n l w kvs" and "tx_open w" and "tx_writable w" and "write_ok a" and "n \<le> length (heap w)"
  shows "\<exists>w'. bucket_exec a w = Inr (None, w') \<and> handle_ok n l w' (apply_write a kvs) \<and> evolves w w'"
proof -
  obtain t where t: "winv w t" "items t = kvs" "keys_ok t" "set (addrs t) \<subseteq> {..<n} \<union> dirty w"
    using assms(1) by (auto simp: handle_ok_def)
  obtain w' t' where w': "bucket_exec a w = Inr (None, w')" "winv w' t'" "items t' = apply_write a (items t)"
    "skel t' = skel t" "set (addrs t') \<subseteq> set (addrs t) \<union> {length (heap w)..}" "evolves w w'"
    using bucket_exec_spec [OF t(1) assms(2-4)] by blast
  have "ascending (map fst (items t))" using t(1) ok_ascending by (auto simp: winv_def btree_def)
  then have "keys_ok t'"
    using t(3) w'(3) apply_write_keys [OF _ assms(4)] seps_skel w'(4)
    unfolding keys_ok_def tkeys_def by (metis UnCI UnE)
  moreover have "set (addrs t') \<subseteq> {..<n} \<union> dirty w'"
    by (rule addrs_evolves [where D = "dirty w'", OF _ w'(5,6) t(4)]) (use w'(2) in \<open>simp add: winv_def\<close>)
  moreover have "leaf_root w'" if l: "leaf_root w"
  proof -
    have "t = Leaf (raddr t) (items t)"
      using t(1) l by (cases t) (auto simp: winv_def leaf_root_def intree_Branch)
    then have "skel t' = Leaf 0 []" using w'(4) by (metis skel.simps(1))
    then obtain b where b: "t' = Leaf b (items t')" using skel_leaf by blast
    have v: "rootView w' = Some (raddr t')" "repr (heap w') t'" using w'(2) by (simp_all add: winv_def intree_def)
    from v(2) have "isLeaf (heap w' ! raddr t')" by (subst (asm) b, subst b) simp
    then show ?thesis using v(1) by (auto simp: leaf_root_def)
  qed
  moreover have d: "\<forall>a\<in>dirty w. n \<le> a" and l: "l \<or> leaf_base n w \<longrightarrow> leaf_root w"
    using assms(1) by (simp_all add: handle_ok_def)
  have ev: "baseState w' = baseState w"
    "\<forall>a<length (heap w). a \<notin> dirty w \<longrightarrow> heap w' ! a = heap w ! a"
    using w'(6) by (simp_all add: evolves_def)
  have "\<forall>a\<in>dirty w'. n \<le> a" by (rule evolves_above [OF w'(6) d assms(5)])
  moreover have "leaf_base n w" if lb: "leaf_base n w'"
  proof -
    obtain st r where st: "baseState w' = Some st" "root st = Some r" "r < n" "isLeaf (heap w' ! r)"
      using lb unfolding leaf_base_def by blast
    then have "r \<notin> dirty w" "r < length (heap w)" using d assms(5) by (auto simp: not_le [symmetric])
    then show ?thesis using st ev unfolding leaf_base_def by auto
  qed
  ultimately have "handle_ok n l w' (apply_write a kvs)"
    using w'(2,3) t(2) l unfolding handle_ok_def by (intro conjI exI [of _ t']) simp_all
  then show ?thesis using w'(1,6) by blast
qed

lemma tx_exec:
  assumes "tx_holds n (db, tx) M0 M" and "writable tx" and "map_of (bctx tx) nm = Some b"
    and "M nm = Some kvs" and "write_ok a"
  shows "\<exists>w. in_bucket b (bucket_exec a) (db, tx) = Inr (None, put_back w (db, tx)) \<and>
           evolves (bucket_wst (db, tx) b) w \<and>
           tx_holds n (put_back w (db, tx)) M0 (M(nm \<mapsto> apply_write a kvs))"
proof -
  have h: "handle_ok n (nm \<in> created tx) (bucket_wst (db, tx) b) kvs" using tx_holdsD(3) [OF assms(1,3)] assms(4) by simp
  have "db_open tx" "n \<le> length (nodes db)" using assms(1) by (auto simp: tx_holds_def state_holds_def)
  then obtain w where w: "bucket_exec a (bucket_wst (db, tx) b) = Inr (None, w)"
    "handle_ok n (nm \<in> created tx) w (apply_write a kvs)" "evolves (bucket_wst (db, tx) b) w"
    using handle_ok_exec [OF h _ _ assms(5)] assms(2) by auto
  then show ?thesis
    using put_back_holds [OF assms(1,3) w(3,2)] by (auto simp: in_bucket_def)
qed

lemma tx_get:
  assumes "tx_holds n (db, tx) M0 M" and "map_of (bctx tx) nm = Some b" and "M nm = Some kvs"
  shows "\<exists>w. in_bucket b (bucket_Get k) (db, tx) = Inr (map_of kvs k, put_back w (db, tx)) \<and>
           evolves (bucket_wst (db, tx) b) w \<and> dirty w = dirty (bufs tx ! b) \<and> heap w = nodes db \<and>
           tx_holds n (put_back w (db, tx)) M0 M"
proof -
  let ?w = "bucket_wst (db, tx) b"
  obtain t where t: "winv ?w t" "items t = kvs" "keys_ok t" "set (addrs t) \<subseteq> {..<n} \<union> dirty ?w"
    using tx_holdsD(3) [OF assms(1,2)] assms(3) by (auto simp: handle_ok_def)
  have h: "handle_ok n (nm \<in> created tx) ?w kvs" using tx_holdsD(3) [OF assms(1,2)] assms(3) by auto
  have "bucket_Cursor ?w = ?w\<lparr>heap := heap ?w, stats := IncCursorCount 1 (stats ?w)\<rparr>" by (simp add: bucket_Cursor_def)
  then have "handle_ok n (nm \<in> created tx) (bucket_Cursor ?w) kvs"
    using handle_ok_frame [OF h, of "heap ?w" "IncCursorCount 1 (stats ?w)"] by simp
  moreover have e: "evolves ?w (bucket_Cursor ?w)" by (simp add: evolves_def bucket_Cursor_def)
  ultimately have "tx_holds n (put_back (bucket_Cursor ?w) (db, tx)) M0 (M(nm \<mapsto> kvs))"
    using put_back_holds [OF assms(1,2)] by blast
  moreover have "M(nm \<mapsto> kvs) = M" using assms(3) by auto
  ultimately show ?thesis
    using bucket_Get_spec [OF t(1)] t(2) e
    by (intro exI [of _ "bucket_Cursor ?w"]) (simp add: in_bucket_def, simp add: bucket_Cursor_def)
qed


section \<open>The directory operations\<close>

lemma alist_update_new: "k \<notin> fst ` set xs \<Longrightarrow> AList.update k v xs = xs @ [(k, v)]"
  by (induction xs) auto

lemma view_None:
  assumes "tx_holds n (db, tx) M0 M"
  shows "map_of (bctx tx) nm = None \<Longrightarrow> M nm = (if nm \<in> deleted tx then None else M0 nm)"
    and "M nm = None \<Longrightarrow> map_of (bctx tx) nm = None"
proof -
  have "view_at n (db, tx) M0 nm (M nm)" using assms by (simp add: tx_holds_def)
  then show "map_of (bctx tx) nm = None \<Longrightarrow> M nm = (if nm \<in> deleted tx then None else M0 nm)"
    "M nm = None \<Longrightarrow> map_of (bctx tx) nm = None"
    by (auto simp: view_at_def split: option.splits)
qed

lemma tx_base:
  assumes "tx_holds n (db, tx) M0 M"
  shows "rel_option (published (nodes db) n) (map_of (base_buckets tx) nm) (M0 nm)"
    and "n \<le> length (nodes db)"
  using assms by (auto simp: tx_holds_def state_holds_def base_buckets_def)

lemma exists_iff:
  assumes "tx_holds n (db, tx) M0 M"
  shows "bucketExistsCommitted tx nm \<longleftrightarrow> M0 nm \<noteq> None"
  using tx_base(1) [OF assms, of nm] by (auto simp: bucketExistsCommitted_def option.rel_sel)

text \<open>A new handle: its nodes are new, the other handles see the same nodes as before.\<close>

lemma add_handle:
  assumes "tx_holds n (db, tx) M0 M" and "map_of (bctx tx) nm = None"
    and "tx' = putBctx nm (length (bufs tx)) (tx\<lparr>bufs := bufs tx @ [bk], created := C, deleted := deleted tx - {nm}\<rparr>)"
    and "db' = db\<lparr>nodes := nodes db @ new\<rparr>" and "name bk = nm"
    and "dirty bk \<subseteq> {length (nodes db)..<length (nodes db) + length new}"
    and "handle_ok n (nm \<in> C) (bucket_wst (db', tx') (length (bufs tx))) kvs" and "dir_wf M0 tx'" and "C - {nm} = created tx - {nm}"
  shows "tx_holds n (db', tx') M0 (M(nm \<mapsto> kvs))"
proof -
  have t: "handles_wf n (db, tx)" "db_open tx" "n \<le> length (nodes db)"
    using assms(1) by (auto simp: tx_holds_def state_holds_def)
  obtain st where st: "base tx = Some st" "state_holds (nodes db) n st M0"
    using assms(1) by (auto simp: tx_holds_def)
  have u: "AList.update nm (length (bufs tx)) (bctx tx) = bctx tx @ [(nm, length (bufs tx))]"
    using assms(2) by (intro alist_update_new) (simp add: map_of_eq_None_iff)
  have b': "bctx tx' = bctx tx @ [(nm, length (bufs tx))]" "bufs tx' = bufs tx @ [bk]"
    "deleted tx' = deleted tx - {nm}" "base tx' = base tx" "db_open tx'" "nodes db' = nodes db @ new"
    "writable tx' = writable tx" "tx_stats tx' = tx_stats tx" "created tx' = C"
    using t(2) by (simp_all add: assms(3,4) putBctx_def u)
  have d: "dirty (bufs tx ! c) \<subseteq> {n..<length (nodes db)}" if "c < length (bufs tx)" for c
    using t(1) that by (simp add: handles_wf_def)
  have dj: "dirty (bufs tx ! c) \<inter> dirty bk = {}" if "c < length (bufs tx)" for c
    using d [OF that] assms(6) by force
  have "handles_wf n (db', tx')"
  proof -
    have "nm \<notin> fst ` set (bctx tx)" using assms(2) by (simp add: map_of_eq_None_iff)
    moreover have "length (bufs tx) \<notin> snd ` set (bctx tx)" using t(1) by (auto simp: handles_wf_def)
    moreover have "dirty (bufs tx' ! c) \<subseteq> {n..<length (nodes db')}" if "c < length (bufs tx')" for c
      using d [of c] assms(6) that t(3) unfolding b' by (cases "c < length (bufs tx)") (force simp: nth_append)+
    moreover have "dirty (bufs tx' ! c) \<inter> dirty (bufs tx' ! c') = {}"
      if "c < length (bufs tx')" "c' < length (bufs tx')" "c \<noteq> c'" for c c'
    proof -
      consider "c < length (bufs tx)" "c' < length (bufs tx)" | "c < length (bufs tx)" "c' = length (bufs tx)"
        | "c = length (bufs tx)" "c' < length (bufs tx)" using \<open>c < length (bufs tx')\<close> \<open>c' < length (bufs tx')\<close> \<open>c \<noteq> c'\<close> unfolding b' by fastforce
      then show ?thesis
        using t(1) that(3) dj unfolding b' by cases (auto simp: nth_append handles_wf_def)
    qed
    ultimately show ?thesis using t(1) assms(5) unfolding handles_wf_def
      by (auto simp: b' nth_append)
  qed
  moreover have "view_at n (db', tx') M0 nm' ((M(nm \<mapsto> kvs)) nm')" for nm'
  proof (cases "nm' = nm")
    case True
    then show ?thesis using assms(2,7) by (simp add: view_at_def b' map_add_def)
  next
    case False
    have v: "view_at n (db, tx) M0 nm' (M nm')" using assms(1) by (simp add: tx_holds_def)
    show ?thesis
    proof (cases "map_of (bctx tx) nm'")
      case None
      then show ?thesis using v False by (simp add: view_at_def b' map_add_def)
    next
      case (Some c)
      note c = tx_holdsD [OF assms(1) Some]
      obtain kvs' where k: "M nm' = Some kvs'" "handle_ok n (nm' \<in> created tx) (bucket_wst (db, tx) c) kvs'" using c(3) by blast
      have "handle_ok n (nm' \<in> created tx) ((bucket_wst (db, tx) c)\<lparr>heap := nodes db', stats := tx_stats tx\<rparr>) kvs'"
        by (rule handle_ok_frame [OF k(2)]) (use d [OF c(1)] t(3) in \<open>auto simp: b' nth_append\<close>)
      moreover have "(bucket_wst (db, tx) c)\<lparr>heap := nodes db', stats := tx_stats tx\<rparr> = bucket_wst (db', tx') c"
        by (rule wst_eqI) (use c(1) b' t(2) in \<open>auto simp: nth_append tx_baseState_def base_buckets_def\<close>)
      moreover have "nm' \<in> C \<longleftrightarrow> nm' \<in> created tx" using assms(9) False by blast
      ultimately show ?thesis using k(1) False Some by (simp add: view_at_def b' map_add_def)
    qed
  qed
  moreover have "state_holds (nodes db') n st M0"
    by (rule state_holds_frame [OF st(2)]) (use t(3) in \<open>auto simp: b' nth_append\<close>)
  ultimately show ?thesis using st(1) b' assms(8) by (auto simp: tx_holds_def)
qed


lemma published_handle:
  assumes "published (nodes db) n (Some bs) kvs" and "tx_baseState tx (name (bufs tx ! b)) = Some bs"
    and "rootNode (bufs tx ! b) = None" and "dirty (bufs tx ! b) = {}"
  shows "handle_ok n False (bucket_wst (db, tx) b) kvs"
proof -
  obtain t where t: "root bs = Some (raddr t)" "intree (nodes db) {} t" "btree t" "keys_ok t"
    "items t = kvs" "set (addrs t) \<subseteq> {..<n}"
    using assms(1) by (auto simp: published_def)
  then have "winv (bucket_wst (db, tx) b) t"
    using assms(2-4) by (simp add: winv_def rootView_def owned_def fresh_def)
  moreover have "leaf_base n (bucket_wst (db, tx) b) \<longrightarrow> leaf_root (bucket_wst (db, tx) b)"
    using assms(2,3) by (auto simp: leaf_base_def leaf_root_def rootView_def)
  ultimately show ?thesis using t assms(4) by (auto simp: handle_ok_def)
qed

lemma tx_Bucket_new:
  assumes "tx_holds n (db, tx) M0 M" and "map_of (bctx tx) nm = None" and "M nm = Some kvs"
  shows "\<exists>tx'. tx_Bucket nm tx = (Some (length (bufs tx)), tx') \<and> tx_holds n (db, tx') M0 M \<and>
           map_of (bctx tx') nm = Some (length (bufs tx)) \<and> writable tx' = writable tx \<and>
           created tx' = created tx \<and> deleted tx' = deleted tx \<and> managed tx' = managed tx"
proof -
  let ?b = "length (bufs tx)"
  have nd: "nm \<notin> deleted tx" "M0 nm = Some kvs"
    using view_None(1) [OF assms(1,2)] assms(3) by (auto split: if_splits)
  obtain bs where bs: "map_of (base_buckets tx) nm = Some (Some bs)" "published (nodes db) n (Some bs) kvs"
    using tx_base(1) [OF assms(1), of nm] nd(2) by (auto simp: option_rel_Some2 published_def)
  let ?tx = "tx\<lparr>bufs := bufs tx @ [newBucket nm], created := created tx, deleted := deleted tx - {nm}\<rparr>"
  have tx': "putBctx nm ?b (tx\<lparr>bufs := bufs tx @ [newBucket nm]\<rparr>) = putBctx nm ?b ?tx"
    using nd(1) by simp
  have "tx_holds n (db\<lparr>nodes := nodes db @ []\<rparr>, putBctx nm ?b ?tx) M0 (M(nm \<mapsto> kvs))"
  proof (rule add_handle [OF assms(1,2) refl refl])
    have "nm \<notin> created tx"
      using assms(1,2) by (auto simp: tx_holds_def dir_wf_def map_of_eq_None_iff)
    then have nc: "(nm \<in> created tx) = False" by simp
    show "handle_ok n (nm \<in> created tx) (bucket_wst (db\<lparr>nodes := nodes db @ []\<rparr>, putBctx nm ?b ?tx) ?b) kvs"
      unfolding nc by (rule published_handle [where bs = bs])
        (use bs in \<open>auto simp: putBctx_def newBucket_def tx_baseState_def nth_append\<close>)
    have "dir_wf M0 tx" using assms(1) by (simp add: tx_holds_def)
    then show "dir_wf M0 (putBctx nm ?b ?tx)"
      using nd alist_update_new [of nm "bctx tx" ?b] assms(2)
      by (auto simp: dir_wf_def putBctx_def map_of_eq_None_iff)
  qed (simp_all add: newBucket_def)
  moreover have "M(nm \<mapsto> kvs) = M" using assms(3) by auto
  moreover have "tx_Bucket nm tx = (Some ?b, putBctx nm ?b ?tx)"
    unfolding tx'[symmetric] using assms(1,2) nd(1) bs(1)
    by (simp add: tx_Bucket_def tx_holds_def tx_baseState_def Let_def)
  ultimately show ?thesis using nd(1) by (auto simp: putBctx_def update_conv')
qed

lemma tx_Bucket_holds:
  assumes "tx_holds n (db, tx) M0 M"
  shows "case M nm of
      None \<Rightarrow> tx_Bucket nm tx = (None, tx)
    | Some kvs \<Rightarrow> \<exists>b tx'. tx_Bucket nm tx = (Some b, tx') \<and> tx_holds n (db, tx') M0 M \<and>
        map_of (bctx tx') nm = Some b \<and> writable tx' = writable tx \<and> created tx' = created tx \<and>
        deleted tx' = deleted tx \<and> managed tx' = managed tx"
proof (cases "map_of (bctx tx) nm")
  case None
  have op: "db_open tx" using assms by (simp add: tx_holds_def)
  show ?thesis
  proof (cases "M nm")
    case M: None
    then have "nm \<in> deleted tx \<or> M0 nm = None" using view_None(1) [OF assms None] by (auto split: if_splits)
    then have "nm \<in> deleted tx \<or> tx_baseState tx nm = None"
      using tx_base(1) [OF assms, of nm] by (auto simp: tx_baseState_def option.rel_sel split: option.splits)
    then show ?thesis using M None op by (auto simp: tx_Bucket_def)
  next
    case (Some kvs)
    then show ?thesis using tx_Bucket_new [OF assms None Some] by auto
  qed
next
  case (Some b)
  obtain kvs where "M nm = Some kvs" using tx_holdsD(3) [OF assms Some] by blast
  moreover have "tx_Bucket nm tx = (Some b, tx)" using Some assms by (simp add: tx_Bucket_def tx_holds_def)
  ultimately show ?thesis using assms Some by auto
qed

lemma CreateBucket_exists:
  assumes "tx_holds n (db, tx) M0 M" and "writable tx" and "nm \<noteq> []" and "M nm \<noteq> None"
  shows "CreateBucket nm (db, tx) = (Inl ErrBucketExists, (db, tx))"
proof -
  have dw: "dir_wf M0 tx" "db_open tx" using assms(1) by (simp_all add: tx_holds_def)
  have "nm \<notin> deleted tx \<and> (nm \<in> created tx \<or> M0 nm \<noteq> None)"
  proof (cases "map_of (bctx tx) nm")
    case None
    then show ?thesis using view_None(1) [OF assms(1) None] assms(4) by (auto split: if_splits)
  next
    case (Some b)
    then have "nm \<in> fst ` set (bctx tx)" by (metis map_of_SomeD fst_conv image_eqI)
    then show ?thesis using dw(1) by (auto simp: dir_wf_def)
  qed
  then show ?thesis using assms(2,3) dw(2) exists_iff [OF assms(1)] by (simp add: CreateBucket_def)
qed

lemma CreateBucket_new:
  assumes "tx_holds n (db, tx) M0 M" and "writable tx" and "nm \<noteq> []" and "M nm = None"
  shows "\<exists>db' tx'. CreateBucket nm (db, tx) = (Inr (length (bufs tx)), (db', tx')) \<and>
           tx_holds n (db', tx') M0 (M(nm \<mapsto> [])) \<and> map_of (bctx tx') nm = Some (length (bufs tx)) \<and>
           writable tx' \<and> managed tx' = managed tx \<and> created tx' = insert nm (created tx) \<and>
           deleted tx' = deleted tx - {nm}"
proof -
  let ?b = "length (bufs tx)" and ?r = "length (nodes db)"
  let ?n = "new_node\<lparr>bucket := Some ?b, isLeaf := True\<rparr>"
  let ?bk = "(newBucket nm)\<lparr>rootNode := Some ?r, dirty := {?r}\<rparr>"
  let ?tx = "tx\<lparr>bufs := bufs tx @ [?bk], created := insert nm (created tx), deleted := deleted tx - {nm}\<rparr>"
  let ?db = "db\<lparr>nodes := nodes db @ [?n]\<rparr>"
  have dw: "dir_wf M0 tx" "db_open tx" using assms(1) by (simp_all add: tx_holds_def)
  note none = view_None(2) [OF assms(1,4)]
  have nc: "nm \<notin> created tx" using dw(1) none by (auto simp: dir_wf_def map_of_eq_None_iff)
  have "nm \<in> deleted tx \<or> M0 nm = None"
    using view_None(1) [OF assms(1) none] assms(4) by (auto split: if_splits)
  then have run: "CreateBucket nm (db, tx) = (Inr ?b, (?db, putBctx nm ?b ?tx))"
    using assms(2,3) dw(2) nc exists_iff [OF assms(1)] by (simp add: CreateBucket_def Let_def)
  have "tx_holds n (?db, putBctx nm ?b ?tx) M0 (M(nm \<mapsto> []))"
  proof (rule add_handle [OF assms(1) none refl refl])
    let ?w = "bucket_wst (?db, putBctx nm ?b ?tx) ?b"
    have "winv ?w (Leaf ?r [])"
      by (simp add: winv_def intree_def btree_def rootView_def owned_def fresh_def putBctx_def new_node_def)
    moreover have "leaf_root ?w" by (simp add: leaf_root_def rootView_def putBctx_def)
    moreover have "n \<le> ?r" by (rule tx_base(2) [OF assms(1)])
    ultimately show "handle_ok n (nm \<in> insert nm (created tx)) ?w []"
      unfolding handle_ok_def
      by (intro conjI exI [of _ "Leaf ?r []"]) (simp_all add: keys_ok_def tkeys_def putBctx_def)
    show "dir_wf M0 (putBctx nm ?b ?tx)"
      using dw(1) alist_update_new [of nm "bctx tx" ?b] none assms(3)
      by (auto simp: dir_wf_def putBctx_def map_of_eq_None_iff)
  qed (simp_all add: newBucket_def)
  then show ?thesis using run assms(2) by (auto simp: putBctx_def update_conv')
qed


text \<open>Dropping a handle: the name then shows the pinned state again unless it is marked deleted.\<close>

lemma drop_handle:
  assumes "tx_holds n (db, tx) M0 M" and "D = deleted tx \<or> D = insert nm (deleted tx)" and "D \<subseteq> dom M0"
    and "tx' = tx\<lparr>created := created tx - {nm}, deleted := D, bctx := AList.delete nm (bctx tx)\<rparr>"
  shows "tx_holds n (db, tx') M0 (M(nm := if nm \<in> D then None else M0 nm))"
proof -
  have wf: "handles_wf n (db, tx)" "dir_wf M0 tx" "db_open tx" using assms(1) by (simp_all add: tx_holds_def)
  have set: "set (AList.delete nm (bctx tx)) \<subseteq> set (bctx tx)" by (auto simp: AList.delete_eq)
  have keys: "fst ` set (AList.delete nm (bctx tx)) = fst ` set (bctx tx) - {nm}"
    by (auto simp: AList.delete_eq)
  have "distinct (map snd (AList.delete nm (bctx tx)))" "distinct (map fst (AList.delete nm (bctx tx)))"
    using wf(1) by (auto simp: handles_wf_def AList.delete_eq distinct_map_filter)
  then have "handles_wf n (db, tx')" using wf(1) set by (auto simp: handles_wf_def assms(4))
  moreover have "dir_wf M0 tx'"
    using wf(2) assms(2,3) keys by (auto simp: dir_wf_def assms(4))
  moreover have "view_at n (db, tx') M0 nm' ((M(nm := if nm \<in> D then None else M0 nm)) nm')" for nm'
  proof -
    have "view_at n (db, tx) M0 nm' (M nm')" using assms(1) by (simp add: tx_holds_def)
    moreover have "bucket_wst (db, tx') c = bucket_wst (db, tx) c" for c
      by (rule wst_eqI) (simp_all add: assms(4))
    moreover have "bctx tx' = AList.delete nm (bctx tx)" "deleted tx' = D" "created tx' = created tx - {nm}" by (simp_all add: assms(4))
    ultimately show ?thesis
      using assms(2) by (cases "nm' = nm") (auto simp: view_at_def delete_conv' split: option.splits)
  qed
  ultimately show ?thesis using assms(1,4) wf(3) by (auto simp: tx_holds_def)
qed

lemma DeleteBucket_created:
  assumes "tx_holds n (db, tx) M0 M" and "writable tx" and "nm \<in> created tx"
  shows "\<exists>tx'. DeleteBucket nm tx = (None, tx') \<and> tx_holds n (db, tx') M0 (M(nm := M0 nm)) \<and>
           writable tx' \<and> managed tx' = managed tx \<and> created tx' = created tx - {nm} \<and> deleted tx' = deleted tx"
proof -
  let ?tx = "tx\<lparr>created := created tx - {nm}, deleted := deleted tx, bctx := AList.delete nm (bctx tx)\<rparr>"
  have dw: "dir_wf M0 tx" "db_open tx" using assms(1) by (simp_all add: tx_holds_def)
  then have "deleted tx \<subseteq> dom M0" "nm \<notin> deleted tx" using assms(3) by (auto simp: dir_wf_def)
  then have "tx_holds n (db, ?tx) M0 (M(nm := M0 nm))"
    using drop_handle [OF assms(1), of "deleted tx" nm ?tx] by simp
  moreover have "DeleteBucket nm tx = (None, ?tx)"
    using assms(2,3) dw(2) by (simp add: DeleteBucket_def)
  ultimately show ?thesis using assms(2) by auto
qed

lemma DeleteBucket_committed:
  assumes "tx_holds n (db, tx) M0 M" and "writable tx" and "nm \<notin> created tx" and "M0 nm \<noteq> None"
  shows "\<exists>tx'. DeleteBucket nm tx = (None, tx') \<and> tx_holds n (db, tx') M0 (M(nm := None)) \<and>
           writable tx' \<and> managed tx' = managed tx \<and> created tx' = created tx \<and> deleted tx' = insert nm (deleted tx)"
proof -
  let ?D = "insert nm (deleted tx)"
  let ?tx = "tx\<lparr>created := created tx - {nm}, deleted := ?D, bctx := AList.delete nm (bctx tx)\<rparr>"
  have dw: "dir_wf M0 tx" "db_open tx" using assms(1) by (simp_all add: tx_holds_def)
  then have "?D \<subseteq> dom M0" using assms(4) by (auto simp: dir_wf_def)
  then have "tx_holds n (db, ?tx) M0 (M(nm := None))"
    using drop_handle [OF assms(1), of ?D nm ?tx] by simp
  moreover have "DeleteBucket nm tx = (None, ?tx)"
    using assms(2,3,4) dw(2) exists_iff [OF assms(1)] by (simp add: DeleteBucket_def)
  ultimately show ?thesis using assms(2,3) by auto
qed

lemma DeleteBucket_missing:
  assumes "tx_holds n (db, tx) M0 M" and "writable tx" and "nm \<notin> created tx" and "M0 nm = None"
  shows "DeleteBucket nm tx = (Some ErrBucketNotFound, tx)"
  using assms exists_iff [OF assms(1)] by (simp add: DeleteBucket_def tx_holds_def)

lemma CreateBucketIfNotExists_holds:
  assumes "tx_holds n (db, tx) M0 M" and "writable tx" and "nm \<noteq> []"
  shows "\<exists>b db' tx'. CreateBucketIfNotExists nm (db, tx) = (Inr b, (db', tx')) \<and>
           tx_holds n (db', tx') M0 (M(nm \<mapsto> (case M nm of None \<Rightarrow> [] | Some kvs \<Rightarrow> kvs))) \<and>
           map_of (bctx tx') nm = Some b"
proof -
  have op: "db_open tx" using assms(1) by (simp add: tx_holds_def)
  show ?thesis
  proof (cases "M nm")
    case None
    have "tx_Bucket nm tx = (None, tx)" using tx_Bucket_holds [OF assms(1), of nm] None by simp
    then have "CreateBucketIfNotExists nm (db, tx) = CreateBucket nm (db, tx)"
      using op assms(2,3) by (simp add: CreateBucketIfNotExists_def)
    then show ?thesis using CreateBucket_new [OF assms None] None by auto
  next
    case (Some kvs)
    then obtain b tx' where "tx_Bucket nm tx = (Some b, tx')" "tx_holds n (db, tx') M0 M" "map_of (bctx tx') nm = Some b"
      using tx_Bucket_holds [OF assms(1), of nm] by auto
    moreover have "M(nm \<mapsto> kvs) = M" using Some by auto
    ultimately show ?thesis using op assms(2,3) Some by (auto simp: CreateBucketIfNotExists_def)
  qed
qed

text \<open>The names a directory cursor runs over and the names \<open>ForEach\<close> visits.\<close>

lemma dom_view:
  assumes "tx_holds n (db, tx) M0 M"
  shows "dom M = (dom M0 \<union> created tx) - deleted tx" and "dom M0 = fst ` set (base_buckets tx)" and "finite (dom M)"
proof -
  have dw: "dir_wf M0 tx" using assms by (simp add: tx_holds_def)
  have "nm \<in> dom M \<longleftrightarrow> nm \<in> (dom M0 \<union> created tx) - deleted tx" for nm
  proof (cases "map_of (bctx tx) nm")
    case None
    then have "nm \<notin> created tx" using dw by (auto simp: dir_wf_def map_of_eq_None_iff)
    then show ?thesis using view_None(1) [OF assms None] by (auto simp: domIff)
  next
    case (Some b)
    then have "nm \<in> fst ` set (bctx tx)" by (metis map_of_SomeD fst_conv image_eqI)
    then show ?thesis using dw tx_holdsD(3) [OF assms Some] by (auto simp: dir_wf_def)
  qed
  then show e: "dom M = (dom M0 \<union> created tx) - deleted tx" by blast
  show d: "dom M0 = fst ` set (base_buckets tx)"
    using tx_base(1) [OF assms] unfolding dom_map_of_conv_image_fst [symmetric] by (auto simp: option.rel_sel dom_def)
  show "finite (dom M)" using dw unfolding e d by (auto simp: dir_wf_def)
qed

lemma tx_Cursor_dir:
  assumes "tx_holds n (db, tx) M0 M"
  shows "tx_Cursor tx = Some \<lparr>dir = sorted_list_of_set (dom M), dirIdx = -1\<rparr>"
  using assms dom_view [OF assms] by (simp add: tx_Cursor_def tx_holds_def)

end
