(* ===== verification/Vm_TxCommit.thy ===== *)
theory Vm_TxCommit
  imports Vm_Tx
begin

text \<open>
  The commit of a transaction (\<open>Tx.Commit\<close>): the three loops over the open buckets, the
  published state and the closing of the transaction.

  The first two loops run a bucket method on every open bucket. What such a loop does is
  the content of the locale \<open>bucket_stage\<close>, which is interpreted for \<open>rebalance\<close> and for
  \<open>spill\<close>: a method that takes its bucket from one predicate to another, and touches only
  its own nodes, takes every bucket there, in whatever order the buckets are visited.
\<close>

section \<open>Loops over the open buckets\<close>

text \<open>Predicates on a bucket that depend only on the published nodes and on its own.\<close>

definition framed :: "(nat \<Rightarrow> wst \<Rightarrow> kv list \<Rightarrow> bool) \<Rightarrow> bool" where
  "framed P \<longleftrightarrow>
     (\<forall>n w kvs h' x. P n w kvs \<longrightarrow> (\<forall>a\<in>{..<n} \<union> dirty w. h' ! a = heap w ! a) \<longrightarrow>
        length (heap w) \<le> length h' \<longrightarrow> P n (w\<lparr>heap := h', stats := x\<rparr>) kvs)"

lemma framedD:
  assumes "framed P" and "P n w kvs" and "\<forall>a\<in>{..<n} \<union> dirty w. h' ! a = heap w ! a" and "length (heap w) \<le> length h'"
  shows "P n (w\<lparr>heap := h', stats := x\<rparr>) kvs"
  using assms unfolding framed_def by blast

lemma framed_put_back:
  assumes "framed P" and "handles_wf n (db, tx)" and "n \<le> length (nodes db)"
    and "evolves (bucket_wst (db, tx) b) w" and "b < length (bufs tx)"
    and "c < length (bufs tx)" and "c \<noteq> b" and "P n (bucket_wst (db, tx) c) kvs"
  shows "P n (bucket_wst (put_back w (db, tx)) c) kvs"
proof -
  note fr = evolves_frame [OF assms(2,4,5,3)]
  have "P n ((bucket_wst (db, tx) c)\<lparr>heap := heap w, stats := stats w\<rparr>) kvs"
    by (rule framedD [OF assms(1,8)])
      (use fr(1) fr(2) [OF assms(6,7)] assms(4) in \<open>auto simp: evolves_def\<close>)
  then show ?thesis using bucket_wst_put_back [OF assms(4,5)] assms(7) by simp
qed

text \<open>What the loops leave alone.\<close>

definition same_tx :: "nat \<Rightarrow> txst \<Rightarrow> txst \<Rightarrow> bool" where
  "same_tx n s s' \<longleftrightarrow> (case (s, s') of ((db, tx), (db', tx')) \<Rightarrow>
     length (nodes db) \<le> length (nodes db') \<and> (\<forall>a<n. nodes db' ! a = nodes db ! a) \<and>
     (\<exists>h. db' = db\<lparr>nodes := h\<rparr>) \<and> (\<exists>bs st. tx' = tx\<lparr>bufs := bs, tx_stats := st\<rparr>) \<and>
     map name (bufs tx') = map name (bufs tx))"

lemma same_tx_refl [simp]: "same_tx n s s"
proof (cases s)
  case (Pair db tx)
  have "db = db\<lparr>nodes := nodes db\<rparr>" "tx = tx\<lparr>bufs := bufs tx, tx_stats := tx_stats tx\<rparr>" by simp_all
  then show ?thesis unfolding Pair same_tx_def by blast
qed

lemma same_tx_fields:
  assumes "same_tx n (db, tx) (db', tx')"
  shows "bctx tx' = bctx tx" and "base tx' = base tx" and "created tx' = created tx"
    and "deleted tx' = deleted tx" and "writable tx' = writable tx" and "managed tx' = managed tx"
    and "db_open tx' = db_open tx" and "commitHandlers tx' = commitHandlers tx"
    and "rwlock db' = rwlock db" and "opened db' = opened db" and "state db' = state db"
    and "readOnly db' = readOnly db" and "db_stats db' = db_stats db"
  using assms unfolding same_tx_def by auto

lemma same_tx_trans: "same_tx n s s' \<Longrightarrow> same_tx n s' s'' \<Longrightarrow> same_tx n s s''"
  by (cases s, cases s', cases s'') (auto simp: same_tx_def, blast)

lemma same_tx_stats: "same_tx n s (db', tx') \<Longrightarrow> same_tx n s (db', tx'\<lparr>tx_stats := x\<rparr>)"
  by (cases s) (auto simp: same_tx_def, blast)

lemma same_tx_put_back:
  assumes "handles_wf n (db, tx)" and "evolves (bucket_wst (db, tx) b) w" and "b < length (bufs tx)"
    and "n \<le> length (nodes db)"
  shows "same_tx n (db, tx) (put_back w (db, tx))"
proof -
  have w: "name w = name (bufs tx ! b)" "self w = b" "length (nodes db) \<le> length (heap w)"
    using assms(2) by (simp_all add: evolves_def)
  have "map name ((bufs tx)[b := Bucket.truncate w]) = map name (bufs tx)"
    using w(1) assms(3) by (simp add: map_update list_update_same_conv)
  then show ?thesis using w evolves_frame(1) [OF assms] by (auto simp: same_tx_def put_back_def)
qed

locale bucket_stage =
  fixes run :: "'x \<Rightarrow> wst \<Rightarrow> wst res"
    and arg_ok :: "'x \<Rightarrow> addr set \<Rightarrow> bool"
    and before_run :: "nat \<Rightarrow> wst \<Rightarrow> kv list \<Rightarrow> bool"
    and after_run :: "nat \<Rightarrow> wst \<Rightarrow> kv list \<Rightarrow> bool"
  assumes run_ok: "before_run n w kvs \<Longrightarrow> arg_ok x (dirty w) \<Longrightarrow> n \<le> length (heap w) \<Longrightarrow>
      \<exists>w'. run x w = Inr w' \<and> after_run n w' kvs \<and> owned w' \<and> evolves w w'"
    and before_framed: "framed before_run"
    and after_framed: "framed after_run"
begin

definition stage_of :: "nat \<Rightarrow> wst \<Rightarrow> kv list option \<Rightarrow> 'x option \<Rightarrow> bool" where
  "stage_of n w v todo \<longleftrightarrow> (\<exists>kvs. v = Some kvs \<and>
     (case todo of
        Some x \<Rightarrow> before_run n w kvs \<and> arg_ok x (dirty w)
      | None \<Rightarrow> after_run n w kvs))"

definition at_stage :: "nat \<Rightarrow> txst \<Rightarrow> (bytes \<rightharpoonup> kv list) \<Rightarrow> (bytes \<times> 'x) list \<Rightarrow> bool" where
  "at_stage n s M os \<longleftrightarrow>
     handles_wf n s \<and> n \<le> length (nodes (fst s)) \<and> distinct (map fst os) \<and>
     (\<forall>(nm, b)\<in>set (bctx (snd s)). stage_of n (bucket_wst s b) (M nm) (map_of os nm))"

lemma stage_of_put_back:
  assumes "stage_of n (bucket_wst (db, tx) c) v todo" and "handles_wf n (db, tx)" and "n \<le> length (nodes db)"
    and "evolves (bucket_wst (db, tx) b) w" and "b < length (bufs tx)" and "c < length (bufs tx)" and "c \<noteq> b"
  shows "stage_of n (bucket_wst (put_back w (db, tx)) c) v todo"
proof -
  have d: "dirty (bucket_wst (put_back w (db, tx)) c) = dirty (bucket_wst (db, tx) c)"
    using bucket_wst_put_back [OF assms(4,5), of c] assms(7) by simp
  show ?thesis
    using assms(1) framed_put_back [OF before_framed assms(2-7)] framed_put_back [OF after_framed assms(2-7)]
    unfolding stage_of_def d by (cases todo) auto
qed

lemma stage_step:
  assumes "at_stage n (db, tx) M ((nm, x) # os)" and "map_of (bctx tx) nm = Some b"
  shows "\<exists>w. run x (bucket_wst (db, tx) b) = Inr w \<and> at_stage n (put_back w (db, tx)) M os \<and>
           same_tx n (db, tx) (put_back w (db, tx))"
proof -
  have b: "(nm, b) \<in> set (bctx tx)" by (rule map_of_SomeD [OF assms(2)])
  have wf: "handles_wf n (db, tx)" "n \<le> length (nodes db)" "b < length (bufs tx)"
    using assms(1) b by (auto simp: at_stage_def handles_wf_def)
  have st: "stage_of n (bucket_wst (db, tx) c) (M nm') (map_of ((nm, x) # os) nm')"
    if "(nm', c) \<in> set (bctx tx)" for nm' c
    using assms(1) that unfolding at_stage_def by auto
  obtain kvs where k: "M nm = Some kvs" "before_run n (bucket_wst (db, tx) b) kvs" "arg_ok x (dirty (bucket_wst (db, tx) b))"
    using st [OF b] by (auto simp: stage_of_def)
  obtain w where w: "run x (bucket_wst (db, tx) b) = Inr w" "after_run n w kvs" "owned w" "evolves (bucket_wst (db, tx) b) w"
    using run_ok [OF k(2,3)] wf(2) by auto
  note wf' = handles_wf_put_back [OF wf(1) w(4,3) wf(3,2)]
  have "stage_of n (bucket_wst (put_back w (db, tx)) c) (M nm') (map_of os nm')"
    if c: "(nm', c) \<in> set (bctx tx)" for nm' c
  proof (cases "c = b")
    case True
    have d: "distinct (map snd (bctx tx))" "distinct (map fst (bctx tx))" using wf(1) by (auto simp: handles_wf_def)
    have "map_of (bctx tx) nm' = Some b" using c d(2) True by simp
    then have "nm' = nm" using map_of_inj_snd [OF d(1)] assms(2) by blast
    moreover have "map_of os nm = None" using assms(1) by (auto simp: at_stage_def map_of_eq_None_iff)
    ultimately show ?thesis using True k(1) w(2) bucket_wst_put_back [OF w(4) wf(3)] by (simp add: stage_of_def)
  next
    case False
    have "distinct (map fst (bctx tx))" using wf(1) by (auto simp: handles_wf_def)
    then have ne: "nm' \<noteq> nm" using False c b by (auto dest: eq_key_imp_eq_value)
    have cl: "c < length (bufs tx)" using wf(1) c by (auto simp: handles_wf_def)
    show ?thesis using stage_of_put_back [OF st [OF c] wf(1,2) w(4) wf(3) cl False] ne by simp
  qed
  moreover have "n \<le> length (heap w)" using w(4) wf(2) by (simp add: evolves_def)
  moreover have "bctx (snd (put_back w (db, tx))) = bctx tx" "nodes (fst (put_back w (db, tx))) = heap w"
    by simp_all
  ultimately have "at_stage n (put_back w (db, tx)) M os"
    using wf' assms(1) unfolding at_stage_def by auto
  then show ?thesis using w(1) same_tx_put_back [OF wf(1) w(4) wf(3,2)] by blast
qed

text \<open>Statistics do not matter to what a bucket holds.\<close>

lemma at_stage_stats:
  assumes "at_stage n (db, tx) M os"
  shows "at_stage n (db, tx\<lparr>tx_stats := x\<rparr>) M os"
proof -
  have "stage_of n (bucket_wst (db, tx\<lparr>tx_stats := x\<rparr>) b) v todo"
    if "stage_of n (bucket_wst (db, tx) b) v todo" for b v todo
  proof -
    have w: "bucket_wst (db, tx\<lparr>tx_stats := x\<rparr>) b = (bucket_wst (db, tx) b)\<lparr>heap := nodes db, stats := x\<rparr>"
      by (rule wst_eqI) simp_all
    show ?thesis
      using that framedD [OF before_framed, of n "bucket_wst (db, tx) b" _ "nodes db" x]
        framedD [OF after_framed, of n "bucket_wst (db, tx) b" _ "nodes db" x]
      unfolding w stage_of_def by (cases todo) auto
  qed
  then show ?thesis using assms unfolding at_stage_def handles_wf_def by auto
qed

lemma stage_loop:
  assumes "at_stage n s M os" and "set (map fst os) \<subseteq> fst ` set (bctx (snd s))"
  shows "\<exists>s'. each_bucket run os s = Inr s' \<and> at_stage n s' M [] \<and> same_tx n s s'"
  using assms
proof (induction os arbitrary: s)
  case (Cons o1 os)
  obtain nm x where o1: "o1 = (nm, x)" by fastforce
  obtain db tx where s: "s = (db, tx)" by fastforce
  have "nm \<in> fst ` set (bctx tx)" using Cons.prems(2) o1 s by simp
  then obtain b where b: "map_of (bctx tx) nm = Some b" by (metis map_of_eq_None_iff option.exhaust)
  obtain w where w: "run x (bucket_wst (db, tx) b) = Inr w" "at_stage n (put_back w (db, tx)) M os"
    "same_tx n (db, tx) (put_back w (db, tx))"
    using stage_step [OF Cons.prems(1) [unfolded o1 s] b] by blast
  have "set (map fst os) \<subseteq> fst ` set (bctx (snd (put_back w (db, tx))))"
    using Cons.prems(2) s by (simp add: put_back_def)
  then obtain s' where "each_bucket run os (put_back w (db, tx)) = Inr s'" "at_stage n s' M []"
    "same_tx n (put_back w (db, tx)) s'"
    using Cons.IH [OF w(2)] by blast
  then show ?case using w(1,3) b o1 s same_tx_trans by fastforce
qed simp

end


section \<open>The stages of a bucket\<close>

text \<open>
  \<open>committable\<close>: the bucket was not written, or its materialised root is a leaf (which the
  commit may split into any number of leaves and levels of branches).
\<close>

definition committable :: "wst \<Rightarrow> bool" where
  "committable w \<longleftrightarrow> (\<forall>r. rootNode w = Some r \<longrightarrow> isLeaf (heap w ! r))"

definition ready :: "nat \<Rightarrow> wst \<Rightarrow> kv list \<Rightarrow> bool" where
  "ready n w kvs \<longleftrightarrow> handle_ok n False w kvs \<and> committable w"

text \<open>Pairs that fit into one leaf; the spill then leaves the root a leaf.\<close>

definition small_kvs :: "kv list \<Rightarrow> bool" where
  "small_kvs kvs \<longleftrightarrow>
     nodeHeaderOverheadBytes + sum_list (map (\<lambda>p. nodeInodeOverheadBytes + length (fst p) + length (snd p)) kvs)
       < defaultMaxNodeSizeBytes"

definition spilled_ok :: "nat \<Rightarrow> wst \<Rightarrow> kv list \<Rightarrow> bool" where
  "spilled_ok n w kvs \<longleftrightarrow>
     (\<exists>t. intree (heap w) {} t \<and> btree t \<and> keys_ok t \<and> items t = kvs \<and> rootView w = Some (raddr t) \<and>
          set (addrs t) \<subseteq> {..<n} \<union> dirty w) \<and>
     (\<forall>r. rootNode w = Some r \<longrightarrow> small_kvs kvs \<longrightarrow> isLeaf (heap w ! r))"

lemma framed_ready: "framed ready"
  unfolding framed_def
proof (intro allI impI)
  fix n w kvs and h' :: heap and x
  assume r: "ready n w kvs" and h: "\<forall>a\<in>{..<n} \<union> dirty w. h' ! a = heap w ! a" and l: "length (heap w) \<le> length h'"
  have "\<forall>r. rootNode w = Some r \<longrightarrow> r \<in> dirty w" using r by (auto simp: ready_def handle_ok_def winv_def owned_def)
  then have "committable (w\<lparr>heap := h', stats := x\<rparr>)" using r h by (auto simp: ready_def committable_def)
  then show "ready n (w\<lparr>heap := h', stats := x\<rparr>) kvs"
    using handle_ok_frame [OF _ h l] r by (simp add: ready_def)
qed

lemma framed_spilled_ok: "framed spilled_ok"
  unfolding framed_def
proof (intro allI impI)
  fix n w kvs and h' :: heap and x
  assume s: "spilled_ok n w kvs" and h: "\<forall>a\<in>{..<n} \<union> dirty w. h' ! a = heap w ! a" and l: "length (heap w) \<le> length h'"
  from s obtain t where t: "intree (heap w) {} t" "btree t" "keys_ok t" "items t = kvs" "rootView w = Some (raddr t)"
    "set (addrs t) \<subseteq> {..<n} \<union> dirty w" by (auto simp: spilled_ok_def)
  have "intree h' {} t"
    by (rule intree_same [OF t(1)]) (use h l t(6) in \<open>auto simp: same_on_def\<close>)
  moreover have "raddr t \<in> {..<n} \<union> dirty w" using t(6) raddr_in_addrs by blast
  then have "\<forall>r. rootNode w = Some r \<longrightarrow> small_kvs kvs \<longrightarrow> isLeaf (h' ! r)"
    using s h t(5) by (auto simp: spilled_ok_def rootView_def)
  ultimately show "spilled_ok n (w\<lparr>heap := h', stats := x\<rparr>) kvs"
    using t(2-6) unfolding spilled_ok_def rootView_heap by (intro conjI exI [of _ t]) simp_all
qed

lemma committable_leaf:
  assumes "winv w t" and "committable w" and "rootNode w = Some r"
  shows "t = Leaf r (items t)"
proof -
  have r: "raddr t = r" using assms(1,3) by (auto simp: winv_def rootView_def)
  have "isLeaf (heap w ! r)" using assms(2,3) by (simp add: committable_def)
  then show ?thesis using assms(1) r by (cases t) (auto simp: winv_def intree_Branch)
qed

lemma bucket_rebalance_ready:
  assumes "ready n w kvs" and "set ord = dirty w" and "n \<le> length (heap w)"
  shows "\<exists>w'. bucket_rebalance ord w = Inr w' \<and> ready n w' kvs \<and> owned w' \<and> evolves w w'"
proof -
  obtain t where t: "winv w t" "items t = kvs" "keys_ok t" "set (addrs t) \<subseteq> {..<n} \<union> dirty w"
    using assms(1) by (auto simp: ready_def handle_ok_def)
  have cm: "committable w" using assms(1) by (simp add: ready_def)
  show ?thesis
  proof (cases "rootNode w")
    case None
    then have "ord = []" using t(1) assms(2) by (simp add: winv_def)
    then show ?thesis using assms(1) t(1) by (simp add: winv_def)
  next
    case (Some r)
    note tl = committable_leaf [OF t(1) cm Some]
    obtain w' where w': "bucket_rebalance ord w = Inr w'" "winv w' (Leaf r kvs)" "rootNode w' = Some r"
      using bucket_rebalance_leaf_root [of w r kvs ord] t(1,2) tl Some assms(2) by auto
    have e: "owned w' \<and> evolves w w'"
      using bucket_rebalance_step [OF w'(1)] t(1) assms(2) by (auto simp: step_def winv_def)
    have lf: "isLeaf (heap w' ! r)" using w'(2) by (simp add: winv_def intree_def)
    have "set (addrs (Leaf r kvs)) \<subseteq> {..<n} \<union> dirty w'" "keys_ok (Leaf r kvs)"
      using t(2-4) tl e by (auto simp: evolves_def)
    moreover have "\<forall>a\<in>dirty w'. n \<le> a"
      using evolves_above [of w w' n] e assms(1,3) by (simp add: ready_def handle_ok_def)
    moreover have "leaf_root w'" using lf w'(3) by (simp add: leaf_root_def rootView_def)
    ultimately have "handle_ok n False w' kvs"
      unfolding handle_ok_def using w'(2) by (intro conjI exI [of _ "Leaf r kvs"]) simp_all
    moreover have "committable w'" using lf w'(3) by (simp add: committable_def)
    ultimately show ?thesis using w'(1) e by (auto simp: ready_def)
  qed
qed

lemma bucket_spill_small:
  assumes "winv w (Leaf r kvs)" and "rootNode w = Some r" and "small_kvs kvs" and "settled w r"
  shows "\<exists>w'. bucket_spill w = Inr w' \<and> rootNode w' = Some r \<and> isLeaf (heap w' ! r)"
proof -
  have w: "r < length (heap w)" "isLeaf (heap w ! r)" "list_all2 leaf_entry (inodes (heap w ! r)) kvs"
    "parent (heap w ! r) = None" "\<not> spilled (heap w ! r)"
    using assms(1,2) by (auto simp: winv_def intree_def owned_def fresh_def)
  have "map inode_size (inodes (heap w ! r)) = map (\<lambda>p. nodeInodeOverheadBytes + length (fst p) + length (snd p)) kvs"
    using w(3) by (auto simp: list_all2_conv_all_nth leaf_entry_def inode_size_def intro!: nth_equalityI)
  then have "sizeLessThan (heap w ! r) defaultMaxNodeSizeBytes"
    using assms(3) by (simp add: sizeLessThan_eq node_size_eq small_kvs_def)
  then have "split r w = ([r], w)" by (subst split.simps) (simp add: splitTwo_def Let_def)
  moreover obtain f where f: "ffuel w = Suc f" "0 < f" using ffuel_node [OF w(1)] by (cases "ffuel w") auto
  let ?w = "upd_node r (\<lambda>x. x\<lparr>spilled := True\<rparr>) w"
  let ?w' = "?w\<lparr>stats := IncSpill 1 (stats ?w)\<rparr>"
  have h: "heap ?w' ! r = (heap w ! r)\<lparr>spilled := True\<rparr>" using w(1) by (simp add: upd_node_def)
  have "finalize_nodes [r] w = Inr ?w'" using h w(4) by (simp add: finalize_node_def Let_def)
  moreover note finalize_children_settled [OF assms(4) f(2) order_refl]
  ultimately have "finalize (ffuel w) r w = Inr ?w'" using w(4,5) f(1) h by (simp del: finalize_nodes.simps)
  moreover have "node_root (dfuel (heap ?w')) (heap ?w') r = Inr r" using w(4) h by (simp add: dfuel_def)
  ultimately have "bucket_spill w = Inr (?w'\<lparr>rootNode := Some r\<rparr>)" using assms(2) by (simp add: bucket_spill_def)
  then show ?thesis using h w(2) by simp
qed

lemma bucket_spill_ready:
  assumes "ready n w kvs" and "n \<le> length (heap w)"
  shows "\<exists>w'. bucket_spill w = Inr w' \<and> spilled_ok n w' kvs \<and> owned w' \<and> evolves w w'"
proof -
  obtain t where t: "winv w t" "items t = kvs" "keys_ok t" "set (addrs t) \<subseteq> {..<n} \<union> dirty w"
    using assms(1) by (auto simp: ready_def handle_ok_def)
  have cm: "committable w" using assms(1) by (simp add: ready_def)
  show ?thesis
  proof (cases "rootNode w")
    case None
    then have "intree (heap w) {} t" using t(1) by (auto simp: winv_def)
    then have "spilled_ok n w kvs" using t None by (auto simp: spilled_ok_def winv_def)
    then show ?thesis using None t(1) by (simp add: bucket_spill_def winv_def)
  next
    case (Some r)
    note tl = committable_leaf [OF t(1) cm Some]
    have w: "intree (heap w) {} t" "btree t" "owned w" "raddr t = r" "parent (heap w ! r) = None" "r \<in> dirty w" "fresh w"
      using t(1) Some by (auto simp: winv_def rootView_def owned_def) (metis tl intree_def repr.simps(1) wlinked.simps(1))
    have "list_all2 leaf_entry (inodes (heap w ! r)) (items t)" using w(1) tl by (metis intree_def repr.simps(1))
    then have st: "settled w r"
      unfolding settled_def by (auto simp: list_all2_conv_all_nth leaf_entry_def in_set_conv_nth)
    obtain w' t' where w': "bucket_spill w = Inr w'" "intree (heap w') {} t'" "btree t'" "items t' = items t"
      "tkeys t' \<subseteq> tkeys t" "rootNode w' = Some (raddr t')" "owned w'" "evolves w w'"
      "set (addrs t') \<subseteq> set (addrs t) \<union> {length (heap w)..}"
      using bucket_spill_settled [OF w(1,2) t(3) w(3)] Some w(4-7) st by (auto simp: fresh_def)
    have "set (addrs t') \<subseteq> {..<n} \<union> dirty w'"
      by (rule addrs_evolves [OF w'(2,9,8) t(4)])
    moreover have "small_kvs kvs \<longrightarrow> isLeaf (heap w' ! raddr t')"
      using bucket_spill_small [of w r kvs] t(1,2) tl Some st w'(1,6) by auto
    ultimately have "spilled_ok n w' kvs"
      unfolding spilled_ok_def using w' t(2,3)
      by (intro conjI exI [of _ t']) (auto simp: rootView_def keys_ok_def)
    then show ?thesis using w' by blast
  qed
qed


interpretation rebalance_stage: bucket_stage bucket_rebalance "\<lambda>ord D. distinct ord \<and> set ord = D" ready ready
  by unfold_locales (auto intro: bucket_rebalance_ready framed_ready)

interpretation spill_stage: bucket_stage "\<lambda>_::unit. bucket_spill" "\<lambda>_ _. True" ready spilled_ok
  by unfold_locales (auto intro: bucket_spill_ready framed_ready framed_spilled_ok)

section \<open>Publishing\<close>

text \<open>
  Publishing clears back references only: every node keeps its kind, key and entries, so
  every tree that stood in the heap still stands there.
\<close>

definition same_views :: "heap \<Rightarrow> heap \<Rightarrow> bool" where
  "same_views h h' \<longleftrightarrow> length h' = length h \<and>
     (\<forall>a<length h. isLeaf (h' ! a) = isLeaf (h ! a) \<and> inodes (h' ! a) = inodes (h ! a) \<and> nkey (h' ! a) = nkey (h ! a))"

lemma same_views_refl [simp]: "same_views h h"
  by (simp add: same_views_def)

lemma same_views_trans: "same_views h h' \<Longrightarrow> same_views h' h'' \<Longrightarrow> same_views h h''"
  by (simp add: same_views_def)

lemma intree_views:
  assumes "intree h {} t" and "same_views h h'" and "btree t"
  shows "intree h' {} t"
proof (rule intree_view [OF assms(1)])
  have "\<forall>b\<in>set (addrs t). b < length h" using assms(1) repr_addrs unfolding intree_def by blast
  then show "\<forall>b\<in>set (addrs t). b < length h' \<and> isLeaf (h' ! b) = isLeaf (h ! b) \<and> inodes (h' ! b) = inodes (h ! b)"
    "\<forall>b\<in>set (addrs t) - {raddr t}. nkey (h' ! b) = nkey (h ! b)"
    using assms(2) by (auto simp: same_views_def)
qed (use assms(3) in \<open>simp add: btree_def\<close>)

definition published_root :: "wst \<Rightarrow> bucketState option" where
  "published_root w = fst (publishRoot w)"

lemma published_rootI:
  assumes "spilled_ok n w kvs" and "same_views (heap w) h'"
  shows "published h' (length h') (published_root w) kvs"
proof -
  obtain t where t: "intree (heap w) {} t" "btree t" "keys_ok t" "items t = kvs" "rootView w = Some (raddr t)"
    using assms(1) by (auto simp: spilled_ok_def)
  have "intree h' {} t" by (rule intree_views [OF t(1) assms(2) t(2)])
  moreover from this have "set (addrs t) \<subseteq> {..<length h'}" using repr_addrs by (auto simp: intree_def)
  moreover have "\<exists>st. published_root w = Some st \<and> root st = Some (raddr t)"
    using t(5) by (auto simp: published_root_def publishRoot_def rootView_def split: option.splits)
  ultimately show ?thesis using t(2-4) by (auto simp: published_def)
qed

lemma publishRoot_frame:
  assumes "publishRoot w = (bs, w')" and "dirty w \<subseteq> {n..<length (heap w)}" and "n \<le> length (heap w)"
  shows "same_views (heap w) (heap w')" and "\<forall>a<n. heap w' ! a = heap w ! a" and "name w' = name w"
    and "self w' = self w" and "dirty w' \<subseteq> dirty w" and "stats w' = stats w"
proof -
  have "same_views (heap w) (heap w') \<and> (\<forall>a<n. heap w' ! a = heap w ! a) \<and> name w' = name w \<and>
      self w' = self w \<and> dirty w' \<subseteq> dirty w \<and> stats w' = stats w"
  proof (cases "rootNode w")
    case None
    then show ?thesis using assms(1) by (simp add: publishRoot_def)
  next
    case (Some r)
    then have w': "w' = detachPublishedNodes w" using assms(1) by (simp add: publishRoot_def)
    have "heap w' ! a = heap w ! a" if "a < n" for a
      using that assms(2,3) by (auto simp: w' detachPublishedNodes_def)
    then show ?thesis by (auto simp: w' detachPublishedNodes_def same_views_def detach_node_def)
  qed
  then show "same_views (heap w) (heap w')" "\<forall>a<n. heap w' ! a = heap w ! a" "name w' = name w"
    "self w' = self w" "dirty w' \<subseteq> dirty w" "stats w' = stats w" by auto
qed


lemma published_root_cong:
  "rootNode w = rootNode w' \<Longrightarrow> baseState w = baseState w' \<Longrightarrow> published_root w = published_root w'"
  by (simp add: published_root_def publishRoot_def split: option.splits)

lemma handles_wf_shrink:
  assumes "handles_wf n (db, tx)" and "length (bufs tx') = length (bufs tx)" and "bctx tx' = bctx tx"
    and "\<And>c. c < length (bufs tx) \<Longrightarrow> dirty (bufs tx' ! c) \<subseteq> dirty (bufs tx ! c)"
    and "\<And>c. c < length (bufs tx) \<Longrightarrow> name (bufs tx' ! c) = name (bufs tx ! c)"
    and "length (nodes db') = length (nodes db)"
  shows "handles_wf n (db', tx')"
proof -
  have "dirty (bufs tx' ! c) \<subseteq> {n..<length (nodes db')}" if "c < length (bufs tx)" for c
    using assms(1) assms(4) [OF that] that unfolding handles_wf_def assms(6) by fastforce
  moreover have "dirty (bufs tx' ! c) \<inter> dirty (bufs tx' ! c') = {}"
    if "c < length (bufs tx)" "c' < length (bufs tx)" "c \<noteq> c'" for c c'
  proof -
    have "dirty (bufs tx ! c) \<inter> dirty (bufs tx ! c') = {}" using assms(1) that by (simp add: handles_wf_def)
    then show ?thesis using assms(4) [OF that(1)] assms(4) [OF that(2)] by blast
  qed
  ultimately show ?thesis using assms(1-3,5) by (auto simp: handles_wf_def)
qed

lemma publish_step:
  assumes "handles_wf n (db, tx)" and "n \<le> length (nodes db)" and "b < length (bufs tx)"
    and "publishRoot (bucket_wst (db, tx) b) = (bs, w)"
  shows "handles_wf n (put_back w (db, tx))" and "same_tx n (db, tx) (put_back w (db, tx))"
    and "same_views (nodes db) (heap w)" and "length (heap w) = length (nodes db)"
    and "c \<noteq> b \<Longrightarrow> published_root (bucket_wst (put_back w (db, tx)) c) = published_root (bucket_wst (db, tx) c)"
proof -
  have d: "dirty (bucket_wst (db, tx) b) \<subseteq> {n..<length (heap (bucket_wst (db, tx) b))}"
    using assms(1,3) by (auto simp: handles_wf_def)
  note f = publishRoot_frame [OF assms(4) d]
  have len: "length (heap w) = length (nodes db)" using f(1) assms(2) by (simp add: same_views_def)
  have w: "name w = name (bufs tx ! b)" "self w = b" "dirty w \<subseteq> dirty (bufs tx ! b)"
    using f(3-5) assms(2) by simp_all
  have "map name ((bufs tx)[b := Bucket.truncate w]) = map name (bufs tx)"
    using w(1) assms(3) by (simp add: map_update list_update_same_conv)
  then show "same_tx n (db, tx) (put_back w (db, tx))"
    using w f(2) assms(2) len by (auto simp: same_tx_def put_back_def)
  show "handles_wf n (put_back w (db, tx))"
    unfolding put_back_def split
    by (rule handles_wf_shrink [OF assms(1)]) (use w len assms(3) in \<open>auto simp: nth_list_update split: if_splits\<close>)
  show "same_views (nodes db) (heap w)" "length (heap w) = length (nodes db)" using f(1) assms(2) len by simp_all
  show "published_root (bucket_wst (put_back w (db, tx)) c) = published_root (bucket_wst (db, tx) c)" if "c \<noteq> b"
    by (rule published_root_cong) (use that w(2) in \<open>simp_all add: put_back_def\<close>)
qed

lemma publish_all_spec:
  assumes "handles_wf n (db, tx)" and "n \<le> length (nodes db)" and "distinct os"
    and "set os \<subseteq> fst ` set (bctx tx)" and "fst ` set (bctx tx) \<inter> deleted tx = {}"
  shows "\<exists>nb' db' tx'. publish_all os nb (db, tx) = (nb', (db', tx')) \<and> same_tx n (db, tx) (db', tx') \<and>
      same_views (nodes db) (nodes db') \<and> (distinct (map fst nb) \<longrightarrow> distinct (map fst nb')) \<and>
      (\<forall>nm. map_of nb' nm =
         (if nm \<in> set os then Some (published_root (bucket_wst (db, tx) (the (map_of (bctx tx) nm)))) else map_of nb nm))"
  using assms
proof (induction os arbitrary: db tx nb)
  case (Cons nm os)
  have nm: "nm \<in> fst ` set (bctx tx)" using Cons.prems(4) by simp
  then obtain b where b: "map_of (bctx tx) nm = Some b" by (metis map_of_eq_None_iff option.exhaust)
  have bl: "b < length (bufs tx)" using Cons.prems(1) map_of_SomeD [OF b] by (auto simp: handles_wf_def)
  obtain bs w where w: "publishRoot (bucket_wst (db, tx) b) = (bs, w)" by fastforce
  note st = publish_step [OF Cons.prems(1,2) bl w]
  obtain db1 tx1 where s1: "put_back w (db, tx) = (db1, tx1)" by fastforce
  have f1: "bctx tx1 = bctx tx" "deleted tx1 = deleted tx" "nodes db1 = heap w"
    using s1 by (auto simp: put_back_def)
  obtain nb' db' tx' where IH: "publish_all os (AList.update nm bs nb) (db1, tx1) = (nb', (db', tx'))"
    "same_tx n (db1, tx1) (db', tx')" "same_views (nodes db1) (nodes db')"
    "distinct (map fst (AList.update nm bs nb)) \<longrightarrow> distinct (map fst nb')"
    "\<forall>nm'. map_of nb' nm' = (if nm' \<in> set os
       then Some (published_root (bucket_wst (db1, tx1) (the (map_of (bctx tx1) nm'))))
       else map_of (AList.update nm bs nb) nm')"
  proof -
    have "handles_wf n (db1, tx1)" "n \<le> length (nodes db1)" "set os \<subseteq> fst ` set (bctx tx1)"
      "fst ` set (bctx tx1) \<inter> deleted tx1 = {}" "distinct os"
      using st(1,4) s1 Cons.prems f1 by simp_all
    from Cons.IH [OF this(1,2,5,3,4), of "AList.update nm bs nb"] show ?thesis
      using that by blast
  qed
  have run: "publish_all (nm # os) nb (db, tx) = (nb', (db', tx'))"
  proof -
    have "nm \<notin> deleted tx" using nm Cons.prems(5) by blast
    then show ?thesis using b w s1 IH(1) by simp
  qed
  have "map_of nb' nm' = (if nm' \<in> set (nm # os)
      then Some (published_root (bucket_wst (db, tx) (the (map_of (bctx tx) nm')))) else map_of nb nm')" for nm'
  proof (cases "nm' \<in> set os")
    case True
    then have "nm' \<in> fst ` set (bctx tx)" using Cons.prems(4) by auto
    then obtain c where c: "map_of (bctx tx) nm' = Some c" by (metis map_of_eq_None_iff option.exhaust)
    have d: "distinct (map snd (bctx tx))" using Cons.prems(1) by (simp add: handles_wf_def)
    have "nm' \<noteq> nm" using True Cons.prems(3) by auto
    then have "c \<noteq> b" using map_of_inj_snd [OF d c] b by blast
    then have "published_root (bucket_wst (db1, tx1) c) = published_root (bucket_wst (db, tx) c)"
      using st(5) s1 by metis
    then show ?thesis using True IH(5) [rule_format, of nm'] c unfolding f1(1) by simp
  next
    case False
    have "bs = published_root (bucket_wst (db, tx) b)" using w by (simp add: published_root_def)
    then show ?thesis using False IH(5) [rule_format, of nm'] b by (simp add: update_conv')
  qed
  moreover have "distinct (map fst nb) \<longrightarrow> distinct (map fst nb')" using IH(4) distinct_update [of nb nm bs] by simp
  moreover have "same_views (nodes db) (nodes db')" using same_views_trans [OF st(3)] IH(3) f1(3) by simp
  ultimately show ?case using run same_tx_trans [OF st(2) [unfolded s1] IH(2)] by blast
qed simp


section \<open>Commit\<close>

lemma map_of_filter_fst: "map_of (filter (\<lambda>p. fst p \<notin> D) xs) k = (if k \<in> D then None else map_of xs k)"
  by (induction xs) auto

lemma rebalance_all_holds:
  assumes "tx_holds n (db, tx) M0 M" and "env_ok e tx" and "\<forall>(nm, b)\<in>set (bctx tx). committable (bucket_wst (db, tx) b)"
  shows "\<exists>db' tx'. rebalance_all (reb_ord e) (db, tx) = Inr (db', tx') \<and> same_tx n (db, tx) (db', tx') \<and>
    rebalance_stage.at_stage n (db', tx') M []"
proof -
  have e: "distinct (map fst (reb_ord e))" "set (map fst (reb_ord e)) = fst ` set (bctx tx)"
    "\<forall>(nm, ord)\<in>set (reb_ord e). \<forall>b. map_of (bctx tx) nm = Some b \<longrightarrow> distinct ord \<and> set ord = dirty (bufs tx ! b)"
    using assms(2) by (simp_all add: env_ok_def)
  have wf: "handles_wf n (db, tx)" "n \<le> length (nodes db)"
    using assms(1) tx_base(2) by (auto simp: tx_holds_def)
  have dk: "distinct (map fst (bctx tx))" using wf(1) by (simp add: handles_wf_def)
  have "rebalance_stage.stage_of n (bucket_wst (db, tx) b) (M nm) (map_of (reb_ord e) nm)"
    if b: "(nm, b) \<in> set (bctx tx)" for nm b
  proof -
    have m: "map_of (bctx tx) nm = Some b" using b dk by simp
    obtain kvs where k: "M nm = Some kvs" "handle_ok n (nm \<in> created tx) (bucket_wst (db, tx) b) kvs"
      using tx_holdsD(3) [OF assms(1) m] by blast
    have "nm \<in> set (map fst (reb_ord e))" using b e(2) by force
    then obtain ord where o: "map_of (reb_ord e) nm = Some ord"
      by (metis map_of_eq_None_iff option.exhaust set_map)
    then have "distinct ord \<and> set ord = dirty (bufs tx ! b)" using e(3) m map_of_SomeD [OF o] by fastforce
    then show ?thesis using k o assms(3) b by (auto simp: rebalance_stage.stage_of_def ready_def handle_ok_def)
  qed
  then have "rebalance_stage.at_stage n (db, tx) M (reb_ord e)"
    using wf e(1) by (auto simp: rebalance_stage.at_stage_def)
  then obtain s' where "each_bucket bucket_rebalance (reb_ord e) (db, tx) = Inr s'"
    "rebalance_stage.at_stage n s' M []" "same_tx n (db, tx) s'"
    using rebalance_stage.stage_loop [of n "(db, tx)" M "reb_ord e"] e(2) by auto
  then show ?thesis by (cases s') (auto simp: rebalance_all_def)
qed

lemma map_of_units: "map_of (map (\<lambda>k. (k, ())) ks) k = (if k \<in> set ks then Some () else None)"
  by (induction ks) auto

lemma spill_all_holds:
  assumes "rebalance_stage.at_stage n (db, tx) M []" and "distinct os" and "set os = fst ` set (bctx tx)"
  shows "\<exists>db' tx'. spill_all os (db, tx) = Inr (db', tx') \<and> same_tx n (db, tx) (db', tx') \<and>
    spill_stage.at_stage n (db', tx') M []"
proof -
  let ?os = "map (\<lambda>nm. (nm, ())) os"
  have d: "map fst ?os = os" by (simp add: comp_def)
  have "spill_stage.stage_of n (bucket_wst (db, tx) b) (M nm) (map_of ?os nm)"
    if b: "(nm, b) \<in> set (bctx tx)" for nm b
  proof -
    have "rebalance_stage.stage_of n (bucket_wst (db, tx) b) (M nm) None"
      using assms(1) b by (auto simp: rebalance_stage.at_stage_def)
    moreover have "nm \<in> set os" using b assms(3) by force
    then have "map_of ?os nm = Some ()" by (simp add: map_of_units)
    ultimately show ?thesis by (auto simp: spill_stage.stage_of_def rebalance_stage.stage_of_def)
  qed
  then have "spill_stage.at_stage n (db, tx) M ?os"
    using assms(1,2) by (auto simp: spill_stage.at_stage_def rebalance_stage.at_stage_def comp_def)
  then obtain s' where "each_bucket (\<lambda>_. bucket_spill) ?os (db, tx) = Inr s'"
    "spill_stage.at_stage n s' M []" "same_tx n (db, tx) s'"
    using spill_stage.stage_loop [of n "(db, tx)" M ?os] assms(3) d by auto
  then show ?thesis by (cases s') (auto simp: spill_all_def)
qed


text \<open>The new state holds what the transaction saw.\<close>

lemma new_state_holds:
  assumes "spill_stage.at_stage n (db1, tx1) M []" and "tx_holds n (db, tx) M0 M" and "same_tx n (db, tx) (db1, tx1)"
    and "same_views (nodes db1) h'" and "distinct (map fst nb')"
    and "\<forall>nm. map_of nb' nm =
      (if nm \<in> fst ` set (bctx tx1) then Some (published_root (bucket_wst (db1, tx1) (the (map_of (bctx tx1) nm))))
       else map_of (filter (\<lambda>p. fst p \<notin> deleted tx1) (base_buckets tx1)) nm)"
  shows "state_holds h' (length h') \<lparr>buckets = nb'\<rparr> M"
proof -
  note f = same_tx_fields [OF assms(3)]
  have bb: "base_buckets tx1 = base_buckets tx" by (simp add: base_buckets_def f)
  have len: "length (nodes db) \<le> length (nodes db1)" "\<forall>a<n. nodes db1 ! a = nodes db ! a" "n \<le> length (nodes db)"
    using assms(3) tx_base(2) [OF assms(2)] by (auto simp: same_tx_def)
  have "rel_option (published h' (length h')) (map_of nb' nm) (M nm)" for nm
  proof (cases "nm \<in> fst ` set (bctx tx1)")
    case True
    then obtain b where b: "map_of (bctx tx1) nm = Some b" by (metis map_of_eq_None_iff option.exhaust)
    have "spill_stage.stage_of n (bucket_wst (db1, tx1) b) (M nm) None"
      using assms(1) map_of_SomeD [OF b] by (auto simp: spill_stage.at_stage_def)
    then obtain kvs where k: "M nm = Some kvs" "spilled_ok n (bucket_wst (db1, tx1) b) kvs"
      by (auto simp: spill_stage.stage_of_def)
    have "published h' (length h') (published_root (bucket_wst (db1, tx1) b)) kvs"
      by (rule published_rootI [OF k(2)]) (use assms(4) in simp)
    then show ?thesis using True b k(1) assms(6) by simp
  next
    case False
    then have "map_of (bctx tx) nm = None" by (simp add: f map_of_eq_None_iff)
    then have v: "M nm = (if nm \<in> deleted tx then None else M0 nm)" by (rule view_None(1) [OF assms(2)])
    have m: "map_of nb' nm = (if nm \<in> deleted tx then None else map_of (base_buckets tx) nm)"
      using assms(6) False by (simp add: bb f map_of_filter_fst)
    have "published h' (length h') bs kvs" if "published (nodes db) n bs kvs" for bs kvs
    proof -
      have "published (nodes db1) n bs kvs" by (rule published_frame [OF that len(2,3,1)])
      then obtain st t where t: "bs = Some st" "root st = Some (raddr t)" "intree (nodes db1) {} t" "btree t" "keys_ok t"
        "items t = kvs" by (auto simp: published_def)
      have "intree h' {} t" by (rule intree_views [OF t(3) assms(4) t(4)])
      moreover from this have "set (addrs t) \<subseteq> {..<length h'}" using repr_addrs by (auto simp: intree_def)
      ultimately show ?thesis using t by (auto simp: published_def)
    qed
    then show ?thesis
      using tx_base(1) [OF assms(2), of nm] unfolding v m by (auto elim: option.rel_mono_strong)
  qed
  then show ?thesis using assms(5) by (simp add: state_holds_def)
qed

text \<open>
  A state whose buckets are single leaves stays one under transactions whose buckets fit into
  one leaf each.
\<close>

definition lone :: "heap \<Rightarrow> bucketState option \<Rightarrow> bool" where
  "lone h bs \<longleftrightarrow> (\<exists>st r. bs = Some st \<and> root st = Some r \<and> isLeaf (h ! r))"

definition all_lone :: "heap \<Rightarrow> (bytes \<times> bucketState option) list \<Rightarrow> bool" where
  "all_lone h bss \<longleftrightarrow> (\<forall>nm bs. map_of bss nm = Some bs \<longrightarrow> lone h bs)"

definition small_map :: "(bytes \<rightharpoonup> kv list) \<Rightarrow> bool" where
  "small_map M \<longleftrightarrow> (\<forall>nm kvs. M nm = Some kvs \<longrightarrow> small_kvs kvs)"

lemma lone_frame:
  assumes "lone h bs" and "published h n bs kvs" and "\<forall>a<n. h1 ! a = h ! a" and "same_views h1 h'" and "n \<le> length h1"
  shows "lone h' bs"
proof -
  obtain st t where t: "bs = Some st" "root st = Some (raddr t)" "set (addrs t) \<subseteq> {..<n}"
    using assms(2) by (auto simp: published_def)
  have "raddr t < n" using t(3) raddr_in_addrs by blast
  then have "isLeaf (h' ! raddr t) = isLeaf (h ! raddr t)" using assms(3-5) by (auto simp: same_views_def)
  then show ?thesis using assms(1) t by (simp add: lone_def)
qed

lemma new_state_lone:
  assumes "spill_stage.at_stage n (db1, tx1) M []" and "tx_holds n (db, tx) M0 M" and "same_tx n (db, tx) (db1, tx1)"
    and "same_views (nodes db1) h'" and "small_map M" and "all_lone (nodes db) (base_buckets tx)"
    and "\<forall>nm. map_of nb' nm =
      (if nm \<in> fst ` set (bctx tx1) then Some (published_root (bucket_wst (db1, tx1) (the (map_of (bctx tx1) nm))))
       else map_of (filter (\<lambda>p. fst p \<notin> deleted tx1) (base_buckets tx1)) nm)"
  shows "all_lone h' nb'"
  unfolding all_lone_def
proof (intro allI impI)
  fix nm bs assume m: "map_of nb' nm = Some bs"
  note f = same_tx_fields [OF assms(3)]
  have bb: "base_buckets tx1 = base_buckets tx" by (simp add: base_buckets_def f)
  have len: "\<forall>a<n. nodes db1 ! a = nodes db ! a" "n \<le> length (nodes db1)"
    using assms(3) tx_base(2) [OF assms(2)] by (auto simp: same_tx_def)
  have old: "lone h' bs'" if b': "map_of (base_buckets tx) nm' = Some bs'" for nm' bs'
  proof -
    obtain kvs where "published (nodes db) n bs' kvs" using tx_base(1) [OF assms(2), of nm'] b' by (auto simp: option_rel_Some1)
    moreover have "lone (nodes db) bs'" using assms(6) b' by (auto simp: all_lone_def)
    ultimately show ?thesis using lone_frame len assms(4) by blast
  qed
  show "lone h' bs"
  proof (cases "nm \<in> fst ` set (bctx tx1)")
    case True
    then obtain b where b: "map_of (bctx tx1) nm = Some b" by (metis map_of_eq_None_iff option.exhaust)
    let ?w = "bucket_wst (db1, tx1) b"
    have bs: "bs = published_root ?w" using m True b assms(7) by simp
    have "spill_stage.stage_of n ?w (M nm) None"
      using assms(1) map_of_SomeD [OF b] by (auto simp: spill_stage.at_stage_def)
    then obtain kvs where k: "M nm = Some kvs" "spilled_ok n ?w kvs" by (auto simp: spill_stage.stage_of_def)
    obtain t where t: "intree (heap ?w) {} t" "rootView ?w = Some (raddr t)" using k(2) by (auto simp: spilled_ok_def)
    have lt: "raddr t < length (nodes db1)" using t(1) repr_raddr by (auto simp: intree_def)
    show ?thesis
    proof (cases "rootNode ?w")
      case None
      then obtain st where st: "baseState ?w = Some st" using t(2) by (auto simp: rootView_def split: option.splits)
      have "name (bufs tx1 ! b) = nm" using map_of_SomeD [OF b] assms(1) by (auto simp: spill_stage.at_stage_def handles_wf_def)
      then have "map_of (base_buckets tx) nm = Some (Some st)"
        using st by (auto simp: tx_baseState_def bb split: option.splits)
      moreover have "bs = Some st" using bs None st by (simp add: published_root_def publishRoot_def)
      ultimately show ?thesis using old by blast
    next
      case (Some r)
      have "small_kvs kvs" using assms(5) k(1) by (simp add: small_map_def)
      then have "isLeaf (nodes db1 ! r)" using k(2) Some by (simp add: spilled_ok_def)
      moreover have "r < length (nodes db1)" using t(2) Some lt by (simp add: rootView_def)
      ultimately show ?thesis
        using bs Some assms(4) by (simp add: lone_def published_root_def publishRoot_def same_views_def)
    qed
  next
    case False
    then have "map_of (base_buckets tx) nm = Some bs"
      using m assms(7) by (simp add: bb map_of_filter_fst split: if_splits)
    then show ?thesis by (rule old)
  qed
qed

lemma Commit_holds:
  assumes "tx_holds n (db, tx) M0 M" and "writable tx" and "\<not> managed tx" and "rwlock db" and "env_ok e tx"
    and "\<forall>(nm, b)\<in>set (bctx tx). committable (bucket_wst (db, tx) b)"
  shows "\<exists>db' tx' st. Commit e (db, tx) = Inr ((None, commitHandlers tx), (db', tx')) \<and> \<not> db_open tx' \<and>
    \<not> rwlock db' \<and> opened db' = opened db \<and> readOnly db' = readOnly db \<and>
    state db' = Some st \<and> state_holds (nodes db') (length (nodes db')) st M \<and>
    length (nodes db) \<le> length (nodes db') \<and> (\<forall>a<n. nodes db' ! a = nodes db ! a) \<and>
    (small_map M \<longrightarrow> all_lone (nodes db) (base_buckets tx) \<longrightarrow> all_lone (nodes db') (buckets st)) \<and>
    map_option OpenTxN (db_stats db') = map_option OpenTxN (db_stats db)"
proof -
  have op: "db_open tx" and dw: "dir_wf M0 tx" using assms(1) by (simp_all add: tx_holds_def)
  obtain db1 tx1 where r: "rebalance_all (reb_ord e) (db, tx) = Inr (db1, tx1)" "same_tx n (db, tx) (db1, tx1)"
    "rebalance_stage.at_stage n (db1, tx1) M []"
    using rebalance_all_holds [OF assms(1,5,6)] by blast
  define tx1' where "tx1' = (if 0 < sint (Rebalance (tx_stats tx1))
     then tx1\<lparr>tx_stats := IncRebalanceTime (reb_time e) (tx_stats tx1)\<rparr> else tx1)"
  have s1: "rebalance_stage.at_stage n (db1, tx1') M []" "same_tx n (db, tx) (db1, tx1')"
    using r(2,3) rebalance_stage.at_stage_stats [OF r(3)] same_tx_stats [OF r(2)] unfolding tx1'_def by simp_all
  note f1 = same_tx_fields [OF s1(2)]
  obtain db2 tx2 where p: "spill_all (spill_ord e) (db1, tx1') = Inr (db2, tx2)" "same_tx n (db1, tx1') (db2, tx2)"
    "spill_stage.at_stage n (db2, tx2) M []"
    using spill_all_holds [OF s1(1), of "spill_ord e"] assms(5) f1(1) by (auto simp: env_ok_def)
  define tx2' where "tx2' = tx2\<lparr>tx_stats := IncSpillTime (spill_time e) (tx_stats tx2)\<rparr>"
  have s2: "spill_stage.at_stage n (db2, tx2') M []" "same_tx n (db, tx) (db2, tx2')"
    using spill_stage.at_stage_stats [OF p(3)] same_tx_stats [OF same_tx_trans [OF s1(2) p(2)]]
    unfolding tx2'_def by simp_all
  note f2 = same_tx_fields [OF s2(2)]
  let ?nb = "filter (\<lambda>p. fst p \<notin> deleted tx2') (base_buckets tx2')"
  have wf: "handles_wf n (db2, tx2')" "n \<le> length (nodes db2)" using s2(1) by (simp_all add: spill_stage.at_stage_def)
  have "set (pub_ord e) = fst ` set (bctx tx2')" "distinct (pub_ord e)" "fst ` set (bctx tx2') \<inter> deleted tx2' = {}"
    using assms(5) dw f2 by (simp_all add: env_ok_def dir_wf_def)
  then obtain nb' db3 tx3 where b: "publish_all (pub_ord e) ?nb (db2, tx2') = (nb', (db3, tx3))"
    "same_tx n (db2, tx2') (db3, tx3)" "same_views (nodes db2) (nodes db3)"
    "distinct (map fst ?nb) \<longrightarrow> distinct (map fst nb')"
    "\<forall>nm. map_of nb' nm = (if nm \<in> fst ` set (bctx tx2')
       then Some (published_root (bucket_wst (db2, tx2') (the (map_of (bctx tx2') nm)))) else map_of ?nb nm)"
    using publish_all_spec [OF wf, of "pub_ord e" ?nb] by auto
  have s3: "same_tx n (db, tx) (db3, tx3)" by (rule same_tx_trans [OF s2(2) b(2)])
  note f3 = same_tx_fields [OF s3]
  have "distinct (map fst (base_buckets tx))" using assms(1) by (auto simp: tx_holds_def state_holds_def base_buckets_def)
  then have "distinct (map fst nb')" using b(4) f2 by (simp add: base_buckets_def distinct_map_filter)
  then have sh: "state_holds (nodes db3) (length (nodes db3)) \<lparr>buckets = nb'\<rparr> M"
    using new_state_holds [OF s2(1) assms(1) s2(2) b(3)] b(5) by blast
  have al: "small_map M \<longrightarrow> all_lone (nodes db) (base_buckets tx) \<longrightarrow> all_lone (nodes db3) nb'"
    using new_state_lone [OF s2(1) assms(1) s2(2) b(3) _ _ b(5)] by blast
  let ?db = "db3\<lparr>state := Some \<lparr>buckets = nb'\<rparr>\<rparr>"
  obtain db4 tx4 where c: "tx_close (?db, tx3) = Inr (db4, tx4)" "\<not> db_open tx4" "\<not> rwlock db4"
    "nodes db4 = nodes db3" "state db4 = Some \<lparr>buckets = nb'\<rparr>" "commitHandlers tx4 = commitHandlers tx3"
    "opened db4 = opened db3" "readOnly db4 = readOnly db3"
    "map_option OpenTxN (db_stats db4) = map_option OpenTxN (db_stats db3)"
    using assms(2,4) op f3 by (auto simp: tx_close_def unlock_def option.map_comp comp_def)
  have "deleted tx2 = deleted tx2'" "base_buckets tx2 = base_buckets tx2'" by (simp_all add: tx2'_def)
  then have "Commit e (db, tx) = Inr ((None, commitHandlers tx4), (db4, tx4))"
    using assms(2,3) op r(1) p(1) b(1) c(1)
    by (simp add: Commit_def Let_def tx1'_def [symmetric] tx2'_def [symmetric])
  then show ?thesis using c sh al f3 s3 by (auto simp: same_tx_def)
qed


text \<open>Buckets created or only read by the transaction are always committable.\<close>

lemma created_committable:
  assumes "tx_holds n (db, tx) M0 M" and "(nm, b) \<in> set (bctx tx)"
    and "nm \<in> created tx \<or> leaf_base n (bucket_wst (db, tx) b) \<or> rootNode (bufs tx ! b) = None"
  shows "committable (bucket_wst (db, tx) b)"
proof -
  have "distinct (map fst (bctx tx))" using assms(1) by (simp add: tx_holds_def handles_wf_def)
  then have m: "map_of (bctx tx) nm = Some b" using assms(2) by simp
  then have "nm \<in> created tx \<or> leaf_base n (bucket_wst (db, tx) b) \<longrightarrow> leaf_root (bucket_wst (db, tx) b)"
    using tx_holdsD(3) [OF assms(1) m] by (auto simp: handle_ok_def)
  then show ?thesis using assms(3) by (auto simp: committable_def leaf_root_def rootView_def)
qed

text \<open>One possible schedule: every map in the order of its association list.\<close>

definition std_env :: "Tx \<Rightarrow> commit_env" where
  "std_env tx = \<lparr>reb_ord = map (\<lambda>(nm, b). (nm, sorted_list_of_set (dirty (bufs tx ! b)))) (bctx tx),
     spill_ord = map fst (bctx tx), pub_ord = map fst (bctx tx), reb_time = 0, spill_time = 0\<rparr>"

lemma std_env_ok:
  assumes "handles_wf n (db, tx)"
  shows "env_ok (std_env tx) tx"
proof -
  define R where "R = map (\<lambda>(nm, b). (nm, sorted_list_of_set (dirty (bufs tx ! b)))) (bctx tx)"
  have d: "distinct (map fst (bctx tx))" using assms by (simp add: handles_wf_def)
  have k: "map fst R = map fst (bctx tx)" by (auto simp: R_def comp_def case_prod_beta)
  have "distinct ord \<and> set ord = dirty (bufs tx ! b)"
    if o: "(nm, ord) \<in> set R" and m: "map_of (bctx tx) nm = Some b" for nm ord b
  proof -
    obtain c where "(nm, c) \<in> set (bctx tx)" "ord = sorted_list_of_set (dirty (bufs tx ! c))"
      using o by (auto simp: R_def)
    moreover from this have "c = b" using m d by simp
    moreover have "dirty (bufs tx ! b) \<subseteq> {n..<length (nodes db)}"
      using assms map_of_SomeD [OF m] by (auto simp: handles_wf_def)
    then have "finite (dirty (bufs tx ! b))" by (rule finite_subset) simp
    ultimately show ?thesis by simp
  qed
  then have "\<forall>(nm, ord)\<in>set R. \<forall>b. map_of (bctx tx) nm = Some b \<longrightarrow> distinct ord \<and> set ord = dirty (bufs tx ! b)"
    by blast
  moreover have "reb_ord (std_env tx) = R" "spill_ord (std_env tx) = map fst (bctx tx)" "pub_ord (std_env tx) = map fst (bctx tx)"
    by (simp_all add: std_env_def R_def)
  moreover have "set (map fst R) = fst ` set (bctx tx)" "distinct (map fst R)" unfolding k using d by simp_all
  ultimately show ?thesis using d unfolding env_ok_def by simp
qed

end
