(* ===== verification/Vm_DB.thy ===== *)
theory Vm_DB
  imports Vm_TxCommit "HOL-Library.Multiset"
begin

text \<open>
  The database (\<open>db.go\<close>): opening and closing, starting transactions, \<open>Update\<close>,
  \<open>View\<close> and the batching of updates.

  A user callback works on the transaction it is given and either returns an error value
  or panics; both keep what it did to the state. \<open>rwlock\<close> is the writer mutex: a call that
  finds it locked waits, which is the result \<open>None\<close> here. What a commit depends on
  besides the state (\<open>commit_env\<close>) is chosen by a scheduler that sees the state.
  The counters a panicking commit had already advanced are not kept.
\<close>

section \<open>Opening and closing\<close>

record Options =
  ReadOnly :: bool
  NoStatistics :: bool

definition DefaultOptions :: Options where
  "DefaultOptions = \<lparr>ReadOnly = False, NoStatistics = False\<rparr>"

definition DefaultMaxBatchSize :: int where
  "DefaultMaxBatchSize = 1000"

definition DefaultMaxBatchDelay :: int where
  "DefaultMaxBatchDelay = 10 * 1000000"

definition db_init :: "DB \<Rightarrow> DB" where
  "db_init db = db\<lparr>state := Some \<lparr>buckets = []\<rparr>\<rparr>"

text \<open>\<open>Open\<close> up to the point where a snapshot file is looked at.\<close>

definition open_empty :: "Options option \<Rightarrow> DB" where
  "open_empty opts =
     (let o' = (case opts of None \<Rightarrow> DefaultOptions | Some x \<Rightarrow> x);
          db = \<lparr>MaxBatchSize = DefaultMaxBatchSize, MaxBatchDelay = DefaultMaxBatchDelay, opened = False,
                db_stats = (if NoStatistics o' then None else Some Stats_zero), state = None,
                rwlock = False, readOnly = ReadOnly o', nodes = []\<rparr>;
          db = db_init db
      in db\<lparr>opened := True\<rparr>)"

definition db_close :: "DB \<Rightarrow> DB" where
  "db_close db = (if \<not> opened db then db else db\<lparr>opened := False, state := None\<rparr>)"

definition lock :: "DB \<Rightarrow> DB option" where
  "lock db = (if rwlock db then None else Some (db\<lparr>rwlock := True\<rparr>))"

definition DB_Close :: "DB \<Rightarrow> DB option" where
  "DB_Close db = (case lock db of None \<Rightarrow> None | Some db \<Rightarrow> Some ((db_close db)\<lparr>rwlock := False\<rparr>))"

section \<open>Starting transactions\<close>

definition new_tx :: "bool \<Rightarrow> dbState \<Rightarrow> Tx" where
  "new_tx wr st = \<lparr>writable = wr, managed = False, db_open = True, base = Some st, bctx = [],
     created = {}, deleted = {}, tx_stats = TxStats_zero, commitHandlers = [], bufs = []\<rparr>"

definition beginTx :: "DB \<Rightarrow> (error + Tx) \<times> DB" where
  "beginTx db =
     (if \<not> opened db then (Inl ErrDatabaseNotOpen, db)
      else (case state db of
              None \<Rightarrow> (Inl ErrDatabaseNotOpen, db)
            | Some st \<Rightarrow>
                (Inr (new_tx False st),
                 db\<lparr>db_stats := map_option (\<lambda>s. s\<lparr>TxN := TxN s + 1, OpenTxN := OpenTxN s + 1\<rparr>) (db_stats db)\<rparr>)))"

definition beginRWTx :: "DB \<Rightarrow> ((error + Tx) \<times> DB) option" where
  "beginRWTx db =
     (if readOnly db then Some (Inl ErrDatabaseReadOnly, db)
      else (case lock db of
              None \<Rightarrow> None
            | Some db \<Rightarrow>
                if \<not> opened db then Some (Inl ErrDatabaseNotOpen, db\<lparr>rwlock := False\<rparr>)
                else (case state db of
                        None \<Rightarrow> Some (Inl ErrDatabaseNotOpen, db\<lparr>rwlock := False\<rparr>)
                      | Some st \<Rightarrow> Some (Inr (new_tx True st), db))))"

definition Begin :: "bool \<Rightarrow> DB \<Rightarrow> ((error + Tx) \<times> DB) option" where
  "Begin wr db = (if wr then beginRWTx db else Some (beginTx db))"

section \<open>Managed transactions\<close>

datatype outcome = Returned "error option" | Panicked

type_synonym callback = "txst \<Rightarrow> outcome \<times> txst"

text \<open>The deferred rollback, after which the panic goes on.\<close>

definition deferred :: "txst \<Rightarrow> outcome \<times> DB" where
  "deferred s = (case tx_rollback s of Inl _ \<Rightarrow> (Panicked, fst s) | Inr s \<Rightarrow> (Panicked, fst s))"

definition Update :: "(txst \<Rightarrow> commit_env) \<Rightarrow> callback \<Rightarrow> DB \<Rightarrow> (outcome \<times> DB) option" where
  "Update sched fn db =
     (case Begin True db of
        None \<Rightarrow> None
      | Some (Inl err, db) \<Rightarrow> Some (Returned (Some err), db)
      | Some (Inr t, db) \<Rightarrow> Some
          (case fn (db, t\<lparr>managed := True\<rparr>) of
             (Panicked, s) \<Rightarrow> deferred s
           | (Returned err, db, t) \<Rightarrow>
               let s = (db, t\<lparr>managed := False\<rparr>)
               in if err \<noteq> None
                  then (case Rollback s of Inl _ \<Rightarrow> deferred s | Inr (_, s) \<Rightarrow> (Returned err, fst s))
                  else (case Commit (sched s) s of
                          Inl _ \<Rightarrow> deferred s
                        | Inr ((err, _), s) \<Rightarrow> (Returned err, fst s))))"

definition View :: "callback \<Rightarrow> DB \<Rightarrow> (outcome \<times> DB) option" where
  "View fn db =
     (case Begin False db of
        None \<Rightarrow> None
      | Some (Inl err, db) \<Rightarrow> Some (Returned (Some err), db)
      | Some (Inr t, db) \<Rightarrow> Some
          (case fn (db, t\<lparr>managed := True\<rparr>) of
             (Panicked, s) \<Rightarrow> deferred s
           | (Returned err, db, t) \<Rightarrow>
               let s = (db, t\<lparr>managed := False\<rparr>)
               in (case Rollback s of
                     Inl _ \<Rightarrow> deferred s
                   | Inr (e, s) \<Rightarrow> (Returned (if err \<noteq> None then err else e), fst s))))"

section \<open>Batches\<close>

text \<open>
  A call carries a number that stands for its result channel. \<open>safelyCall\<close> turns a panic
  of the callback into an error.
\<close>

record call =
  cid :: nat
  cfn :: callback

definition safelyCall :: "callback \<Rightarrow> txst \<Rightarrow> error option \<times> txst" where
  "safelyCall fn s = (case fn s of
     (Panicked, s) \<Rightarrow> (Some (Errorf ''panic''), s)
   | (Returned err, s) \<Rightarrow> (err, s))"

text \<open>The body of the batch transaction: the index of the first call that failed, if any.\<close>

fun run_calls :: "call list \<Rightarrow> nat \<Rightarrow> txst \<Rightarrow> nat option \<times> error option \<times> txst" where
  "run_calls [] i s = (None, None, s)"
| "run_calls (c # cs) i s = (case safelyCall (cfn c) s of
     (None, s) \<Rightarrow> run_calls cs (Suc i) s
   | (Some err, s) \<Rightarrow> (Some i, Some err, s))"

definition calls_fn :: "call list \<Rightarrow> callback" where
  "calls_fn cs s = (case run_calls cs 0 s of (_, err, s) \<Rightarrow> (Returned err, s))"

text \<open>
  \<open>failIdx\<close> is set by the callback of \<open>Update\<close>, which runs only when the transaction starts.
\<close>

definition failIdx :: "call list \<Rightarrow> DB \<Rightarrow> nat option" where
  "failIdx cs db = (case Begin True db of
     Some (Inr t, db) \<Rightarrow> fst (run_calls cs 0 (db, t\<lparr>managed := True\<rparr>))
   | _ \<Rightarrow> None)"

definition swap_remove :: "nat \<Rightarrow> 'a list \<Rightarrow> 'a list" where
  "swap_remove i xs = butlast (xs[i := last xs])"

datatype answer = TrySolo | Answer "error option"

lemma run_calls_index: "run_calls cs i s = (Some j, r) \<Longrightarrow> i \<le> j \<and> j < i + length cs"
  by (induction cs i s rule: run_calls.induct) (fastforce split: prod.splits option.splits)+

lemma failIdx_less: "failIdx cs db = Some i \<Longrightarrow> i < length cs"
  by (auto simp: failIdx_def split: option.splits prod.splits sum.splits)
    (metis add_0 prod.collapse run_calls_index)

text \<open>
  \<open>batch.run\<close>: retry without the failing call until a transaction with all remaining
  calls goes through. The result lists what each channel received, in order.
  \<open>None\<close>: the writer lock is held; an \<open>Update\<close> that panics takes the goroutine down.
\<close>

function batch_run ::
  "(txst \<Rightarrow> commit_env) \<Rightarrow> call list \<Rightarrow> DB \<Rightarrow> (outcome \<times> (nat \<times> answer) list \<times> DB) option" where
  "batch_run sched cs db =
     (if cs = [] then Some (Returned None, [], db)
      else (case Update sched (calls_fn cs) db of
              None \<Rightarrow> None
            | Some (Panicked, db') \<Rightarrow> Some (Panicked, [], db')
            | Some (Returned err, db') \<Rightarrow>
                (case failIdx cs db of
                   Some i \<Rightarrow>
                     map_option (\<lambda>(o', rs, db). (o', (cid (cs ! i), TrySolo) # rs, db))
                       (batch_run sched (swap_remove i cs) db')
                 | None \<Rightarrow> Some (Returned None, map (\<lambda>c. (cid c, Answer err)) cs, db'))))"
  by pat_completeness auto
termination
  by (relation "measure (\<lambda>(sched, cs, db). length cs)") (auto simp: swap_remove_def)

declare batch_run.simps [simp del]

text \<open>
  \<open>Batch\<close> adds a call to the current batch: a new one when there is none or it is full; a
  full batch is triggered at once. The rest of \<open>Batch\<close> is the caller's reaction.
\<close>

definition batch_add :: "int \<Rightarrow> call \<Rightarrow> call list option \<Rightarrow> call list \<times> bool" where
  "batch_add mx c b =
     (let cs = (case b of None \<Rightarrow> [] | Some cs \<Rightarrow> if mx \<le> int (length cs) then [] else cs);
          cs = cs @ [c]
      in (cs, mx \<le> int (length cs)))"

definition batch_answer :: "(txst \<Rightarrow> commit_env) \<Rightarrow> callback \<Rightarrow> answer \<Rightarrow> DB \<Rightarrow> (outcome \<times> DB) option" where
  "batch_answer sched fn a db =
     (case a of TrySolo \<Rightarrow> Update sched fn db | Answer err \<Rightarrow> Some (Returned err, db))"

section \<open>Statistics\<close>

definition DB_Stats :: "DB \<Rightarrow> Stats" where
  "DB_Stats db = (case db_stats db of None \<Rightarrow> Stats_zero | Some s \<Rightarrow> s)"

definition IsReadOnly :: "DB \<Rightarrow> bool" where
  "IsReadOnly db = readOnly db"


section \<open>What a database holds\<close>

definition db_holds :: "DB \<Rightarrow> (bytes \<rightharpoonup> kv list) \<Rightarrow> bool" where
  "db_holds db M \<longleftrightarrow> opened db \<and>
     (\<exists>st. state db = Some st \<and> state_holds (nodes db) (length (nodes db)) st M)"

lemma open_empty_holds: "db_holds (open_empty opts) Map.empty"
  by (simp add: db_holds_def open_empty_def db_init_def state_holds_def Let_def)

lemma new_tx_holds:
  assumes "state_holds (nodes db) n st M"
  shows "tx_holds n (db, new_tx wr st) M M"
  using assms by (simp add: tx_holds_def new_tx_def handles_wf_def dir_wf_def view_at_def)

lemma Begin_write:
  assumes "db_holds db M" and "\<not> readOnly db" and "\<not> rwlock db"
  shows "\<exists>st. Begin True db = Some (Inr (new_tx True st), db\<lparr>rwlock := True\<rparr>) \<and>
           tx_holds (length (nodes db)) (db\<lparr>rwlock := True\<rparr>, new_tx True st) M M"
proof -
  obtain st where st: "opened db" "state db = Some st" "state_holds (nodes db) (length (nodes db)) st M"
    using assms(1) by (auto simp: db_holds_def)
  then have "Begin True db = Some (Inr (new_tx True st), db\<lparr>rwlock := True\<rparr>)"
    using assms(2,3) by (simp add: Begin_def beginRWTx_def lock_def)
  then show ?thesis using new_tx_holds [of "db\<lparr>rwlock := True\<rparr>"] st(3) by auto
qed

lemma Begin_read:
  assumes "db_holds db M"
  shows "\<exists>st db'. Begin False db = Some (Inr (new_tx False st), db') \<and> db_holds db' M \<and>
           nodes db' = nodes db \<and> rwlock db' = rwlock db \<and>
           tx_holds (length (nodes db)) (db', new_tx False st) M M"
proof -
  obtain st where st: "opened db" "state db = Some st" "state_holds (nodes db) (length (nodes db)) st M"
    using assms by (auto simp: db_holds_def)
  let ?db = "db\<lparr>db_stats := map_option (\<lambda>s. s\<lparr>TxN := TxN s + 1, OpenTxN := OpenTxN s + 1\<rparr>) (db_stats db)\<rparr>"
  have "Begin False db = Some (Inr (new_tx False st), ?db)"
    using st(1,2) by (simp add: Begin_def beginTx_def)
  moreover have "db_holds ?db M" using st by (simp add: db_holds_def)
  moreover have "tx_holds (length (nodes db)) (?db, new_tx False st) M M"
    by (rule new_tx_holds) (use st(3) in simp)
  ultimately show ?thesis by (intro exI conjI) simp_all
qed

text \<open>
  A program of a transaction: the writes of the public interface, each addressed by
  bucket name. A write to a bucket that does not exist dereferences a nil handle.
\<close>

datatype tx_op = OpCreate bytes | OpDrop bytes | OpPut bytes bytes bytes | OpDel bytes bytes

definition in_named :: "bytes \<Rightarrow> (wst \<Rightarrow> (error option \<times> wst) res) \<Rightarrow> txst \<Rightarrow> (error option \<times> txst) res" where
  "in_named nm m s = (case s of (db, tx) \<Rightarrow>
     (case tx_Bucket nm tx of
        (None, tx) \<Rightarrow> nil_deref
      | (Some b, tx) \<Rightarrow> in_bucket b m (db, tx)))"

fun tx_run :: "tx_op \<Rightarrow> txst \<Rightarrow> (error option \<times> txst) res" where
  "tx_run (OpCreate nm) s =
     (case CreateBucket nm s of (Inl err, s) \<Rightarrow> Inr (Some err, s) | (Inr b, s) \<Rightarrow> Inr (None, s))"
| "tx_run (OpDrop nm) s = (case DeleteBucket nm (snd s) of (err, tx) \<Rightarrow> Inr (err, (fst s, tx)))"
| "tx_run (OpPut nm k v) s = in_named nm (bucket_exec (Put k v)) s"
| "tx_run (OpDel nm k) s = in_named nm (bucket_exec (Del k)) s"

fun run_ops :: "tx_op list \<Rightarrow> callback" where
  "run_ops [] s = (Returned None, s)"
| "run_ops (a # as) s = (case tx_run a s of
     Inl _ \<Rightarrow> (Panicked, s)
   | Inr (Some err, s) \<Rightarrow> (Returned (Some err), s)
   | Inr (None, s) \<Rightarrow> run_ops as s)"

text \<open>The same program on the abstract database; \<open>M0\<close> is the committed one.\<close>

definition put_error :: "bytes \<Rightarrow> bytes \<Rightarrow> error option" where
  "put_error k v =
     (if length k = 0 then Some ErrKeyRequired else if MaxKeySize < length k then Some ErrKeyTooLarge
      else if MaxValueSize < length v then Some ErrValueTooLarge else None)"

fun spec_op :: "(bytes \<rightharpoonup> kv list) \<Rightarrow> tx_op \<Rightarrow> (bytes \<rightharpoonup> kv list) \<Rightarrow> outcome \<times> (bytes \<rightharpoonup> kv list)" where
  "spec_op M0 (OpCreate nm) M =
     (if nm = [] then (Returned (Some ErrBucketNameRequired), M)
      else if M nm \<noteq> None then (Returned (Some ErrBucketExists), M)
      else (Returned None, M(nm \<mapsto> [])))"
| "spec_op M0 (OpDrop nm) M =
     (if M nm = None \<and> M0 nm = None then (Returned (Some ErrBucketNotFound), M)
      else (Returned None, M(nm := None)))"
| "spec_op M0 (OpPut nm k v) M = (case M nm of
     None \<Rightarrow> (Panicked, M)
   | Some kvs \<Rightarrow> if put_error k v \<noteq> None then (Returned (put_error k v), M)
                 else (Returned None, M(nm \<mapsto> alist_put k v kvs)))"
| "spec_op M0 (OpDel nm k) M = (case M nm of
     None \<Rightarrow> (Panicked, M)
   | Some kvs \<Rightarrow> (Returned None, M(nm \<mapsto> alist_del k kvs)))"

fun spec_ops :: "(bytes \<rightharpoonup> kv list) \<Rightarrow> tx_op list \<Rightarrow> (bytes \<rightharpoonup> kv list) \<Rightarrow> outcome \<times> (bytes \<rightharpoonup> kv list)" where
  "spec_ops M0 [] M = (Returned None, M)"
| "spec_ops M0 (a # as) M = (case spec_op M0 a M of
     (Returned None, M) \<Rightarrow> spec_ops M0 as M
   | r \<Rightarrow> r)"


section \<open>Programs refine their specification\<close>

text \<open>What no operation of a transaction changes.\<close>

definition keeps :: "nat \<Rightarrow> txst \<Rightarrow> txst \<Rightarrow> bool" where
  "keeps n s s' \<longleftrightarrow>
     (\<exists>h. fst s' = (fst s)\<lparr>nodes := h\<rparr> \<and> length (nodes (fst s)) \<le> length h \<and> (\<forall>a<n. h ! a = nodes (fst s) ! a)) \<and>
     writable (snd s') = writable (snd s) \<and> managed (snd s') = managed (snd s) \<and>
     commitHandlers (snd s') = commitHandlers (snd s) \<and> base (snd s') = base (snd s)"

lemma keeps_nodes:
  "nodes db' = nodes db \<Longrightarrow> db' = db \<Longrightarrow> writable tx' = writable tx \<Longrightarrow> managed tx' = managed tx \<Longrightarrow>
   commitHandlers tx' = commitHandlers tx \<Longrightarrow> base tx' = base tx \<Longrightarrow> keeps n (db, tx) (db', tx')"
  unfolding keeps_def by (intro conjI exI [of _ "nodes db"]) auto

lemma keeps_refl [simp]: "keeps n s s"
  unfolding keeps_def by (intro conjI exI [of _ "nodes (fst s)"]) auto

lemma keeps_trans:
  assumes "keeps n s s'" and "keeps n s' s''"
  shows "keeps n s s''"
proof -
  obtain h where h: "fst s' = (fst s)\<lparr>nodes := h\<rparr>" "length (nodes (fst s)) \<le> length h" "\<forall>a<n. h ! a = nodes (fst s) ! a"
    using assms(1) by (auto simp: keeps_def)
  obtain h' where "fst s'' = (fst s')\<lparr>nodes := h'\<rparr>" "length (nodes (fst s')) \<le> length h'" "\<forall>a<n. h' ! a = nodes (fst s') ! a"
    using assms(2) by (auto simp: keeps_def)
  then have "fst s'' = (fst s)\<lparr>nodes := h'\<rparr>" "length (nodes (fst s)) \<le> length h'" "\<forall>a<n. h' ! a = nodes (fst s) ! a"
    using h by simp_all
  moreover have "writable (snd s'') = writable (snd s)" "managed (snd s'') = managed (snd s)"
    "commitHandlers (snd s'') = commitHandlers (snd s)" "base (snd s'') = base (snd s)"
    using assms by (simp_all add: keeps_def)
  ultimately show ?thesis unfolding keeps_def by blast
qed

lemma same_tx_keeps: "same_tx n s s' \<Longrightarrow> keeps n s s'"
  by (cases s, cases s') (auto simp: same_tx_def keeps_def)

lemma tx_Bucket_keeps: "tx_Bucket nm tx = (b, tx') \<Longrightarrow> keeps n (db, tx) (db, tx')"
  by (rule keeps_nodes) (auto simp: tx_Bucket_def putBctx_def Let_def split: if_splits option.splits)

text \<open>One operation: the transaction agrees with the abstract database afterwards.\<close>

definition op_agrees ::
  "nat \<Rightarrow> txst \<Rightarrow> tx_op \<Rightarrow> (bytes \<rightharpoonup> kv list) \<Rightarrow> outcome \<times> (bytes \<rightharpoonup> kv list) \<Rightarrow> bool" where
  "op_agrees n s a M0 r \<longleftrightarrow> (case r of
     (Panicked, _) \<Rightarrow> (\<exists>f. tx_run a s = Inl f)
   | (Returned e, M') \<Rightarrow> \<exists>s'. tx_run a s = Inr (e, s') \<and> tx_holds n s' M0 M' \<and> keeps n s s' \<and>
       created (snd s') \<subseteq> created (snd s) \<union> {nm. a = OpCreate nm})"

lemma in_named_agrees:
  assumes "tx_holds n (db, tx) M0 M" and "writable tx" and "M nm = Some kvs" and "write_ok a"
  shows "\<exists>s'. in_named nm (bucket_exec a) (db, tx) = Inr (None, s') \<and>
           tx_holds n s' M0 (M(nm \<mapsto> apply_write a kvs)) \<and> keeps n (db, tx) s' \<and> created (snd s') = created tx"
proof -
  obtain b tx' where b: "tx_Bucket nm tx = (Some b, tx')" "tx_holds n (db, tx') M0 M"
    "map_of (bctx tx') nm = Some b" "writable tx'" "created tx' = created tx"
    using tx_Bucket_holds [OF assms(1), of nm] assms(2,3) by auto
  obtain w where w: "in_bucket b (bucket_exec a) (db, tx') = Inr (None, put_back w (db, tx'))"
    "evolves (bucket_wst (db, tx') b) w"
    "tx_holds n (put_back w (db, tx')) M0 (M(nm \<mapsto> apply_write a kvs))"
    using tx_exec [OF b(2,4,3) assms(3,4)] by blast
  have "handles_wf n (db, tx')" "b < length (bufs tx')" "n \<le> length (nodes db)"
    using b(2) tx_holdsD(1) [OF b(2,3)] tx_base(2) by (auto simp: tx_holds_def)
  then have "same_tx n (db, tx') (put_back w (db, tx'))" using same_tx_put_back w(2) by blast
  then have "keeps n (db, tx) (put_back w (db, tx'))"
    using same_tx_keeps tx_Bucket_keeps [OF b(1)] keeps_trans by blast
  then show ?thesis using w b(1,5) by (auto simp: in_named_def)
qed

lemma put_error_agrees:
  assumes "tx_holds n (db, tx) M0 M" and "writable tx" and "M nm = Some kvs" and "put_error k v \<noteq> None"
  shows "\<exists>s'. in_named nm (bucket_exec (Put k v)) (db, tx) = Inr (put_error k v, s') \<and> tx_holds n s' M0 M \<and>
           keeps n (db, tx) s' \<and> created (snd s') = created tx"
proof -
  obtain b tx' where b: "tx_Bucket nm tx = (Some b, tx')" "tx_holds n (db, tx') M0 M"
    "map_of (bctx tx') nm = Some b" "writable tx'" "created tx' = created tx"
    using tx_Bucket_holds [OF assms(1), of nm] assms(2,3) by auto
  have "db_open tx'" using b(2) by (simp add: tx_holds_def)
  then have "in_bucket b (bucket_exec (Put k v)) (db, tx') = Inr (put_error k v, (db, tx'))"
    using b(4) assms(4) by (auto simp: in_bucket_def bucket_Put_def put_error_def put_back_id)
  then show ?thesis using b tx_Bucket_keeps [OF b(1)] by (auto simp: in_named_def)
qed

lemma missing_agrees:
  assumes "tx_holds n (db, tx) M0 M" and "M nm = None"
  shows "in_named nm m (db, tx) = nil_deref"
  using tx_Bucket_holds [OF assms(1), of nm] assms(2) by (simp add: in_named_def)

lemma create_agrees:
  assumes "tx_holds n (db, tx) M0 M" and "writable tx"
  shows "op_agrees n (db, tx) (OpCreate nm) M0 (spec_op M0 (OpCreate nm) M)"
proof -
  have op: "db_open tx" using assms(1) by (simp add: tx_holds_def)
  consider "nm = []" | "nm \<noteq> []" "M nm \<noteq> None" | "nm \<noteq> []" "M nm = None" by blast
  then show ?thesis
  proof cases
    case 1
    then show ?thesis using assms op by (auto simp: op_agrees_def CreateBucket_def)
  next
    case 2
    then show ?thesis using CreateBucket_exists [OF assms 2] assms(1) by (auto simp: op_agrees_def)
  next
    case 3
    obtain db' tx' where c: "CreateBucket nm (db, tx) = (Inr (length (bufs tx)), (db', tx'))"
      "tx_holds n (db', tx') M0 (M(nm \<mapsto> []))" "created tx' = insert nm (created tx)"
      using CreateBucket_new [OF assms 3] by blast
    have "keeps n (db, tx) (db', tx')"
      using c(1) tx_base(2) [OF assms(1)]
      by (auto simp: CreateBucket_def keeps_def putBctx_def Let_def nth_append split: if_splits)
    then show ?thesis using c 3 by (auto simp: op_agrees_def)
  qed
qed

lemma DeleteBucket_keeps: "DeleteBucket nm tx = (e, tx') \<Longrightarrow> keeps n (db, tx) (db, tx')"
  by (rule keeps_nodes) (auto simp: DeleteBucket_def split: if_splits)

lemma drop_agrees:
  assumes "tx_holds n (db, tx) M0 M" and "writable tx" and "nm \<in> created tx \<Longrightarrow> M0 nm = None"
  shows "op_agrees n (db, tx) (OpDrop nm) M0 (spec_op M0 (OpDrop nm) M)"
proof (cases "nm \<in> created tx")
  case True
  have "M nm \<noteq> None"
  proof
    assume "M nm = None"
    then have "nm \<notin> fst ` set (bctx tx)" using view_None(2) [OF assms(1)] by (simp add: map_of_eq_None_iff)
    then show False using True assms(1) by (auto simp: tx_holds_def dir_wf_def)
  qed
  moreover obtain tx' where d: "DeleteBucket nm tx = (None, tx')" "tx_holds n (db, tx') M0 (M(nm := M0 nm))"
    "created tx' = created tx - {nm}"
    using DeleteBucket_created [OF assms(1,2) True] by blast
  ultimately show ?thesis using assms(3) [OF True] DeleteBucket_keeps [OF d(1)]
    by (simp add: op_agrees_def)
next
  case False
  show ?thesis
  proof (cases "M0 nm")
    case None
    have "M nm = None"
    proof (rule ccontr)
      assume "M nm \<noteq> None"
      then have "nm \<in> dom M" by blast
      then show False using dom_view(1) [OF assms(1)] False None by auto
    qed
    then show ?thesis using DeleteBucket_missing [OF assms(1,2) False None] None assms(1)
      by (auto simp: op_agrees_def)
  next
    case (Some kvs)
    then obtain tx' where d: "DeleteBucket nm tx = (None, tx')" "tx_holds n (db, tx') M0 (M(nm := None))"
      "created tx' = created tx"
      using DeleteBucket_committed [OF assms(1,2) False] by auto
    then show ?thesis using Some DeleteBucket_keeps [OF d(1)] by (simp add: op_agrees_def)
  qed
qed

lemma tx_run_agrees:
  assumes "tx_holds n (db, tx) M0 M" and "writable tx"
    and "\<And>nm. a = OpDrop nm \<Longrightarrow> nm \<in> created tx \<Longrightarrow> M0 nm = None"
  shows "op_agrees n (db, tx) a M0 (spec_op M0 a M)"
proof (cases a)
  case (OpCreate nm)
  then show ?thesis using create_agrees [OF assms(1,2)] by simp
next
  case (OpDrop nm)
  then show ?thesis using drop_agrees [OF assms(1,2)] assms(3) by blast
next
  case (OpPut nm k v)
  show ?thesis
  proof (cases "M nm")
    case None
    then show ?thesis using missing_agrees [OF assms(1) None] OpPut by (simp add: op_agrees_def nil_deref_def)
  next
    case (Some kvs)
    show ?thesis
    proof (cases "put_error k v")
      case None
      then have "write_ok (Put k v)" by (auto simp: put_error_def split: if_splits)
      then show ?thesis using in_named_agrees [OF assms(1,2) Some, of "Put k v"] OpPut Some None
        by (auto simp: op_agrees_def)
    next
      case (Some e)
      then show ?thesis using put_error_agrees [OF assms(1,2) \<open>M nm = Some kvs\<close>, of k v] OpPut \<open>M nm = Some kvs\<close>
        by (auto simp: op_agrees_def)
    qed
  qed
next
  case (OpDel nm k)
  show ?thesis
  proof (cases "M nm")
    case None
    then show ?thesis using missing_agrees [OF assms(1) None] OpDel by (simp add: op_agrees_def nil_deref_def)
  next
    case (Some kvs)
    then show ?thesis using in_named_agrees [OF assms(1,2) Some, of "Del k"] OpDel
      by (auto simp: op_agrees_def)
  qed
qed


text \<open>
  A program may drop a bucket it has created itself only when no committed bucket has that
  name.
\<close>

definition safe_drops :: "(bytes \<rightharpoonup> kv list) \<Rightarrow> bytes set \<Rightarrow> tx_op list \<Rightarrow> bool" where
  "safe_drops M0 C ops \<longleftrightarrow> (\<forall>nm. OpDrop nm \<in> set ops \<longrightarrow> nm \<in> C \<or> OpCreate nm \<in> set ops \<longrightarrow> M0 nm = None)"

lemma run_ops_agrees:
  assumes "tx_holds n s M0 M" and "writable (snd s)" and "safe_drops M0 (created (snd s)) ops"
  shows "\<exists>s'. run_ops ops s = (fst (spec_ops M0 ops M), s') \<and> tx_holds n s' M0 (snd (spec_ops M0 ops M)) \<and>
           keeps n s s' \<and> created (snd s') \<subseteq> created (snd s) \<union> {nm. OpCreate nm \<in> set ops}"
  using assms
proof (induction ops arbitrary: s M)
  case (Cons a ops)
  obtain db tx where s: "s = (db, tx)" by fastforce
  have ag: "op_agrees n (db, tx) a M0 (spec_op M0 a M)"
    by (rule tx_run_agrees) (use Cons.prems s in \<open>auto simp: safe_drops_def\<close>)
  show ?case
  proof (cases "spec_op M0 a M")
    case (Pair r M')
    show ?thesis
    proof (cases r)
      case Panicked
      then obtain f where "tx_run a s = Inl f" using ag Pair s by (auto simp: op_agrees_def)
      moreover have "M' = M"
        using Pair Panicked by (cases a) (auto split: if_splits option.splits)
      ultimately show ?thesis using Pair Panicked Cons.prems(1) by auto
    next
      case (Returned e)
      then obtain s' where s': "tx_run a s = Inr (e, s')" "tx_holds n s' M0 M'" "keeps n s s'"
        "created (snd s') \<subseteq> created (snd s) \<union> {nm. a = OpCreate nm}"
        using ag Pair s by (auto simp: op_agrees_def)
      show ?thesis
      proof (cases e)
        case (Some err)
        then show ?thesis using s' Returned Pair by auto
      next
        case None
        have "writable (snd s')" using s'(3) Cons.prems(2) by (simp add: keeps_def)
        moreover have "safe_drops M0 (created (snd s')) ops"
          using Cons.prems(3) s'(4) unfolding safe_drops_def by fastforce
        ultimately obtain s'' where "run_ops ops s' = (fst (spec_ops M0 ops M'), s'')"
          "tx_holds n s'' M0 (snd (spec_ops M0 ops M'))" "keeps n s' s''"
          "created (snd s'') \<subseteq> created (snd s') \<union> {nm. OpCreate nm \<in> set ops}"
          using Cons.IH [OF s'(2)] by blast
        moreover from this(4) have "created (snd s'') \<subseteq> created (snd s) \<union> {nm. OpCreate nm \<in> set (a # ops)}"
          using s'(4) by auto
        ultimately show ?thesis using s'(1,3) Returned None Pair keeps_trans by auto
      qed
    qed
  qed
qed simp

section \<open>Managed transactions\<close>

lemma rollback_writer:
  assumes "db_open tx" and "writable tx" and "rwlock db"
  shows "\<exists>db' tx'. tx_rollback (db, tx) = Inr (db', tx') \<and> nodes db' = nodes db \<and> state db' = state db \<and>
           opened db' = opened db \<and> readOnly db' = readOnly db \<and> \<not> rwlock db'"
  using assms by (auto simp: tx_rollback_def tx_close_def unlock_def)

lemma published_mono: "published h n bs kvs \<Longrightarrow> n \<le> m \<Longrightarrow> published h m bs kvs"
proof -
  assume "published h n bs kvs" and nm: "n \<le> m"
  then obtain st t where "bs = Some st" "root st = Some (raddr t)" "intree h {} t" "btree t" "keys_ok t"
    "items t = kvs" "set (addrs t) \<subseteq> {..<n}" by (auto simp: published_def)
  moreover from this have "set (addrs t) \<subseteq> {..<m}" using nm by auto
  ultimately show ?thesis by (auto simp: published_def)
qed

text \<open>
  \<open>db_lone\<close>: every bucket of the current state is a single leaf. \<open>extends\<close>: the nodes of one
  database are those of the other and possibly more, so everything published stays.
\<close>

definition db_lone :: "DB \<Rightarrow> bool" where
  "db_lone db \<longleftrightarrow> (\<exists>st. state db = Some st \<and> all_lone (nodes db) (buckets st))"

definition extends :: "DB \<Rightarrow> DB \<Rightarrow> bool" where
  "extends db db' \<longleftrightarrow>
     length (nodes db) \<le> length (nodes db') \<and> (\<forall>a<length (nodes db). nodes db' ! a = nodes db ! a)"

lemma extends_refl [simp]: "extends db db"
  by (simp add: extends_def)

lemma extends_trans: "extends db db' \<Longrightarrow> extends db' db'' \<Longrightarrow> extends db db''"
  by (auto simp: extends_def)

lemma all_lone_extends:
  assumes "all_lone (nodes db) (buckets st)" and "state_holds (nodes db) (length (nodes db)) st M" and "extends db db'"
  shows "all_lone (nodes db') (buckets st)"
  unfolding all_lone_def
proof (intro allI impI)
  fix nm bs assume m: "map_of (buckets st) nm = Some bs"
  then obtain kvs where p: "published (nodes db) (length (nodes db)) bs kvs"
    using assms(2) by (force simp: state_holds_def option_rel_Some1 dest: spec [of _ nm])
  have "lone (nodes db) bs" using assms(1) m by (simp add: all_lone_def)
  then show "lone (nodes db') bs"
    by (rule lone_frame [OF _ p, of "nodes db'"]) (use assms(3) in \<open>auto simp: extends_def\<close>)
qed

lemma db_holds_keeps:
  assumes "db_holds db M" and "keeps (length (nodes db)) (db\<lparr>rwlock := b\<rparr>, tx) (db1, tx1)"
    and "nodes db' = nodes db1" and "state db' = state db1" and "opened db' = opened db1"
  shows "db_holds db' M" and "extends db db'" and "db_lone db \<Longrightarrow> db_lone db'"
proof -
  obtain st where st: "opened db" "state db = Some st" "state_holds (nodes db) (length (nodes db)) st M"
    using assms(1) by (auto simp: db_holds_def)
  obtain h where h: "db1 = db\<lparr>rwlock := b, nodes := h\<rparr>" "length (nodes db) \<le> length h"
    "\<forall>a<length (nodes db). h ! a = nodes db ! a"
    using assms(2) by (auto simp: keeps_def)
  have sh: "state_holds h (length (nodes db)) st M" by (rule state_holds_frame [OF st(3) h(3,2)])
  have "rel_option (published h (length h)) (map_of (buckets st) nm) (M nm)" for nm
    by (rule option.rel_mono_strong [of "published h (length (nodes db))"])
      (use sh published_mono [OF _ h(2)] in \<open>auto simp: state_holds_def\<close>)
  then have "state_holds h (length h) st M" using sh by (simp add: state_holds_def)
  then show "db_holds db' M" using st(1,2) h(1) assms(3-5) by (simp add: db_holds_def)
  show x: "extends db db'" using h assms(3) by (simp add: extends_def)
  show "db_lone db'" if "db_lone db"
    using that all_lone_extends [OF _ st(3) x] st(2) h(1) assms(4) by (simp add: db_lone_def)
qed

text \<open>
  \<open>Update\<close> with a program: all of its effects or none of them, and the writer lock is free
  afterwards.
\<close>

definition commits_ok :: "(txst \<Rightarrow> commit_env) \<Rightarrow> txst \<Rightarrow> bool" where
  "commits_ok sched s \<longleftrightarrow> env_ok (sched s) (snd s) \<and>
     (\<forall>(nm, b)\<in>set (bctx (snd s)). committable (bucket_wst s b))"

lemma tx_holds_managed: "tx_holds n (db, tx\<lparr>managed := m\<rparr>) M0 M \<longleftrightarrow> tx_holds n (db, tx) M0 M"
proof -
  have "bucket_wst (db, tx\<lparr>managed := m\<rparr>) b = bucket_wst (db, tx) b" for b
    by (rule wst_eqI) (simp_all add: tx_baseState_def base_buckets_def)
  then show ?thesis by (simp add: tx_holds_def handles_wf_def dir_wf_def view_at_def cong: option.case_cong)
qed

text \<open>
  A callback implements an abstract transaction on \<open>M\<close> when it has outcome \<open>o'\<close> and leaves the
  transaction with the view \<open>M'\<close>. Programs do, by the refinement of their operations.
\<close>

definition implements ::
  "callback \<Rightarrow> (bytes \<rightharpoonup> kv list) \<Rightarrow> outcome \<times> (bytes \<rightharpoonup> kv list) \<Rightarrow> bool" where
  "implements fn M r \<longleftrightarrow>
     (\<forall>n s. tx_holds n s M M \<longrightarrow> writable (snd s) \<longrightarrow> created (snd s) = {} \<longrightarrow>
        (\<exists>s'. fn s = (fst r, s') \<and> tx_holds n s' M (snd r) \<and> keeps n s s'))"

lemma run_ops_implements: "safe_drops M {} ops \<Longrightarrow> implements (run_ops ops) M (spec_ops M ops M)"
  unfolding implements_def using run_ops_agrees by fastforce

lemma Update_run:
  assumes "db_holds db M" and "\<not> readOnly db" and "\<not> rwlock db" and "implements fn M r"
  shows "\<exists>st db1 tx1. state db = Some st \<and> Begin True db = Some (Inr (new_tx True st), db\<lparr>rwlock := True\<rparr>) \<and>
    fn (db\<lparr>rwlock := True\<rparr>, (new_tx True st)\<lparr>managed := True\<rparr>) = (fst r, (db1, tx1)) \<and>
    tx_holds (length (nodes db)) (db1, tx1) M (snd r) \<and>
    keeps (length (nodes db)) (db\<lparr>rwlock := True\<rparr>, (new_tx True st)\<lparr>managed := True\<rparr>) (db1, tx1) \<and>
    db_open tx1 \<and> writable tx1 \<and> rwlock db1 \<and> commitHandlers tx1 = []"
proof -
  obtain st where st: "Begin True db = Some (Inr (new_tx True st), db\<lparr>rwlock := True\<rparr>)"
    "tx_holds (length (nodes db)) (db\<lparr>rwlock := True\<rparr>, new_tx True st) M M"
    using Begin_write [OF assms(1-3)] by blast
  have state: "state db = Some st"
    using st(1) by (auto simp: Begin_def beginRWTx_def lock_def new_tx_def split: if_splits option.splits)
  let ?t = "(new_tx True st)\<lparr>managed := True\<rparr>"
  have t: "tx_holds (length (nodes db)) (db\<lparr>rwlock := True\<rparr>, ?t) M M" using st(2) tx_holds_managed by blast
  have "writable ?t" "created ?t = {}" by (simp_all add: new_tx_def)
  then obtain s1 where s1: "fn (db\<lparr>rwlock := True\<rparr>, ?t) = (fst r, s1)"
    "tx_holds (length (nodes db)) s1 M (snd r)" "keeps (length (nodes db)) (db\<lparr>rwlock := True\<rparr>, ?t) s1"
    using assms(4) t unfolding implements_def by force
  moreover obtain db1 tx1 where "s1 = (db1, tx1)" by fastforce
  moreover have "db_open (snd s1)" "writable (snd s1)" "rwlock (fst s1)" "commitHandlers (snd s1) = []"
    using s1(2,3) by (auto simp: tx_holds_def keeps_def new_tx_def)
  ultimately show ?thesis using st(1) state by auto
qed

lemma Update_aborts:
  assumes "db_holds db M" and "\<not> readOnly db" and "\<not> rwlock db" and "implements fn M r" and "fst r \<noteq> Returned None"
  shows "\<exists>db'. Update sched fn db = Some (fst r, db') \<and> db_holds db' M \<and>
           \<not> rwlock db' \<and> \<not> readOnly db' \<and> extends db db' \<and> (db_lone db \<longrightarrow> db_lone db')"
proof -
  obtain st db1 tx1 where r: "Begin True db = Some (Inr (new_tx True st), db\<lparr>rwlock := True\<rparr>)"
    "fn (db\<lparr>rwlock := True\<rparr>, (new_tx True st)\<lparr>managed := True\<rparr>) = (fst r, (db1, tx1))"
    "keeps (length (nodes db)) (db\<lparr>rwlock := True\<rparr>, (new_tx True st)\<lparr>managed := True\<rparr>) (db1, tx1)"
    "db_open tx1" "writable tx1" "rwlock db1"
    using Update_run [OF assms(1-4)] by blast
  have ro: "readOnly db1 = readOnly db" using r(3) by (auto simp: keeps_def)
  show ?thesis
  proof (cases "fst r")
    case Panicked
    obtain db' tx' where d: "tx_rollback (db1, tx1) = Inr (db', tx')" "nodes db' = nodes db1" "state db' = state db1"
      "opened db' = opened db1" "readOnly db' = readOnly db1" "\<not> rwlock db'"
      using rollback_writer [OF r(4-6)] by blast
    then have "Update sched fn db = Some (Panicked, db')"
      using r(1,2) Panicked by (simp add: Update_def deferred_def)
    then show ?thesis using db_holds_keeps [OF assms(1) r(3) d(2-4)] d(5,6) ro assms(2) Panicked by auto
  next
    case (Returned err)
    then obtain e where e: "err = Some e" using assms(5) by auto
    let ?tx = "tx1\<lparr>managed := False\<rparr>"
    obtain db' tx' where d: "tx_rollback (db1, ?tx) = Inr (db', tx')" "nodes db' = nodes db1" "state db' = state db1"
      "opened db' = opened db1" "readOnly db' = readOnly db1" "\<not> rwlock db'"
      using rollback_writer [of ?tx db1] r(4-6) by auto
    then have "Update sched fn db = Some (Returned (Some e), db')"
      using r(1,2,4) Returned e by (simp add: Update_def Rollback_def Let_def)
    then show ?thesis using db_holds_keeps [OF assms(1) r(3) d(2-4)] d(5,6) ro assms(2) Returned e by auto
  qed
qed

lemma Update_commits:
  assumes "db_holds db M" and "\<not> readOnly db" and "\<not> rwlock db" and "implements fn M (Returned None, M')"
    and "\<And>db1 tx1. tx_holds (length (nodes db)) (db1, tx1) M M' \<Longrightarrow> base tx1 = state db \<Longrightarrow> extends db db1 \<Longrightarrow>
           commits_ok sched (db1, tx1)"
  shows "\<exists>db'. Update sched fn db = Some (Returned None, db') \<and> db_holds db' M' \<and>
           \<not> rwlock db' \<and> \<not> readOnly db' \<and> extends db db' \<and> (small_map M' \<longrightarrow> db_lone db \<longrightarrow> db_lone db')"
proof -
  obtain st db1 tx1 where r: "Begin True db = Some (Inr (new_tx True st), db\<lparr>rwlock := True\<rparr>)"
    "fn (db\<lparr>rwlock := True\<rparr>, (new_tx True st)\<lparr>managed := True\<rparr>) = (Returned None, (db1, tx1))"
    "tx_holds (length (nodes db)) (db1, tx1) M M'"
    "keeps (length (nodes db)) (db\<lparr>rwlock := True\<rparr>, (new_tx True st)\<lparr>managed := True\<rparr>) (db1, tx1)"
    "db_open tx1" "writable tx1" "rwlock db1" "commitHandlers tx1 = []" "state db = Some st"
    using Update_run [OF assms(1-4)] by auto
  have ro: "readOnly db1 = readOnly db" "opened db1 = opened db" using r(4) by (auto simp: keeps_def)
  let ?tx = "tx1\<lparr>managed := False\<rparr>"
  have ext: "extends db db1" using db_holds_keeps(2) [OF assms(1) r(4) refl refl refl] .
  have base: "base ?tx = state db" using r(4,9) by (simp add: keeps_def new_tx_def)
  have t: "tx_holds (length (nodes db)) (db1, ?tx) M M'" using r(3) tx_holds_managed by blast
  have ok: "env_ok (sched (db1, ?tx)) ?tx" "\<forall>(nm, b)\<in>set (bctx ?tx). committable (bucket_wst (db1, ?tx) b)"
    using assms(5) [OF t base ext] by (auto simp: commits_ok_def)
  obtain db' tx' st' where c: "Commit (sched (db1, ?tx)) (db1, ?tx) = Inr ((None, commitHandlers ?tx), (db', tx'))"
    "\<not> rwlock db'" "opened db' = opened db1" "readOnly db' = readOnly db1" "state db' = Some st'"
    "state_holds (nodes db') (length (nodes db')) st' M'" "length (nodes db1) \<le> length (nodes db')"
    "\<forall>a<length (nodes db). nodes db' ! a = nodes db1 ! a"
    "small_map M' \<longrightarrow> all_lone (nodes db1) (base_buckets ?tx) \<longrightarrow> all_lone (nodes db') (buckets st')"
    using Commit_holds [OF t _ _ r(7) ok] r(6) by auto
  then have "Update sched fn db = Some (Returned None, db')"
    using r(1,2) by (simp add: Update_def Let_def)
  moreover have "opened db" using assms(1) by (simp add: db_holds_def)
  moreover have "base_buckets ?tx = buckets st" using base r(9) by (simp add: base_buckets_def)
  moreover have "all_lone (nodes db1) (buckets st)" if "db_lone db"
    using that db_holds_keeps(3) [OF assms(1) r(4) refl refl refl] r(4,9) by (auto simp: db_lone_def keeps_def)
  ultimately show ?thesis using c ro assms(2) ext by (auto simp: db_holds_def db_lone_def extends_def)
qed

text \<open>
  Every schedule the runtime can choose visits each handle once and, per bucket, each copied
  node once: \<open>env_ok\<close> for every transaction it is asked for.
\<close>

definition sched_ok :: "(txst \<Rightarrow> commit_env) \<Rightarrow> bool" where
  "sched_ok sched \<longleftrightarrow> (\<forall>n db tx. handles_wf n (db, tx) \<longrightarrow> env_ok (sched (db, tx)) tx)"

lemma std_sched_ok: "sched_ok (\<lambda>s. std_env (snd s))"
  by (auto simp: sched_ok_def intro: std_env_ok)

lemma lone_committable:
  assumes "tx_holds n (db, tx) M0 M" and "all_lone (nodes db) (base_buckets tx)" and "(nm, b) \<in> set (bctx tx)"
  shows "committable (bucket_wst (db, tx) b)"
proof (rule created_committable [OF assms(1,3)])
  have "distinct (map fst (bctx tx))" using assms(1) by (simp add: tx_holds_def handles_wf_def)
  then have m: "map_of (bctx tx) nm = Some b" using assms(3) by simp
  have nm: "name (bufs tx ! b) = nm" by (rule tx_holdsD(2) [OF assms(1) m])
  have "leaf_base n (bucket_wst (db, tx) b)" if "nm \<notin> created tx"
  proof -
    have "nm \<in> fst ` set (bctx tx)" using assms(3) by force
    then have "M0 nm \<noteq> None" using assms(1) that by (auto simp: tx_holds_def dir_wf_def)
    then obtain bs kvs where bs: "map_of (base_buckets tx) nm = Some bs" "published (nodes db) n bs kvs"
      using tx_base(1) [OF assms(1), of nm] by (auto simp: option_rel_Some2)
    then have "lone (nodes db) bs" using assms(2) by (simp add: all_lone_def)
    then obtain st r where st: "bs = Some st" "root st = Some r" "isLeaf (nodes db ! r)" by (auto simp: lone_def)
    moreover have "r < n"
    proof -
      obtain t where "root st = Some (raddr t)" "set (addrs t) \<subseteq> {..<n}" using bs(2) st(1) by (auto simp: published_def)
      then show ?thesis using st(2) subsetD [OF _ raddr_in_addrs, of t "{..<n}"] by simp
    qed
    ultimately show ?thesis using bs(1) nm by (simp add: leaf_base_def tx_baseState_def)
  qed
  then show "nm \<in> created tx \<or> leaf_base n (bucket_wst (db, tx) b) \<or> rootNode (bufs tx ! b) = None" by blast
qed

text \<open>What an \<open>Update\<close> does to the abstract database: all or nothing.\<close>

definition commit_view :: "outcome \<times> (bytes \<rightharpoonup> kv list) \<Rightarrow> (bytes \<rightharpoonup> kv list) \<Rightarrow> (bytes \<rightharpoonup> kv list)" where
  "commit_view r M = (case r of (Returned None, M') \<Rightarrow> M' | _ \<Rightarrow> M)"

lemma Update_atomic:
  assumes "db_holds db M" and "db_lone db" and "\<not> readOnly db" and "\<not> rwlock db" and "implements fn M r"
    and "sched_ok sched"
  shows "\<exists>db'. Update sched fn db = Some (fst r, db') \<and>
           db_holds db' (commit_view r M) \<and> \<not> rwlock db' \<and> \<not> readOnly db' \<and> extends db db' \<and>
           (small_map (commit_view r M) \<longrightarrow> db_lone db')"
proof (cases "fst r = Returned None")
  case True
  then obtain M' where r: "r = (Returned None, M')" by (cases r) auto
  have "\<exists>db'. Update sched fn db = Some (Returned None, db') \<and> db_holds db' M' \<and>
      \<not> rwlock db' \<and> \<not> readOnly db' \<and> extends db db' \<and> (small_map M' \<longrightarrow> db_lone db \<longrightarrow> db_lone db')"
  proof (rule Update_commits [OF assms(1,3,4) assms(5) [unfolded r]])
    fix db1 tx1 assume t: "tx_holds (length (nodes db)) (db1, tx1) M M'" and b: "base tx1 = state db" and x: "extends db db1"
    obtain st where st: "state db = Some st" "all_lone (nodes db) (buckets st)" "state_holds (nodes db) (length (nodes db)) st M"
      using assms(1,2) by (auto simp: db_lone_def db_holds_def)
    have "all_lone (nodes db1) (base_buckets tx1)"
      using all_lone_extends [OF st(2,3) x] b st(1) by (simp add: base_buckets_def)
    then have "\<forall>(nm, b)\<in>set (bctx tx1). committable (bucket_wst (db1, tx1) b)" using lone_committable [OF t] by auto
    moreover have "env_ok (sched (db1, tx1)) tx1" using assms(6) t by (auto simp: sched_ok_def tx_holds_def)
    ultimately show "commits_ok sched (db1, tx1)" by (simp add: commits_ok_def)
  qed
  then show ?thesis using assms(2) by (auto simp: r commit_view_def)
next
  case False
  then have u: "commit_view r M = M" by (cases r) (auto simp: commit_view_def split: outcome.splits option.splits)
  show ?thesis using Update_aborts [OF assms(1,3,4,5) False, of sched] assms(2) unfolding u by blast
qed

section \<open>Batches of programs\<close>

text \<open>
  The abstract batch transaction: the programs one after the other, up to the first that does
  not return nil.
\<close>

definition call_error :: "outcome \<Rightarrow> error option" where
  "call_error o' = (case o' of Panicked \<Rightarrow> Some (Errorf ''panic'') | Returned err \<Rightarrow> err)"

fun spec_calls :: "(bytes \<rightharpoonup> kv list) \<Rightarrow> tx_op list list \<Rightarrow> nat \<Rightarrow> (bytes \<rightharpoonup> kv list) \<Rightarrow>
    nat option \<times> error option \<times> (bytes \<rightharpoonup> kv list)" where
  "spec_calls M0 [] i M = (None, None, M)"
| "spec_calls M0 (ops # ps) i M = (case spec_ops M0 ops M of (o', M') \<Rightarrow>
     (case call_error o' of
        None \<Rightarrow> spec_calls M0 ps (Suc i) M'
      | Some err \<Rightarrow> (Some i, Some err, M')))"

lemma run_calls_agrees:
  assumes "tx_holds n s M0 M" and "writable (snd s)" and "\<forall>c\<in>set cs. cfn c = run_ops (prog c)"
    and "safe_drops M0 (created (snd s)) (concat (map prog cs))" and "spec_calls M0 (map prog cs) i M = (fi, err, M')"
  shows "\<exists>s'. run_calls cs i s = (fi, err, s') \<and> tx_holds n s' M0 M' \<and> keeps n s s'"
  using assms
proof (induction cs arbitrary: i s M)
  case (Cons c cs)
  obtain o' M1 where r: "spec_ops M0 (prog c) M = (o', M1)" by fastforce
  have "safe_drops M0 (created (snd s)) (prog c)" using Cons.prems(4) by (auto simp: safe_drops_def)
  then obtain s1 where s1: "run_ops (prog c) s = (o', s1)" "tx_holds n s1 M0 M1" "keeps n s s1"
    "created (snd s1) \<subseteq> created (snd s) \<union> {nm. OpCreate nm \<in> set (prog c)}"
    using run_ops_agrees [OF Cons.prems(1,2), of "prog c"] r by auto
  have f: "safelyCall (cfn c) s = (call_error o', s1)"
    using Cons.prems(3) s1(1) by (simp add: safelyCall_def call_error_def split: outcome.splits)
  show ?case
  proof (cases "call_error o'")
    case None
    have "writable (snd s1)" using s1(3) Cons.prems(2) by (simp add: keeps_def)
    moreover have "safe_drops M0 (created (snd s1)) (concat (map prog cs))"
      using Cons.prems(4) s1(4) unfolding safe_drops_def by fastforce
    moreover have "spec_calls M0 (map prog cs) (Suc i) M1 = (fi, err, M')" using Cons.prems(5) r None by simp
    ultimately obtain s' where "run_calls cs (Suc i) s1 = (fi, err, s')" "tx_holds n s' M0 M'" "keeps n s1 s'"
      using Cons.IH [of s1 M1 "Suc i"] s1(2) Cons.prems(3) by (metis list.set_intros(2))
    then show ?thesis using keeps_trans [OF s1(3)] f None by auto
  next
    case (Some e)
    have "safelyCall (cfn c) s = (Some e, s1)" using f Some by simp
    then have "run_calls (c # cs) i s = (Some i, Some e, s1)" by simp
    moreover have "fi = Some i \<and> err = Some e \<and> M' = M1" using Cons.prems(5) r Some by simp
    ultimately show ?thesis using s1(2,3) by blast
  qed
qed simp

lemma calls_fn_implements:
  assumes "\<forall>c\<in>set cs. cfn c = run_ops (prog c)" and "safe_drops M {} (concat (map prog cs))"
    and "spec_calls M (map prog cs) 0 M = (fi, err, M')"
  shows "implements (calls_fn cs) M (Returned err, M')"
  unfolding implements_def
proof (intro allI impI)
  fix n s assume s: "tx_holds n s M M" "writable (snd s)" "created (snd s) = {}"
  then obtain s' where "run_calls cs 0 s = (fi, err, s')" "tx_holds n s' M M'" "keeps n s s'"
    using run_calls_agrees [OF s(1,2) assms(1) _ assms(3)] assms(2) by auto
  then show "\<exists>s'. calls_fn cs s = (fst (Returned err, M'), s') \<and> tx_holds n s' M (snd (Returned err, M')) \<and> keeps n s s'"
    by (simp add: calls_fn_def)
qed

lemma failIdx_agrees:
  assumes "db_holds db M" and "\<not> readOnly db" and "\<not> rwlock db" and "\<forall>c\<in>set cs. cfn c = run_ops (prog c)"
    and "safe_drops M {} (concat (map prog cs))" and "spec_calls M (map prog cs) 0 M = (fi, err, M')"
  shows "failIdx cs db = fi"
proof -
  obtain st where st: "Begin True db = Some (Inr (new_tx True st), db\<lparr>rwlock := True\<rparr>)"
    "tx_holds (length (nodes db)) (db\<lparr>rwlock := True\<rparr>, new_tx True st) M M"
    using Begin_write [OF assms(1-3)] by blast
  let ?t = "(new_tx True st)\<lparr>managed := True\<rparr>"
  have t: "tx_holds (length (nodes db)) (db\<lparr>rwlock := True\<rparr>, ?t) M M" using st(2) tx_holds_managed by blast
  have "writable ?t" "created ?t = {}" by (simp_all add: new_tx_def)
  then show ?thesis
    using run_calls_agrees [OF t, of cs prog 0 fi err M'] assms(4-6) st(1) by (auto simp: failIdx_def)
qed

lemma spec_calls_cases:
  assumes "spec_calls M0 ps i M = (fi, err, M')"
  shows "(fi = None \<longleftrightarrow> err = None) \<and> (\<forall>j. fi = Some j \<longrightarrow> i \<le> j \<and> j < i + length ps)"
  using assms
  by (induction M0 ps i M rule: spec_calls.induct) (fastforce split: prod.splits option.splits)+

lemma mset_swap_remove:
  assumes "i < length xs"
  shows "mset xs = add_mset (xs ! i) (mset (swap_remove i xs))"
proof -
  obtain ys y where xs: "xs = ys @ [y]" using assms by (cases xs rule: rev_cases) auto
  show ?thesis
  proof (cases "i = length ys")
    case True
    then show ?thesis by (simp add: xs swap_remove_def)
  next
    case False
    then have i: "i < length ys" using assms xs by simp
    have "swap_remove i xs = ys[i := y]" using i by (simp add: xs swap_remove_def list_update_append)
    moreover have "mset ys = add_mset (ys ! i) (mset (take i ys) + mset (drop (Suc i) ys))"
      using i by (metis id_take_nth_drop mset_append mset.simps(2) union_mset_add_mset_right)
    moreover have "mset (ys[i := y]) = add_mset y (mset (take i ys) + mset (drop (Suc i) ys))"
      using i by (simp add: upd_conv_take_nth_drop)
    ultimately show ?thesis using i by (simp add: xs nth_append)
  qed
qed

text \<open>
  A batch ends with one transaction that commits exactly the calls it answers with nil; all
  other calls are told to run alone; every call gets one answer.
\<close>

lemma batch_run_answers:
  assumes "db_holds db M" and "db_lone db" and "\<not> readOnly db" and "\<not> rwlock db" and "sched_ok sched"
    and "\<forall>c\<in>set cs. cfn c = run_ops (prog c)" and "safe_drops M {} (concat (map prog cs))"
  shows "\<exists>rs db' ds fs M'. batch_run sched cs db = Some (Returned None, rs, db') \<and> mset ds + mset fs = mset cs \<and>
     mset rs = mset (map (\<lambda>c. (cid c, Answer None)) ds) + mset (map (\<lambda>c. (cid c, TrySolo)) fs) \<and>
     spec_calls M (map prog ds) 0 M = (None, None, M') \<and> db_holds db' M' \<and> \<not> rwlock db'"
  using assms
proof (induction "length cs" arbitrary: cs db rule: less_induct)
  case less
  show ?case
  proof (cases "cs = []")
    case True
    then have "batch_run sched cs db = Some (Returned None, [], db)" by (simp add: batch_run.simps)
    then show ?thesis using less.prems(1,4) True by (intro exI [of _ "[]"] exI [of _ db] exI [of _ M]) simp
  next
    case False
    obtain fi err M' where sp: "spec_calls M (map prog cs) 0 M = (fi, err, M')" by (metis prod_cases3)
    note fx = failIdx_agrees [OF less.prems(1,3,4,6,7) sp]
    note im = calls_fn_implements [OF less.prems(6,7) sp]
    show ?thesis
    proof (cases fi)
      case None
      then have err: "err = None" using spec_calls_cases [OF sp] by simp
      obtain db' where db': "Update sched (calls_fn cs) db = Some (Returned None, db')" "db_holds db' M'" "\<not> rwlock db'"
        using Update_atomic [OF less.prems(1-4) im less.prems(5)] err by (auto simp: commit_view_def)
      have "batch_run sched cs db = Some (Returned None, map (\<lambda>c. (cid c, Answer None)) cs, db')"
        using False db'(1) fx None by (subst batch_run.simps) simp
      then show ?thesis using db'(2,3) sp None err
        by (intro exI [of _ "map (\<lambda>c. (cid c, Answer None)) cs"] exI [of _ db'] exI [of _ cs] exI [of _ "[]"] exI [of _ M']) simp
    next
      case (Some i)
      then have i: "i < length cs" "err \<noteq> None" using spec_calls_cases [OF sp] by auto
      obtain db' where db': "Update sched (calls_fn cs) db = Some (Returned err, db')" "db_holds db' M" "\<not> rwlock db'"
        "\<not> readOnly db'" "db_lone db'"
        using Update_aborts [OF less.prems(1,3,4) im, of sched] i(2) less.prems(2) by auto
      let ?cs = "swap_remove i cs"
      have ms: "mset cs = add_mset (cs ! i) (mset ?cs)" by (rule mset_swap_remove [OF i(1)])
      have sub: "set ?cs \<subseteq> set cs" using ms by (metis set_mset_add_mset_insert set_mset_mset subset_insertI)
      have len: "length ?cs < length cs" using ms by (metis size_mset lessI size_add_mset)
      have "\<forall>c\<in>set ?cs. cfn c = run_ops (prog c)" "safe_drops M {} (concat (map prog ?cs))"
        using less.prems(6,7) sub by (auto simp: safe_drops_def)
      then obtain rs db'' ds fs M'' where b: "batch_run sched ?cs db' = Some (Returned None, rs, db'')"
        "mset ds + mset fs = mset ?cs"
        "mset rs = mset (map (\<lambda>c. (cid c, Answer None)) ds) + mset (map (\<lambda>c. (cid c, TrySolo)) fs)"
        "spec_calls M (map prog ds) 0 M = (None, None, M'')" "db_holds db'' M''" "\<not> rwlock db''"
        using less.hyps [OF len db'(2,5,4,3) less.prems(5)] by blast
      have "batch_run sched cs db = Some (Returned None, (cid (cs ! i), TrySolo) # rs, db'')"
        using False db'(1) fx Some b(1) by (subst batch_run.simps) simp
      then show ?thesis using b ms
        by (intro exI [of _ "(cid (cs ! i), TrySolo) # rs"] exI [of _ db''] exI [of _ ds] exI [of _ "(cs ! i) # fs"] exI [of _ M'']) simp
    qed
  qed
qed

section \<open>Properties\<close>

text \<open>
  A program used in the examples: create a bucket and store a pair.
\<close>

definition example_prog :: "tx_op list" where
  "example_prog = [OpCreate [98], OpPut [98] [1] [7]]"

lemma example_prog_spec:
  "spec_ops Map.empty example_prog Map.empty = (Returned None, [[98] \<mapsto> [([1], [7])]])"
  "safe_drops M C example_prog" "small_map [[98] \<mapsto> [([1], [7])]]"
  by (simp_all add: example_prog_def put_error_def MaxKeySize_def MaxValueSize_def alist_put_def small_map_def
      small_kvs_def node_consts safe_drops_def)

lemma open_empty_ready: "\<not> readOnly (open_empty None)" "\<not> rwlock (open_empty opts)" "db_lone (open_empty opts)"
  by (simp_all add: open_empty_def DefaultOptions_def db_init_def db_lone_def all_lone_def Let_def)



text \<open>Several \<open>Update\<close> calls one after the other.\<close>

fun updates :: "(txst \<Rightarrow> commit_env) \<Rightarrow> tx_op list list \<Rightarrow> DB \<Rightarrow> (outcome list \<times> DB) option" where
  "updates sched [] db = Some ([], db)"
| "updates sched (p # ps) db = (case Update sched (run_ops p) db of
     None \<Rightarrow> None
   | Some (o', db) \<Rightarrow> map_option (\<lambda>(os, db). (o' # os, db)) (updates sched ps db))"

fun spec_updates :: "tx_op list list \<Rightarrow> (bytes \<rightharpoonup> kv list) \<Rightarrow> outcome list \<times> (bytes \<rightharpoonup> kv list)" where
  "spec_updates [] M = ([], M)"
| "spec_updates (p # ps) M = (case spec_updates ps (commit_view (spec_ops M p M) M) of
     (os, M') \<Rightarrow> (fst (spec_ops M p M) # os, M'))"

fun progs_ok :: "tx_op list list \<Rightarrow> (bytes \<rightharpoonup> kv list) \<Rightarrow> bool" where
  "progs_ok [] M = True"
| "progs_ok (p # ps) M = (safe_drops M {} p \<and> small_map (commit_view (spec_ops M p M) M) \<and>
     progs_ok ps (commit_view (spec_ops M p M) M))"





text \<open>
  C22: a database that has been closed refuses every transaction: \<open>Begin\<close>, \<open>Update\<close> and \<open>View\<close>
  return an error without running the callback, nothing changes, and closing again is harmless.
\<close>

theorem closed_database_refuses:
  assumes "DB_Close db = Some db'"
  shows "\<exists>e. Update sched fn db' = Some (Returned (Some e), db') \<and> e \<in> {ErrDatabaseNotOpen, ErrDatabaseReadOnly} \<and>
     View fn db' = Some (Returned (Some ErrDatabaseNotOpen), db') \<and> DB_Close db' = Some db'"
proof -
  have d: "\<not> opened db'" "\<not> rwlock db'"
    using assms by (auto simp: DB_Close_def lock_def db_close_def split: if_splits)
  then have "db_close (db'\<lparr>rwlock := True\<rparr>) = db'\<lparr>rwlock := True\<rparr>" "db'\<lparr>rwlock := False\<rparr> = db'"
    by (simp_all add: db_close_def)
  then show ?thesis
    using d by (cases "readOnly db'") (simp_all add: Update_def View_def Begin_def beginRWTx_def beginTx_def lock_def DB_Close_def)
qed

theorem closed_database_refuses_witness:
  "\<exists>db'. DB_Close (open_empty None) = Some db' \<and> (\<exists>e. Update (\<lambda>s. std_env (snd s)) (run_ops example_prog) db' = Some (Returned (Some e), db'))"
proof -
  obtain db' where "DB_Close (open_empty None) = Some db'"
    using open_empty_ready(2) [of None] by (simp add: DB_Close_def lock_def)
  then show ?thesis using closed_database_refuses by blast
qed



end
