(* ===== verification/Vm_System.thy ===== *)
theory Vm_System
  imports Vm_DB
begin

text \<open>
  Transactions side by side: one writer and any number of readers on one database, as the
  locks of \<open>db.go\<close> allow it. A step is one call of the public interface by one transaction
  (\<open>Begin\<close>, a bucket operation, \<open>Get\<close>, \<open>Commit\<close>, \<open>Rollback\<close>); any interleaving of such
  steps is a run. With a reader the state records, as a ghost, what the database held when the
  reader began.

  The invariant shows snapshot isolation: whatever the writer does and commits meanwhile, a
  reader sees the contents it began with. It also shows that the writer lock is held exactly
  while a writer is open and that the statistics count the open readers.
\<close>

section \<open>Runs\<close>

record sys =
  sdb :: DB
  swriter :: "Tx option"
  sreaders :: "(Tx \<times> (bytes \<rightharpoonup> kv list)) list"

text \<open>\<open>Get\<close> through a transaction: the bucket is looked up by name first.\<close>

definition tx_read :: "bytes \<Rightarrow> bytes \<Rightarrow> txst \<Rightarrow> (bytes option option \<times> txst) res" where
  "tx_read nm k s = (case s of (db, tx) \<Rightarrow>
     (case tx_Bucket nm tx of
        (None, tx) \<Rightarrow> Inr (None, (db, tx))
      | (Some b, tx) \<Rightarrow> rbind (in_bucket b (bucket_Get k) (db, tx)) (\<lambda>(v, s). Inr (Some v, s))))"

inductive sys_step :: "sys \<Rightarrow> sys \<Rightarrow> bool" where
  rd_begin:
    "Begin False (sdb S) = Some (Inr tx, db) \<Longrightarrow> db_holds (sdb S) M \<Longrightarrow>
     sys_step S (S\<lparr>sdb := db, sreaders := sreaders S @ [(tx, M)]\<rparr>)"
| rd_get:
    "i < length (sreaders S) \<Longrightarrow> sreaders S ! i = (tx, M) \<Longrightarrow> tx_read nm k (sdb S, tx) = Inr (v, (db, tx')) \<Longrightarrow>
     sys_step S (S\<lparr>sdb := db, sreaders := (sreaders S)[i := (tx', M)]\<rparr>)"
| rd_end:
    "sreaders S = xs @ (tx, M) # ys \<Longrightarrow> Rollback (sdb S, tx) = Inr (None, (db, tx')) \<Longrightarrow>
     sys_step S (S\<lparr>sdb := db, sreaders := xs @ ys\<rparr>)"
| wr_begin:
    "Begin True (sdb S) = Some (Inr tx, db) \<Longrightarrow> sys_step S (S\<lparr>sdb := db, swriter := Some tx\<rparr>)"
| wr_op:
    "swriter S = Some tx \<Longrightarrow> tx_run a (sdb S, tx) = Inr (e, (db, tx')) \<Longrightarrow>
     sys_step S (S\<lparr>sdb := db, swriter := Some tx'\<rparr>)"
| wr_get:
    "swriter S = Some tx \<Longrightarrow> tx_read nm k (sdb S, tx) = Inr (v, (db, tx')) \<Longrightarrow>
     sys_step S (S\<lparr>sdb := db, swriter := Some tx'\<rparr>)"
| wr_commit:
    "swriter S = Some tx \<Longrightarrow> env_ok e tx \<Longrightarrow> \<forall>(nm, b)\<in>set (bctx tx). committable (bucket_wst (sdb S, tx) b) \<Longrightarrow>
     Commit e (sdb S, tx) = Inr ((None, hs), (db, tx')) \<Longrightarrow>
     sys_step S (S\<lparr>sdb := db, swriter := None\<rparr>)"
| wr_rollback:
    "swriter S = Some tx \<Longrightarrow> Rollback (sdb S, tx) = Inr (None, (db, tx')) \<Longrightarrow>
     sys_step S (S\<lparr>sdb := db, swriter := None\<rparr>)"

inductive sys_reach :: "sys \<Rightarrow> bool" where
  sys_open: "sys_reach \<lparr>sdb = open_empty opts, swriter = None, sreaders = []\<rparr>"
| sys_more: "sys_reach S \<Longrightarrow> sys_step S S' \<Longrightarrow> sys_reach S'"

section \<open>Readers\<close>

text \<open>
  A reader pins a state below \<open>m\<close> and owns no node at all, so changes above \<open>m\<close> do not reach it.
\<close>

definition clean :: "Tx \<Rightarrow> bool" where
  "clean tx \<longleftrightarrow> (\<forall>b<length (bufs tx). dirty (bufs tx ! b) = {})"

definition reader_ok :: "nat \<Rightarrow> DB \<Rightarrow> Tx \<Rightarrow> (bytes \<rightharpoonup> kv list) \<Rightarrow> bool" where
  "reader_ok m db tx M \<longleftrightarrow>
     tx_holds m (db, tx) M M \<and> \<not> writable tx \<and> \<not> managed tx \<and> clean tx"

lemma reader_frame:
  assumes "reader_ok m db tx M" and "\<forall>a<m. nodes db' ! a = nodes db ! a" and "length (nodes db) \<le> length (nodes db')"
  shows "reader_ok m db' tx M"
proof -
  have t: "tx_holds m (db, tx) M M" and d: "\<forall>b<length (bufs tx). dirty (bufs tx ! b) = {}"
    using assms(1) by (auto simp: reader_ok_def clean_def)
  obtain st where st: "base tx = Some st" "state_holds (nodes db) m st M" using t by (auto simp: tx_holds_def)
  have "view_at m (db', tx) M nm (M nm)" for nm
  proof (cases "map_of (bctx tx) nm")
    case None
    then show ?thesis using t by (auto simp: tx_holds_def view_at_def dest: spec [of _ nm])
  next
    case (Some b)
    note b = tx_holdsD [OF t Some]
    obtain kvs where k: "M nm = Some kvs" "handle_ok m (nm \<in> created tx) (bucket_wst (db, tx) b) kvs" using b(3) by blast
    have "handle_ok m (nm \<in> created tx) ((bucket_wst (db, tx) b)\<lparr>heap := nodes db', stats := tx_stats tx\<rparr>) kvs"
      by (rule handle_ok_frame [OF k(2)]) (use assms(2,3) d b(1) in auto)
    moreover have "(bucket_wst (db, tx) b)\<lparr>heap := nodes db', stats := tx_stats tx\<rparr> = bucket_wst (db', tx) b"
      by (rule wst_eqI) simp_all
    ultimately show ?thesis using Some k(1) by (simp add: view_at_def)
  qed
  moreover have "handles_wf m (db', tx)" using t d by (auto simp: tx_holds_def handles_wf_def)
  moreover have "state_holds (nodes db') m st M" by (rule state_holds_frame [OF st(2) assms(2,3)])
  ultimately have "tx_holds m (db', tx) M M" using t st(1) by (auto simp: tx_holds_def)
  then show ?thesis using assms(1) by (simp add: reader_ok_def)
qed

text \<open>Reading returns the value in the transaction's view and changes no node.\<close>

lemma tx_Bucket_clean: "tx_Bucket nm tx = (b, tx') \<Longrightarrow> clean tx \<Longrightarrow> clean tx'"
  by (auto simp: clean_def tx_Bucket_def putBctx_def newBucket_def Let_def nth_append less_Suc_eq
      split: if_splits option.splits)

lemma tx_read_spec:
  assumes "tx_holds n (db, tx) M0 M"
  shows "\<exists>tx'. tx_read nm k (db, tx) = Inr (map_option (\<lambda>kvs. map_of kvs k) (M nm), (db, tx')) \<and>
     tx_holds n (db, tx') M0 M \<and> writable tx' = writable tx \<and> managed tx' = managed tx \<and> base tx' = base tx \<and>
     (clean tx \<longrightarrow> clean tx')"
proof (cases "M nm")
  case None
  then have "tx_Bucket nm tx = (None, tx)" using tx_Bucket_holds [OF assms, of nm] by simp
  then show ?thesis using assms None by (simp add: tx_read_def)
next
  case (Some kvs)
  then obtain b tx1 where b: "tx_Bucket nm tx = (Some b, tx1)" "tx_holds n (db, tx1) M0 M" "map_of (bctx tx1) nm = Some b"
    "writable tx1 = writable tx" "managed tx1 = managed tx"
    using tx_Bucket_holds [OF assms, of nm] by auto
  have base: "base tx1 = base tx" using tx_Bucket_keeps [OF b(1), of n db] by (simp add: keeps_def)
  obtain w where w: "in_bucket b (bucket_Get k) (db, tx1) = Inr (map_of kvs k, put_back w (db, tx1))"
    "heap w = nodes db" "tx_holds n (put_back w (db, tx1)) M0 M" "dirty w = dirty (bufs tx1 ! b)" "self w = b"
    using tx_get [OF b(2,3) Some, of k] by (auto simp: evolves_def)
  let ?tx = "tx1\<lparr>bufs := (bufs tx1)[b := Bucket.truncate w], tx_stats := stats w\<rparr>"
  have pb: "put_back w (db, tx1) = (db, ?tx)" using w(2,5) by (simp add: put_back_def)
  have "clean tx \<Longrightarrow> clean ?tx"
    using tx_Bucket_clean [OF b(1)] w(4) tx_holdsD(1) [OF b(2,3)] by (auto simp: clean_def nth_list_update)
  moreover have "tx_read nm k (db, tx) = Inr (Some (map_of kvs k), (db, ?tx))"
    using b(1) w(1) pb by (simp add: tx_read_def)
  ultimately show ?thesis using w(3) [unfolded pb] b(4,5) base Some by (intro exI [of _ ?tx]) simp
qed

section \<open>The invariant of a run\<close>

text \<open>
  The current state lies below \<open>n\<close>; so does what any reader pins. An open writer holds the
  lock, started on the current state and changes nodes from \<open>n\<close> on only.
\<close>

definition writer_ok :: "DB \<Rightarrow> nat \<Rightarrow> (bytes \<rightharpoonup> kv list) \<Rightarrow> Tx option \<Rightarrow> bool" where
  "writer_ok db n M0 w \<longleftrightarrow> (case w of
     None \<Rightarrow> \<not> rwlock db
   | Some tx \<Rightarrow> rwlock db \<and> writable tx \<and> \<not> managed tx \<and> (\<exists>M. tx_holds n (db, tx) M0 M))"

definition sys_inv :: "sys \<Rightarrow> nat \<Rightarrow> (bytes \<rightharpoonup> kv list) \<Rightarrow> bool" where
  "sys_inv S n M0 \<longleftrightarrow>
     opened (sdb S) \<and> (\<exists>st. state (sdb S) = Some st \<and> state_holds (nodes (sdb S)) n st M0) \<and>
     (\<forall>(tx, M)\<in>set (sreaders S). \<exists>m\<le>n. reader_ok m (sdb S) tx M) \<and>
     writer_ok (sdb S) n M0 (swriter S) \<and>
     (\<forall>s. db_stats (sdb S) = Some s \<longrightarrow> OpenTxN s = int (length (sreaders S)))"

lemma tx_run_holds:
  assumes "tx_holds n (db, tx) M0 M" and "writable tx" and "tx_run a (db, tx) = Inr (e, (db', tx'))"
  shows "(\<exists>M'. tx_holds n (db', tx') M0 M') \<and> keeps n (db, tx) (db', tx')"
proof (cases "\<exists>nm. a = OpDrop nm \<and> nm \<in> created tx")
  case True
  then obtain nm where nm: "a = OpDrop nm" "nm \<in> created tx" by blast
  obtain tx1 where t: "DeleteBucket nm tx = (None, tx1)" "tx_holds n (db, tx1) M0 (M(nm := M0 nm))"
    using DeleteBucket_created [OF assms(1,2) nm(2)] by blast
  then show ?thesis using assms(3) nm(1) DeleteBucket_keeps [OF t(1)] by auto
next
  case False
  then have "op_agrees n (db, tx) a M0 (spec_op M0 a M)" by (intro tx_run_agrees [OF assms(1,2)]) auto
  then show ?thesis using assms(3) by (auto simp: op_agrees_def split: prod.splits outcome.splits)
qed

lemma readers_frame:
  assumes "sys_inv S n M0" and "\<forall>a<n. nodes db' ! a = nodes (sdb S) ! a" and "length (nodes (sdb S)) \<le> length (nodes db')"
    and "(tx, M) \<in> set (sreaders S)"
  shows "\<exists>m\<le>n. reader_ok m db' tx M"
proof -
  obtain m where m: "m \<le> n" "reader_ok m (sdb S) tx M" using assms(1,4) by (auto simp: sys_inv_def)
  have "reader_ok m db' tx M" by (rule reader_frame [OF m(2) _ assms(3)]) (use assms(2) m(1) in auto)
  then show ?thesis using m(1) by blast
qed

lemma published_unique:
  assumes "published h n bs kvs" and "published h n' bs kvs'"
  shows "kvs = kvs'"
proof -
  obtain st t where t: "bs = Some st" "root st = Some (raddr t)" "repr h t" "items t = kvs"
    using assms(1) by (auto simp: published_def intree_def)
  obtain t' where t': "root st = Some (raddr t')" "repr h t'" "items t' = kvs'"
    using assms(2) t(1) by (auto simp: published_def intree_def)
  have "t = t'" by (rule repr_unique [OF t(3) t'(2)]) (use t(2) t'(1) in simp)
  then show ?thesis using t(4) t'(3) by simp
qed

lemma state_holds_unique:
  assumes "state_holds h n st M" and "state_holds h n' st M'"
  shows "M = M'"
proof
  fix nm
  have "rel_option (published h n) (map_of (buckets st) nm) (M nm)"
    "rel_option (published h n') (map_of (buckets st) nm) (M' nm)"
    using assms by (simp_all add: state_holds_def)
  then show "M nm = M' nm"
    by (cases "map_of (buckets st) nm") (auto simp: option_rel_Some1 intro: published_unique)
qed

lemma state_holds_mono:
  assumes "state_holds h n st M" and "n \<le> m" and "m \<le> length h"
  shows "state_holds h m st M"
proof -
  have "rel_option (published h m) (map_of (buckets st) nm) (M nm)" for nm
    by (rule option.rel_mono_strong [of "published h n"])
      (use assms published_mono [OF _ assms(2)] in \<open>auto simp: state_holds_def\<close>)
  then show ?thesis using assms by (simp add: state_holds_def)
qed

text \<open>Steps that leave the nodes alone keep every reader and the writer.\<close>

lemma tx_holds_db:
  assumes "tx_holds n (db, tx) M0 M" and "nodes db' = nodes db"
  shows "tx_holds n (db', tx) M0 M"
proof -
  have "bucket_wst (db', tx) b = bucket_wst (db, tx) b" for b by (rule wst_eqI) (simp_all add: assms(2))
  then have "view_at n (db', tx) M0 nm v \<longleftrightarrow> view_at n (db, tx) M0 nm v" for nm v
    by (cases "map_of (bctx tx) nm") (simp_all add: view_at_def)
  then show ?thesis using assms by (simp add: tx_holds_def handles_wf_def)
qed

lemma reader_ok_db: "reader_ok m db tx M \<Longrightarrow> nodes db' = nodes db \<Longrightarrow> reader_ok m db' tx M"
  using tx_holds_db by (auto simp: reader_ok_def)

lemma sys_inv_db:
  assumes "sys_inv S n M0" and "nodes db' = nodes (sdb S)" and "state db' = state (sdb S)" and "opened db' = opened (sdb S)"
    and "rwlock db' = rwlock (sdb S)" and "\<forall>(tx, M)\<in>set rs. \<exists>m\<le>n. reader_ok m (sdb S) tx M"
    and "\<And>s. db_stats db' = Some s \<Longrightarrow> OpenTxN s = int (length rs)"
  shows "sys_inv (S\<lparr>sdb := db', sreaders := rs\<rparr>) n M0"
proof -
  have "\<forall>(tx, M)\<in>set rs. \<exists>m\<le>n. reader_ok m db' tx M"
    using assms(6) reader_ok_db [OF _ assms(2)] by fastforce
  moreover have "writer_ok (sdb S) n M0 (swriter S)" using assms(1) by (simp add: sys_inv_def)
  then have "writer_ok db' n M0 (swriter S)"
    using assms(5) tx_holds_db [OF _ assms(2)] by (cases "swriter S") (simp_all add: writer_ok_def, blast)
  ultimately show ?thesis using assms(1-4,7) by (simp add: sys_inv_def)
qed

lemma sys_reader:
  "sys_inv S n M0 \<Longrightarrow> (tx, M) \<in> set (sreaders S) \<Longrightarrow> \<exists>m\<le>n. reader_ok m (sdb S) tx M"
  by (auto simp: sys_inv_def)

lemma rd_begin_inv:
  assumes "sys_inv S n M0" and "Begin False (sdb S) = Some (Inr tx, db)" and "db_holds (sdb S) M"
  shows "M = M0 \<and> sys_inv (S\<lparr>sdb := db, sreaders := sreaders S @ [(tx, M)]\<rparr>) n M0"
proof -
  obtain st where st: "state (sdb S) = Some st" "state_holds (nodes (sdb S)) n st M0" using assms(1) by (auto simp: sys_inv_def)
  have b: "tx = new_tx False st" "nodes db = nodes (sdb S)" "state db = state (sdb S)" "opened db = opened (sdb S)"
    "rwlock db = rwlock (sdb S)" "db_stats db = map_option (\<lambda>s. s\<lparr>TxN := TxN s + 1, OpenTxN := OpenTxN s + 1\<rparr>) (db_stats (sdb S))"
    using assms(2) st(1) by (auto simp: Begin_def beginTx_def split: if_splits)
  have M: "M = M0" using assms(3) st state_holds_unique by (auto simp: db_holds_def)
  have "reader_ok n (sdb S) tx M"
    using new_tx_holds [OF st(2), of False] by (simp add: reader_ok_def b(1) M clean_def new_tx_def)
  then have "\<forall>(tx', M')\<in>set (sreaders S @ [(tx, M)]). \<exists>m\<le>n. reader_ok m (sdb S) tx' M'"
    using sys_reader [OF assms(1)] by auto
  moreover have "OpenTxN s = int (length (sreaders S @ [(tx, M)]))" if "db_stats db = Some s" for s
    using assms(1) that b(6) by (auto simp: sys_inv_def)
  ultimately show ?thesis using sys_inv_db [OF assms(1) b(2-5)] M by blast
qed

lemma rd_get_inv:
  assumes "sys_inv S n M0" and "i < length (sreaders S)" and "sreaders S ! i = (tx, M)"
    and "tx_read nm k (sdb S, tx) = Inr (v, (db, tx'))"
  shows "sys_inv (S\<lparr>sdb := db, sreaders := (sreaders S)[i := (tx', M)]\<rparr>) n M0"
proof -
  obtain m where m: "m \<le> n" "reader_ok m (sdb S) tx M"
    using sys_reader [OF assms(1)] assms(2,3) by (metis nth_mem)
  then have "tx_holds m (sdb S, tx) M M" by (simp add: reader_ok_def)
  then have "db = sdb S" "reader_ok m (sdb S) tx' M"
    using tx_read_spec [of m "sdb S" tx M M nm k] assms(4) m(2) by (auto simp: reader_ok_def)
  moreover have "\<forall>(tx, M)\<in>set ((sreaders S)[i := (tx', M)]). \<exists>m\<le>n. reader_ok m (sdb S) tx M"
    using sys_reader [OF assms(1)] m(1) calculation(2) set_update_subset_insert [of "sreaders S" i "(tx', M)"] by fast
  moreover have "OpenTxN s = int (length ((sreaders S)[i := (tx', M)]))" if "db_stats (sdb S) = Some s" for s
    using assms(1) that by (simp add: sys_inv_def)
  ultimately show ?thesis using sys_inv_db [OF assms(1) refl refl refl refl] by blast
qed

lemma rd_end_inv:
  assumes "sys_inv S n M0" and "sreaders S = xs @ (tx, M) # ys" and "Rollback (sdb S, tx) = Inr (None, (db, tx'))"
  shows "sys_inv (S\<lparr>sdb := db, sreaders := xs @ ys\<rparr>) n M0"
proof -
  obtain m where m: "reader_ok m (sdb S) tx M" using sys_reader [OF assms(1), of tx M] assms(2) by auto
  then have b: "nodes db = nodes (sdb S)" "state db = state (sdb S)" "opened db = opened (sdb S)"
    "rwlock db = rwlock (sdb S)"
    "db_stats db = map_option (\<lambda>s. s\<lparr>OpenTxN := OpenTxN s - 1, STxStats := TxStats_add (STxStats s) (tx_stats tx)\<rparr>) (db_stats (sdb S))"
    using assms(3) by (auto simp: Rollback_def tx_rollback_def tx_close_def removeTx_def reader_ok_def tx_holds_def)
  have "\<forall>(tx, M)\<in>set (xs @ ys). \<exists>m\<le>n. reader_ok m (sdb S) tx M" using sys_reader [OF assms(1)] assms(2) by auto
  moreover have "OpenTxN s = int (length (xs @ ys))" if "db_stats db = Some s" for s
    using assms(1,2) that b(5) by (auto simp: sys_inv_def)
  ultimately show ?thesis using sys_inv_db [OF assms(1) b(1-4)] by blast
qed

text \<open>Steps of the writer.\<close>

lemma sys_writer:
  assumes "sys_inv S n M0" and "swriter S = Some tx"
  shows "rwlock (sdb S)" and "writable tx" and "\<not> managed tx" and "\<exists>M. tx_holds n (sdb S, tx) M0 M"
  using assms by (simp_all add: sys_inv_def writer_ok_def)

lemma sys_inv_writer:
  assumes "sys_inv S n M0" and "state_holds (nodes db') n' st' M'" and "opened db'" and "state db' = Some st'"
    and "\<forall>a<n. nodes db' ! a = nodes (sdb S) ! a" and "length (nodes (sdb S)) \<le> length (nodes db')" and "n \<le> n'"
    and "writer_ok db' n' M' w" and "map_option OpenTxN (db_stats db') = map_option OpenTxN (db_stats (sdb S))"
  shows "sys_inv (S\<lparr>sdb := db', swriter := w\<rparr>) n' M'"
proof -
  have "\<exists>m\<le>n'. reader_ok m db' tx M" if r: "(tx, M) \<in> set (sreaders S)" for tx M
  proof -
    obtain m where "m \<le> n" "reader_ok m db' tx M" using readers_frame [OF assms(1,5,6) r] by blast
    then show ?thesis using assms(7) le_trans by blast
  qed
  moreover have "OpenTxN s = int (length (sreaders S))" if "db_stats db' = Some s" for s
    using assms(1,9) that by (cases "db_stats (sdb S)") (auto simp: sys_inv_def)
  ultimately show ?thesis using assms(2-4,8) by (auto simp: sys_inv_def)
qed

lemma sys_current:
  assumes "sys_inv S n M0"
  obtains st where "state (sdb S) = Some st" and "state_holds (nodes (sdb S)) n st M0" and "n \<le> length (nodes (sdb S))"
    and "opened (sdb S)"
  using assms by (auto simp: sys_inv_def state_holds_def)

lemma wr_begin_inv:
  assumes "sys_inv S n M0" and "Begin True (sdb S) = Some (Inr tx, db)"
  shows "sys_inv (S\<lparr>sdb := db, swriter := Some tx\<rparr>) (length (nodes db)) M0"
proof -
  obtain st where st: "state (sdb S) = Some st" "state_holds (nodes (sdb S)) n st M0" "n \<le> length (nodes (sdb S))" "opened (sdb S)"
    using sys_current [OF assms(1)] by blast
  have b: "tx = new_tx True st" "db = (sdb S)\<lparr>rwlock := True\<rparr>"
    using assms(2) st(1) by (auto simp: Begin_def beginRWTx_def lock_def split: if_splits)
  have sh: "state_holds (nodes db) (length (nodes db)) st M0" using state_holds_mono [OF st(2,3)] b(2) by simp
  then have "writer_ok db (length (nodes db)) M0 (Some tx)"
    using new_tx_holds [of db "length (nodes db)" st M0 True] b by (auto simp: writer_ok_def new_tx_def)
  then show ?thesis by (intro sys_inv_writer [OF assms(1) sh]) (use st b(2) in simp_all)
qed

lemma wr_op_inv:
  assumes "sys_inv S n M0" and "swriter S = Some tx" and "tx_run a (sdb S, tx) = Inr (e, (db, tx'))"
  shows "sys_inv (S\<lparr>sdb := db, swriter := Some tx'\<rparr>) n M0"
proof -
  note w = sys_writer [OF assms(1,2)]
  obtain M where M: "tx_holds n (sdb S, tx) M0 M" using w(4) by blast
  obtain M' where M': "tx_holds n (db, tx') M0 M'" and k: "keeps n (sdb S, tx) (db, tx')"
    using tx_run_holds [OF M w(2) assms(3)] by blast
  obtain st where st: "state (sdb S) = Some st" "state_holds (nodes (sdb S)) n st M0" "opened (sdb S)"
    using sys_current [OF assms(1)] by blast
  obtain h where h: "db = (sdb S)\<lparr>nodes := h\<rparr>" "length (nodes (sdb S)) \<le> length h" "\<forall>a<n. h ! a = nodes (sdb S) ! a"
    using k by (auto simp: keeps_def)
  have "writer_ok db n M0 (Some tx')" using M' k h(1) w(1-3) by (auto simp: writer_ok_def keeps_def)
  then show ?thesis
    by (intro sys_inv_writer [OF assms(1) state_holds_frame [OF st(2)]]) (use st h in simp_all)
qed

lemma wr_get_inv:
  assumes "sys_inv S n M0" and "swriter S = Some tx" and "tx_read nm k (sdb S, tx) = Inr (v, (db, tx'))"
  shows "sys_inv (S\<lparr>sdb := db, swriter := Some tx'\<rparr>) n M0"
proof -
  note w = sys_writer [OF assms(1,2)]
  obtain M where M: "tx_holds n (sdb S, tx) M0 M" using w(4) by blast
  obtain st where st: "state (sdb S) = Some st" "state_holds (nodes (sdb S)) n st M0" "opened (sdb S)"
    using sys_current [OF assms(1)] by blast
  have "db = sdb S" "tx_holds n (sdb S, tx') M0 M" "writable tx' = writable tx" "managed tx' = managed tx"
    using tx_read_spec [OF M, of nm k] assms(3) by auto
  then have "db = sdb S" "writer_ok db n M0 (Some tx')" using w by (auto simp: writer_ok_def)
  then show ?thesis by (intro sys_inv_writer [OF assms(1), where st' = st]) (use st in simp_all)
qed

lemma wr_commit_inv:
  assumes "sys_inv S n M0" and "swriter S = Some tx" and "env_ok e tx"
    and "\<forall>(nm, b)\<in>set (bctx tx). committable (bucket_wst (sdb S, tx) b)"
    and "Commit e (sdb S, tx) = Inr ((None, hs), (db, tx'))"
  shows "\<exists>M. tx_holds n (sdb S, tx) M0 M \<and> sys_inv (S\<lparr>sdb := db, swriter := None\<rparr>) (length (nodes db)) M"
proof -
  note w = sys_writer [OF assms(1,2)]
  obtain M where M: "tx_holds n (sdb S, tx) M0 M" using w(4) by blast
  obtain st where st: "n \<le> length (nodes (sdb S))" "opened (sdb S)" using sys_current [OF assms(1)] by blast
  obtain st' where c: "\<not> rwlock db" "opened db = opened (sdb S)" "state db = Some st'"
    "state_holds (nodes db) (length (nodes db)) st' M" "length (nodes (sdb S)) \<le> length (nodes db)"
    "\<forall>a<n. nodes db ! a = nodes (sdb S) ! a"
    "map_option OpenTxN (db_stats db) = map_option OpenTxN (db_stats (sdb S))"
    using Commit_holds [OF M w(2,3,1) assms(3,4)] assms(5) by auto
  have "sys_inv (S\<lparr>sdb := db, swriter := None\<rparr>) (length (nodes db)) M"
    by (rule sys_inv_writer [OF assms(1) c(4)]) (use c st in \<open>simp_all add: writer_ok_def\<close>)
  then show ?thesis using M by blast
qed

lemma wr_rollback_inv:
  assumes "sys_inv S n M0" and "swriter S = Some tx" and "Rollback (sdb S, tx) = Inr (None, (db, tx'))"
  shows "sys_inv (S\<lparr>sdb := db, swriter := None\<rparr>) n M0"
proof -
  note w = sys_writer [OF assms(1,2)]
  have "db_open tx" using w(4) by (auto simp: tx_holds_def)
  then have b: "nodes db = nodes (sdb S)" "state db = state (sdb S)" "opened db = opened (sdb S)" "\<not> rwlock db"
    "map_option OpenTxN (db_stats db) = map_option OpenTxN (db_stats (sdb S))"
    using assms(3) w by (auto simp: Rollback_def tx_rollback_def tx_close_def unlock_def option.map_comp comp_def)
  obtain st where st: "state (sdb S) = Some st" "state_holds (nodes (sdb S)) n st M0" "opened (sdb S)"
    using sys_current [OF assms(1)] by blast
  show ?thesis
    by (rule sys_inv_writer [OF assms(1), where st' = st]) (use b st in \<open>simp_all add: writer_ok_def\<close>)
qed

lemma sys_step_inv:
  assumes "sys_step S S'" and "sys_inv S n M0"
  shows "\<exists>n' M0'. sys_inv S' n' M0'"
  using assms
proof cases
  case (rd_begin tx db M)
  then show ?thesis using rd_begin_inv [OF assms(2)] by blast
next
  case (rd_get i tx M nm k v db tx')
  then show ?thesis using rd_get_inv [OF assms(2)] by blast
next
  case (rd_end xs tx M ys db tx')
  then show ?thesis using rd_end_inv [OF assms(2)] by blast
next
  case (wr_begin tx db)
  then show ?thesis using wr_begin_inv [OF assms(2)] by blast
next
  case (wr_op tx a e db tx')
  then show ?thesis using wr_op_inv [OF assms(2)] by blast
next
  case (wr_get tx nm k v db tx')
  then show ?thesis using wr_get_inv [OF assms(2)] by blast
next
  case (wr_commit tx e db hs tx')
  then show ?thesis using wr_commit_inv [OF assms(2)] by blast
next
  case (wr_rollback tx db tx')
  then show ?thesis using wr_rollback_inv [OF assms(2)] by blast
qed

lemma sys_reach_inv: "sys_reach S \<Longrightarrow> \<exists>n M0. sys_inv S n M0"
proof (induction rule: sys_reach.induct)
  case (sys_open opts)
  have "state_holds [] 0 \<lparr>buckets = []\<rparr> Map.empty" by (simp add: state_holds_def)
  then have "sys_inv \<lparr>sdb = open_empty opts, swriter = None, sreaders = []\<rparr> 0 Map.empty"
    by (auto simp: sys_inv_def writer_ok_def open_empty_def db_init_def Let_def Stats_zero_def)
  then show ?case by blast
next
  case (sys_more S S')
  then show ?case using sys_step_inv by blast
qed

section \<open>A writer is never held up by readers\<close>

lemma sys_ops:
  assumes "swriter S = Some tx" and "run_ops ops (sdb S, tx) = (Returned None, (db', tx'))"
  shows "sys_step\<^sup>*\<^sup>* S (S\<lparr>sdb := db', swriter := Some tx'\<rparr>)"
  using assms
proof (induction ops arbitrary: S tx)
  case Nil
  then have "S\<lparr>sdb := db', swriter := Some tx'\<rparr> = S" by (intro sys.equality) auto
  then show ?case by simp
next
  case (Cons a ops)
  then obtain db1 tx1 where r: "tx_run a (sdb S, tx) = Inr (None, (db1, tx1))" "run_ops ops (db1, tx1) = (Returned None, (db', tx'))"
    by (auto split: sum.splits prod.splits option.splits)
  let ?S = "S\<lparr>sdb := db1, swriter := Some tx1\<rparr>"
  have "sys_step S ?S" by (rule wr_op [OF Cons.prems(1) r(1)])
  moreover have "sys_step\<^sup>*\<^sup>* ?S (?S\<lparr>sdb := db', swriter := Some tx'\<rparr>)" using Cons.IH [of ?S tx1] r(2) by simp
  ultimately show ?case by (simp add: converse_rtranclp_into_rtranclp)
qed

lemma sys_update:
  assumes "sys_inv S n M0" and "swriter S = None" and "\<not> readOnly (sdb S)" and "db_lone (sdb S)"
    and "safe_drops M0 {} ops" and "spec_ops M0 ops M0 = (Returned None, M')"
  shows "\<exists>db'. sys_step\<^sup>*\<^sup>* S (S\<lparr>sdb := db', swriter := None\<rparr>) \<and> db_holds db' M' \<and> \<not> readOnly db' \<and>
           (small_map M' \<longrightarrow> db_lone db')"
proof -
  let ?n = "length (nodes (sdb S))"
  obtain st where st: "state (sdb S) = Some st" "state_holds (nodes (sdb S)) n st M0" "n \<le> ?n" "opened (sdb S)"
    using sys_current [OF assms(1)] by blast
  have db: "db_holds (sdb S) M0" using state_holds_mono [OF st(2,3) order_refl] st(1,4) by (simp add: db_holds_def)
  have lk: "\<not> rwlock (sdb S)" using assms(1,2) by (simp add: sys_inv_def writer_ok_def)
  obtain st' where b: "Begin True (sdb S) = Some (Inr (new_tx True st'), (sdb S)\<lparr>rwlock := True\<rparr>)"
    "tx_holds ?n ((sdb S)\<lparr>rwlock := True\<rparr>, new_tx True st') M0 M0"
    using Begin_write [OF db assms(3) lk] by blast
  let ?S1 = "S\<lparr>sdb := (sdb S)\<lparr>rwlock := True\<rparr>, swriter := Some (new_tx True st')\<rparr>"
  have s1: "sys_step S ?S1" by (rule wr_begin [OF b(1)])
  have "writable (new_tx True st')" "created (new_tx True st') = {}" by (simp_all add: new_tx_def)
  then obtain db1 tx1 where r: "run_ops ops ((sdb S)\<lparr>rwlock := True\<rparr>, new_tx True st') = (Returned None, (db1, tx1))"
    "tx_holds ?n (db1, tx1) M0 M'" "keeps ?n ((sdb S)\<lparr>rwlock := True\<rparr>, new_tx True st') (db1, tx1)"
    using run_ops_agrees [OF b(2), of ops] assms(5,6) by auto
  let ?S2 = "?S1\<lparr>sdb := db1, swriter := Some tx1\<rparr>"
  have s2: "sys_step\<^sup>*\<^sup>* ?S1 ?S2" by (rule sys_ops) (use r(1) in simp_all)
  have k: "rwlock db1" "writable tx1" "\<not> managed tx1" "readOnly db1 = readOnly (sdb S)" "base tx1 = Some st'"
    "extends (sdb S) db1"
    using r(3) by (auto simp: keeps_def new_tx_def extends_def)
  have "st' = st" using b(1) st(1) by (auto simp: Begin_def beginRWTx_def lock_def new_tx_def split: if_splits)
  then have al: "all_lone (nodes db1) (base_buckets tx1)"
    using assms(4) st(1) k(5) all_lone_extends [OF _ state_holds_mono [OF st(2,3) order_refl] k(6)]
    by (simp add: db_lone_def base_buckets_def)
  have env: "env_ok (std_env tx1) tx1" using r(2) by (auto simp: tx_holds_def intro: std_env_ok)
  have cm: "\<forall>(nm, b)\<in>set (bctx tx1). committable (bucket_wst (db1, tx1) b)" using lone_committable [OF r(2) al] by auto
  obtain db' tx' st'' where c: "Commit (std_env tx1) (db1, tx1) = Inr ((None, commitHandlers tx1), (db', tx'))"
    "opened db' = opened db1" "readOnly db' = readOnly db1" "state db' = Some st''"
    "state_holds (nodes db') (length (nodes db')) st'' M'"
    "small_map M' \<longrightarrow> all_lone (nodes db1) (base_buckets tx1) \<longrightarrow> all_lone (nodes db') (buckets st'')"
    using Commit_holds [OF r(2) k(2,3,1) env cm] by blast
  have "sys_step ?S2 (?S2\<lparr>sdb := db', swriter := None\<rparr>)"
    by (rule wr_commit [OF _ env]) (use c(1) cm in simp_all)
  then have "sys_step\<^sup>*\<^sup>* S (S\<lparr>sdb := db', swriter := None\<rparr>)"
    using s1 s2 by (simp add: converse_rtranclp_into_rtranclp rtranclp.rtrancl_into_rtrancl)
  moreover have "opened db1" using r(3) st(4) by (auto simp: keeps_def)
  ultimately show ?thesis using c k(4) al assms(3) by (auto simp: db_holds_def db_lone_def)
qed

lemma sys_reach_steps: "sys_step\<^sup>*\<^sup>* S S' \<Longrightarrow> sys_reach S \<Longrightarrow> sys_reach S'"
  by (induction rule: rtranclp_induct) (auto intro: sys_more)

section \<open>Properties\<close>

text \<open>
  An example run: a bucket is created and committed, a reader begins, a second writer changes
  the value the reader is interested in and commits.
\<close>

abbreviation example_before :: "bytes \<rightharpoonup> kv list" where
  "example_before \<equiv> [[98] \<mapsto> [([1], [7])]]"

abbreviation example_after :: "bytes \<rightharpoonup> kv list" where
  "example_after \<equiv> [[98] \<mapsto> [([1], [8])]]"

lemma example_spec:
  "spec_ops Map.empty [OpCreate [98], OpPut [98] [1] [7]] Map.empty = (Returned None, example_before)"
  "spec_ops example_before [OpPut [98] [1] [8]] example_before = (Returned None, example_after)"
  "small_map example_before" "safe_drops M C [OpCreate [98], OpPut [98] [1] [7]]" "safe_drops M C [OpPut [98] [1] [8]]"
  by (simp_all add: put_error_def MaxKeySize_def MaxValueSize_def alist_put_def small_map_def small_kvs_def
      node_consts safe_drops_def)

lemma sys_inv_unique: "sys_inv S n M0 \<Longrightarrow> db_holds (sdb S) M \<Longrightarrow> M = M0"
  using state_holds_unique by (fastforce simp: sys_inv_def db_holds_def)

lemma example_run:
  "\<exists>S tx. sys_reach S \<and> sreaders S = [(tx, example_before)] \<and> db_holds (sdb S) example_after \<and> swriter S = None"
proof -
  let ?S0 = "\<lparr>sdb = open_empty None, swriter = None, sreaders = []\<rparr>"
  have r0: "sys_reach ?S0" by (rule sys_open)
  have "db_holds (sdb ?S0) Map.empty" using open_empty_holds by simp
  then obtain n0 where i0: "sys_inv ?S0 n0 Map.empty" using sys_reach_inv [OF r0] sys_inv_unique by blast
  have "\<not> readOnly (sdb ?S0)" "db_lone (sdb ?S0)"
    by (simp_all add: open_empty_def DefaultOptions_def db_init_def db_lone_def all_lone_def Let_def)
  then obtain db1 where s1: "sys_step\<^sup>*\<^sup>* ?S0 (?S0\<lparr>sdb := db1, swriter := None\<rparr>)" "db_holds db1 example_before"
    "\<not> readOnly db1" "db_lone db1"
    using sys_update [OF i0 _ _ _ example_spec(4) example_spec(1)] example_spec(3) by auto
  let ?S1 = "?S0\<lparr>sdb := db1, swriter := None\<rparr>"
  obtain st db2 where b: "Begin False db1 = Some (Inr (new_tx False st), db2)" "db_holds db2 example_before" "nodes db2 = nodes db1"
    using Begin_read [OF s1(2)] by blast
  have db2: "\<not> readOnly db2" "db_lone db2"
    using b(1) s1(3,4) by (auto simp: Begin_def beginTx_def db_lone_def split: if_splits option.splits)
  let ?S2 = "?S1\<lparr>sdb := db2, sreaders := [(new_tx False st, example_before)]\<rparr>"
  have r1: "sys_reach ?S1" by (rule sys_reach_steps [OF s1(1) r0])
  have "sys_step ?S1 (?S1\<lparr>sdb := db2, sreaders := sreaders ?S1 @ [(new_tx False st, example_before)]\<rparr>)"
    by (rule rd_begin) (use b(1) s1(2) in simp_all)
  then have r2: "sys_reach ?S2" using sys_more [OF r1] by simp
  have "db_holds (sdb ?S2) example_before" using b(2) by simp
  then obtain n2 where i2: "sys_inv ?S2 n2 example_before" using sys_reach_inv [OF r2] sys_inv_unique by blast
  obtain db3 where s3: "sys_step\<^sup>*\<^sup>* ?S2 (?S2\<lparr>sdb := db3, swriter := None\<rparr>)" "db_holds db3 example_after"
    using sys_update [OF i2 _ _ _ example_spec(5) example_spec(2)] db2 by auto
  have "sys_reach (?S2\<lparr>sdb := db3, swriter := None\<rparr>)" by (rule sys_reach_steps [OF s3(1) r2])
  then show ?thesis using s3(2)
    by (intro exI [of _ "?S2\<lparr>sdb := db3, swriter := None\<rparr>"] exI [of _ "new_tx False st"]) simp
qed









end
