(* ===== verification/Vm_Snapshot.thy ===== *)
theory Vm_Snapshot
  imports Vm_DB
begin

text \<open>
  The snapshot stream of \<^verbatim>\<open>snapshot.go\<close> and the part of \<^verbatim>\<open>Open\<close> (\<^verbatim>\<open>db.go\<close>) that
  rehydrates a database from it. An \<^verbatim>\<open>io.Writer\<close> belongs to the caller and is a parameter, a
  function from the bytes and the state of the writer to its answer. A reader is what remains of its
  data and the error it answers afterwards.
\<close>

unbundle bit_operations_syntax

section \<open>Integers on the wire\<close>

definition PutUint32 :: "32 word \<Rightarrow> bytes" where
  "PutUint32 v = map (\<lambda>i. ucast (drop_bit (8 * i) v)) [0..<4]"

definition PutUint64 :: "64 word \<Rightarrow> bytes" where
  "PutUint64 v = map (\<lambda>i. ucast (drop_bit (8 * i) v)) [0..<8]"

definition Uint32 :: "bytes \<Rightarrow> 32 word" where
  "Uint32 bs = foldr (\<lambda>i v. push_bit (8 * i) (ucast (bs ! i)) OR v) [0..<4] 0"

definition Uint64 :: "bytes \<Rightarrow> 64 word" where
  "Uint64 bs = foldr (\<lambda>i v. push_bit (8 * i) (ucast (bs ! i)) OR v) [0..<8] 0"

definition snapshotMagic :: bytes where
  "snapshotMagic = [0x42, 0x4d, 0x53, 0x50]"

definition snapshotVersion :: "32 word" where
  "snapshotVersion = 1"

section \<open>Writing\<close>

type_synonym 'o writer = "bytes \<Rightarrow> 'o \<Rightarrow> (int \<times> error option) \<times> 'o"

record 'o byteCounter =
  cw_w :: 'o
  cw_n :: "64 word"

definition counter_Write :: "'o writer \<Rightarrow> bytes \<Rightarrow> 'o byteCounter \<Rightarrow> (int \<times> error option) \<times> 'o byteCounter" where
  "counter_Write wr p c = (case wr p (cw_w c) of
     ((nn, err), o') \<Rightarrow> ((nn, err), c\<lparr>cw_w := o', cw_n := cw_n c + word_of_int nn\<rparr>))"

text \<open>Consecutive writes, each returning early on an error.\<close>

fun counter_Writes :: "'o writer \<Rightarrow> bytes list \<Rightarrow> 'o byteCounter \<Rightarrow> error option \<times> 'o byteCounter" where
  "counter_Writes wr [] c = (None, c)"
| "counter_Writes wr (p # ps) c = (case counter_Write wr p c of
     ((_, Some err), c) \<Rightarrow> (Some err, c)
   | ((_, None), c) \<Rightarrow> counter_Writes wr ps c)"

definition snapshot_header :: bytes where
  "snapshot_header = snapshotMagic @ PutUint32 snapshotVersion @ PutUint32 0 @ PutUint32 0"

definition write_pair :: "'o writer \<Rightarrow> kv \<Rightarrow> 'o byteCounter \<Rightarrow> error option \<times> 'o byteCounter" where
  "write_pair wr p c = (case p of (k, v) \<Rightarrow>
     counter_Writes wr [PutUint32 (of_nat (length k)), k, PutUint64 (of_nat (length v)), v] c)"

definition write_bucket ::
  "'o writer \<Rightarrow> bytes \<Rightarrow> bref \<Rightarrow> 'o byteCounter \<times> txst \<Rightarrow> (error option \<times> 'o byteCounter \<times> txst) res" where
  "write_bucket wr nm b st = (case st of (c, s) \<Rightarrow>
     (case counter_Writes wr [PutUint32 (of_nat (length nm)), nm] c of
        (Some err, c) \<Rightarrow> Inr (Some err, c, s)
      | (None, c) \<Rightarrow>
          rbind (in_bucket b (bucket_ForEach (write_pair wr) c) s) (\<lambda>((err, c), s).
            case err of
              Some err \<Rightarrow> Inr (Some err, c, s)
            | None \<Rightarrow> (case counter_Writes wr [PutUint32 0] c of (err, c) \<Rightarrow> Inr (err, c, s)))))"

fun write_buckets ::
  "nat \<Rightarrow> 'o writer \<Rightarrow> bytes option \<Rightarrow> dirCursor \<Rightarrow> 'o byteCounter \<times> txst \<Rightarrow>
     (error option \<times> 'o byteCounter \<times> txst) res" where
  "write_buckets f wr None dc st = Inr (None, st)"
| "write_buckets 0 wr (Some nm) dc st = Inl OutOfFuel"
| "write_buckets (Suc f) wr (Some nm) dc (c, db, tx) =
     (case tx_Bucket nm tx of
        (None, tx) \<Rightarrow> (case dir_Next dc of (x, dc) \<Rightarrow> write_buckets f wr x dc (c, db, tx))
      | (Some b, tx) \<Rightarrow>
          rbind (write_bucket wr nm b (c, db, tx)) (\<lambda>(err, st).
            case err of
              Some err \<Rightarrow> Inr (Some err, st)
            | None \<Rightarrow> (case dir_Next dc of (x, dc) \<Rightarrow> write_buckets f wr x dc st)))"

definition serializeSnapshot ::
  "'o writer \<Rightarrow> 'o \<Rightarrow> txst \<Rightarrow> ((64 word \<times> error option) \<times> 'o \<times> txst) res" where
  "serializeSnapshot wr w s =
     (case counter_Writes wr [snapshot_header] \<lparr>cw_w = w, cw_n = 0\<rparr> of
        (Some err, c) \<Rightarrow> Inr ((cw_n c, Some err), cw_w c, s)
      | (None, c) \<Rightarrow>
          (case tx_Cursor (snd s) of
             None \<Rightarrow> nil_deref
           | Some dc \<Rightarrow>
               (case dir_First dc of (x, dc) \<Rightarrow>
                  rbind (write_buckets (Suc (length (dir dc))) wr x dc (c, s)) (\<lambda>(err, c, s).
                    case err of
                      Some err \<Rightarrow> Inr ((cw_n c, Some err), cw_w c, s)
                    | None \<Rightarrow> (case counter_Writes wr [PutUint32 0] c of
                                 (err, c) \<Rightarrow> Inr ((cw_n c, err), cw_w c, s))))))"

definition WriteTo :: "'o writer \<Rightarrow> 'o \<Rightarrow> txst \<Rightarrow> ((64 word \<times> error option) \<times> 'o \<times> txst) res" where
  "WriteTo wr w s = serializeSnapshot wr w s"

definition Copy :: "'o writer \<Rightarrow> 'o \<Rightarrow> txst \<Rightarrow> (error option \<times> 'o \<times> txst) res" where
  "Copy wr w s = rbind (WriteTo wr w s) (\<lambda>((_, err), w, s). Inr (err, w, s))"

section \<open>Reading\<close>

definition io_EOF :: error where
  "io_EOF = Errorf ''EOF''"

definition ErrUnexpectedEOF :: error where
  "ErrUnexpectedEOF = Errorf ''unexpected EOF''"

record reader =
  rdata :: bytes
  rend :: error

definition ReadFull :: "nat \<Rightarrow> reader \<Rightarrow> (error + bytes) \<times> reader" where
  "ReadFull n rd =
     (if n \<le> length (rdata rd) then (Inr (take n (rdata rd)), rd\<lparr>rdata := drop n (rdata rd)\<rparr>)
      else (Inl (if rend rd = io_EOF \<and> rdata rd \<noteq> [] then ErrUnexpectedEOF else rend rd), rd\<lparr>rdata := []\<rparr>))"

text \<open>\<^verbatim>\<open>make([]byte, n)\<close> panics when \<open>n\<close> exceeds the address space of the runtime.\<close>

definition maxAlloc :: nat where
  "maxAlloc = 2 ^ 48"

lemma ReadFull_len:
  "ReadFull n rd = (x, rd') \<Longrightarrow> length (rdata rd') \<le> length (rdata rd) \<and>
     (\<forall>bs. x = Inr bs \<longrightarrow> length bs = n \<and> length (rdata rd') + n = length (rdata rd))"
  by (auto simp: ReadFull_def split: if_splits)

text \<open>
  What one round of a loop of \<^verbatim>\<open>Restore\<close> takes from the stream: a record, the zero length that
  ends the list, or a way out of the callback.
\<close>

datatype 'a got = Got 'a | ListEnd | Leave outcome

definition read_pair :: "reader \<Rightarrow> kv got \<times> reader" where
  "read_pair rd =
     (case ReadFull 4 rd of
        (Inl err, rd) \<Rightarrow> (Leave (Returned (Some (Wrapf ''vmbolt: snapshot keyLen'' err))), rd)
      | (Inr buf4, rd) \<Rightarrow>
          if Uint32 buf4 = 0 then (ListEnd, rd)
          else (case ReadFull (unat (Uint32 buf4)) rd of
                  (Inl err, rd) \<Rightarrow> (Leave (Returned (Some (Wrapf ''vmbolt: snapshot key'' err))), rd)
                | (Inr key, rd) \<Rightarrow>
          (case ReadFull 8 rd of
             (Inl err, rd) \<Rightarrow> (Leave (Returned (Some (Wrapf ''vmbolt: snapshot valLen'' err))), rd)
           | (Inr buf8, rd) \<Rightarrow>
               if maxAlloc < unat (Uint64 buf8) then (Leave Panicked, rd)
               else (case ReadFull (unat (Uint64 buf8)) rd of
                       (Inl err, rd) \<Rightarrow> (Leave (Returned (Some (Wrapf ''vmbolt: snapshot val'' err))), rd)
                     | (Inr val, rd) \<Rightarrow> (Got (key, val), rd)))))"

definition read_name :: "reader \<Rightarrow> bytes got \<times> reader" where
  "read_name rd =
     (case ReadFull 4 rd of
        (Inl err, rd) \<Rightarrow> (Leave (Returned (Some (Wrapf ''vmbolt: snapshot bucket nameLen'' err))), rd)
      | (Inr buf4, rd) \<Rightarrow>
          if Uint32 buf4 = 0 then (ListEnd, rd)
          else (case ReadFull (unat (Uint32 buf4)) rd of
                  (Inl err, rd) \<Rightarrow> (Leave (Returned (Some (Wrapf ''vmbolt: snapshot bucket name'' err))), rd)
                | (Inr nm, rd) \<Rightarrow> (Got nm, rd)))"

lemma read_pair_shrinks:
  "read_pair rd = (x, rd') \<Longrightarrow> length (rdata rd') \<le> length (rdata rd) \<and>
     (\<forall>p. x = Got p \<longrightarrow> length (rdata rd') < length (rdata rd))"
  by (auto simp: read_pair_def split: if_splits prod.splits sum.splits dest!: ReadFull_len)

lemma read_name_shrinks:
  "read_name rd = (x, rd') \<Longrightarrow> length (rdata rd') \<le> length (rdata rd) \<and>
     (\<forall>p. x = Got p \<longrightarrow> length (rdata rd') < length (rdata rd))"
  by (auto simp: read_name_def split: if_splits prod.splits sum.splits dest!: ReadFull_len)

function restore_pairs :: "bref \<Rightarrow> reader \<Rightarrow> txst \<Rightarrow> outcome \<times> reader \<times> txst" where
  "restore_pairs b rd s =
     (case read_pair rd of
        (Leave o', rd) \<Rightarrow> (o', rd, s)
      | (ListEnd, rd) \<Rightarrow> (Returned None, rd, s)
      | (Got (key, val), rd) \<Rightarrow>
          (case in_bucket b (bucket_Put key val) s of
             Inl _ \<Rightarrow> (Panicked, rd, s)
           | Inr (Some err, s) \<Rightarrow> (Returned (Some (Wrapf ''vmbolt: restore put'' err)), rd, s)
           | Inr (None, s) \<Rightarrow> restore_pairs b rd s))"
  by pat_completeness auto
termination
  by (relation "measure (\<lambda>(b, rd, s). length (rdata rd))") (auto dest!: read_pair_shrinks [OF sym])

declare restore_pairs.simps [simp del]

lemma restore_pairs_shrinks: "restore_pairs b rd s = (o', rd', s') \<Longrightarrow> length (rdata rd') \<le> length (rdata rd)"
proof (induction b rd s arbitrary: o' rd' s' rule: restore_pairs.induct)
  case (1 b rd s)
  obtain x rd1 where x: "read_pair rd = (x, rd1)" by fastforce
  note l = read_pair_shrinks [OF x]
  show ?case
    using "1.prems" x l "1.IH" [OF x [symmetric]]
    by (subst (asm) restore_pairs.simps)
      (fastforce split: got.splits prod.splits sum.splits option.splits)
qed

text \<open>Setting the fill percentage of a handle.\<close>

definition set_fill :: "rat \<Rightarrow> bref \<Rightarrow> txst \<Rightarrow> txst" where
  "set_fill x b s = (case s of (db, tx) \<Rightarrow> (db, tx\<lparr>bufs := (bufs tx)[b := (bufs tx ! b)\<lparr>FillPercent := x\<rparr>]\<rparr>))"

function restore_buckets :: "reader \<Rightarrow> callback" where
  "restore_buckets rd s =
     (case read_name rd of
        (Leave o', rd) \<Rightarrow> (o', s)
      | (ListEnd, rd) \<Rightarrow> (Returned None, s)
      | (Got nm, rd) \<Rightarrow>
          (case CreateBucket nm s of
             (Inl err, s) \<Rightarrow> (Returned (Some (Wrapf ''vmbolt: restore bucket'' err)), s)
           | (Inr b, s) \<Rightarrow>
               (case restore_pairs b rd (set_fill (9 / 10) b s) of
                  (Returned None, rd, s) \<Rightarrow> restore_buckets rd s
                | (o', _, s) \<Rightarrow> (o', s))))"
  by pat_completeness auto
termination
  by (relation "measure (\<lambda>(rd, s). length (rdata rd))")
    (auto dest!: read_name_shrinks [OF sym] restore_pairs_shrinks [OF sym])

declare restore_buckets.simps [simp del]

definition Restore :: "(txst \<Rightarrow> commit_env) \<Rightarrow> reader \<Rightarrow> DB \<Rightarrow> (outcome \<times> DB) option" where
  "Restore sched rd db =
     (case ReadFull 16 rd of
        (Inl err, rd) \<Rightarrow> Some (Returned (Some (Wrapf ''vmbolt: snapshot header'' err)), db)
      | (Inr hdr, rd) \<Rightarrow>
          if take 4 hdr \<noteq> snapshotMagic
          then Some (Returned (Some (Errorf ''vmbolt: not a BMSP snapshot'')), db)
          else if Uint32 (take 4 (drop 4 hdr)) \<noteq> snapshotVersion
          then Some (Returned (Some (Errorf ''vmbolt: unsupported snapshot version'')), db)
          else Update sched (restore_buckets rd) db)"

section \<open>Opening a database at a path\<close>

text \<open>
  The file at the path: absent when it cannot be opened; the error a seek to the start answers.
\<close>

record disk_file =
  fcontent :: reader
  fseek :: "error option"

definition maybeRestore :: "(txst \<Rightarrow> commit_env) \<Rightarrow> disk_file option \<Rightarrow> DB \<Rightarrow> (outcome \<times> DB) option" where
  "maybeRestore sched f db =
     (case f of
        None \<Rightarrow> Some (Returned None, db)
      | Some f \<Rightarrow>
          if rdata (fcontent f) = [] then Some (Returned None, db)
          else if take 4 (rdata (fcontent f) @ [0, 0, 0, 0]) \<noteq> snapshotMagic then Some (Returned None, db)
          else (case fseek f of
                  Some err \<Rightarrow> Some (Returned (Some (Wrapf ''vmbolt: seek snapshot'' err)), db)
                | None \<Rightarrow>
                    map_option (\<lambda>(o', db). (case o' of
                        Returned (Some err) \<Rightarrow> Returned (Some (Wrapf ''vmbolt: restore snapshot'' err))
                      | _ \<Rightarrow> o', db))
                      (Restore sched (fcontent f) db)))"

definition Open :: "(txst \<Rightarrow> commit_env) \<Rightarrow> disk_file option option \<Rightarrow> Options option \<Rightarrow> ((error + DB) res) option" where
  "Open sched path opts =
     (let db = open_empty opts
      in case path of
           None \<Rightarrow> Some (Inr (Inr db))
         | Some f \<Rightarrow>
             map_option (\<lambda>(o', db). case o' of
                 Panicked \<Rightarrow> Inl (Panic ''restore'')
               | Returned (Some err) \<Rightarrow> Inr (Inl err)
               | Returned None \<Rightarrow> Inr (Inr db))
               (maybeRestore sched f db))"

section \<open>The integers round trip\<close>

lemma length_PutUint [simp]: "length (PutUint32 v) = 4" "length (PutUint64 w) = 8"
  by (simp_all add: PutUint32_def PutUint64_def)

lemma bit_octets:
  fixes bs :: bytes
  shows "bit (foldr (\<lambda>i v. push_bit (8 * i) (ucast (bs ! i)) OR v) is (0 :: 'a::len word)) n \<longleftrightarrow>
     n < LENGTH('a) \<and> (\<exists>i\<in>set is. 8 * i \<le> n \<and> bit (bs ! i) (n - 8 * i))"
  by (induction "is") (auto simp: bit_simps)

lemma octet_bit:
  fixes v :: "'a::len word"
  assumes "n < LENGTH('a)" and "LENGTH('a) = 8 * k"
  shows "(\<exists>i\<in>set [0..<k]. 8 * i \<le> n \<and> bit (map (\<lambda>i. ucast (drop_bit (8 * i) v) :: byte) [0..<k] ! i) (n - 8 * i)) \<longleftrightarrow> bit v n"
proof
  assume "bit v n"
  then show "\<exists>i\<in>set [0..<k]. 8 * i \<le> n \<and> bit (map (\<lambda>i. ucast (drop_bit (8 * i) v) :: byte) [0..<k] ! i) (n - 8 * i)"
    using assms by (intro bexI [of _ "n div 8"]) (auto simp: bit_simps modulo_nat_def minus_div_mult_eq_mod [symmetric])
qed (auto simp: bit_simps)

lemma Uint32_PutUint32 [simp]: "Uint32 (PutUint32 v) = v"
  by (rule bit_word_eqI) (simp only: Uint32_def PutUint32_def bit_octets octet_bit [of _ 4] len_num1 len_bit0 simp_thms)

lemma Uint64_PutUint64 [simp]: "Uint64 (PutUint64 v) = v"
  by (rule bit_word_eqI) (simp only: Uint64_def PutUint64_def bit_octets octet_bit [of _ 8] len_num1 len_bit0 simp_thms)

section \<open>What is written\<close>

text \<open>The chunks of a stream in the order they are written, and the stream itself.\<close>

definition pair_chunks :: "kv \<Rightarrow> bytes list" where
  "pair_chunks p = [PutUint32 (of_nat (length (fst p))), fst p, PutUint64 (of_nat (length (snd p))), snd p]"

definition bucket_chunks :: "bytes \<Rightarrow> kv list \<Rightarrow> bytes list" where
  "bucket_chunks nm kvs =
     [PutUint32 (of_nat (length nm)), nm] @ concat (map pair_chunks kvs) @ [PutUint32 0]"

definition buckets_chunks :: "(bytes \<rightharpoonup> kv list) \<Rightarrow> bytes list \<Rightarrow> bytes list" where
  "buckets_chunks M nms = concat (map (\<lambda>nm. bucket_chunks nm (the (M nm))) nms)"

definition snapshot_chunks :: "(bytes \<rightharpoonup> kv list) \<Rightarrow> bytes list" where
  "snapshot_chunks M = snapshot_header # buckets_chunks M (sorted_list_of_set (dom M)) @ [PutUint32 0]"

lemma counter_Writes_append:
  "counter_Writes wr (ps @ qs) c = (case counter_Writes wr ps c of
     (Some err, c) \<Rightarrow> (Some err, c) | (None, c) \<Rightarrow> counter_Writes wr qs c)"
  by (induction ps arbitrary: c) (auto split: prod.splits option.splits)

lemma write_pair_chunks: "write_pair wr p c = counter_Writes wr (pair_chunks p) c"
  by (simp add: write_pair_def pair_chunks_def split: prod.splits)

lemma each_write_pair: "each (write_pair wr) kvs c = counter_Writes wr (concat (map pair_chunks kvs)) c"
  by (induction kvs arbitrary: c) (auto simp: counter_Writes_append write_pair_chunks split: prod.splits option.splits)

lemma tx_scan:
  assumes "tx_holds n (db, tx) M0 M" and "map_of (bctx tx) nm = Some b" and "M nm = Some kvs"
  shows "\<exists>tx'. in_bucket b (bucket_ForEach fn u) (db, tx) = Inr (each fn kvs u, (db, tx')) \<and> tx_holds n (db, tx') M0 M"
proof -
  let ?w = "bucket_wst (db, tx) b"
  have h: "handle_ok n (nm \<in> created tx) ?w kvs" using tx_holdsD(3) [OF assms(1,2)] assms(3) by auto
  then obtain t where t: "winv ?w t" "items t = kvs" by (auto simp: handle_ok_def)
  have "tx_open ?w" using assms(1) by (simp add: tx_holds_def)
  then have v: "bucket_view ?w kvs" using t by (auto simp: bucket_view_def winv_def intree_def)
  have c: "bucket_Cursor ?w = ?w\<lparr>heap := heap ?w, stats := IncCursorCount 1 (stats ?w)\<rparr>" by (simp add: bucket_Cursor_def)
  have "handle_ok n (nm \<in> created tx) (bucket_Cursor ?w) kvs"
    using handle_ok_frame [OF h, of "heap ?w" "IncCursorCount 1 (stats ?w)"] c by simp
  moreover have e: "evolves ?w (bucket_Cursor ?w)" by (simp add: evolves_def bucket_Cursor_def)
  ultimately have "tx_holds n (put_back (bucket_Cursor ?w) (db, tx)) M0 (M(nm \<mapsto> kvs))"
    using put_back_holds [OF assms(1,2)] by blast
  moreover have "M(nm \<mapsto> kvs) = M" using assms(3) by auto
  moreover have "fst (put_back (bucket_Cursor ?w) (db, tx)) = db" by (simp add: bucket_Cursor_def)
  ultimately show ?thesis
    using bucket_ForEach_spec [OF v, of fn u]
    by (intro exI [of _ "snd (put_back (bucket_Cursor ?w) (db, tx))"])
      (simp add: in_bucket_def del: put_back_simps, metis prod.collapse)
qed

lemma write_bucket_spec:
  assumes "tx_holds n (db, tx) M0 M" and "map_of (bctx tx) nm = Some b" and "M nm = Some kvs"
  shows "\<exists>tx'. write_bucket wr nm b (c, db, tx) =
      (case counter_Writes wr (bucket_chunks nm kvs) c of (e, c') \<Rightarrow> Inr (e, c', db, tx')) \<and> tx_holds n (db, tx') M0 M"
proof -
  define h where "h = [PutUint32 (of_nat (length nm)), nm]"
  define z where "z = [PutUint32 0]"
  have ch: "bucket_chunks nm kvs = h @ concat (map pair_chunks kvs) @ z" by (simp only: bucket_chunks_def h_def z_def)
  note wb = write_bucket_def [of wr nm b, folded h_def z_def]
  obtain e c1 where w: "counter_Writes wr h c = (e, c1)" by fastforce
  obtain e2 c2 where w2: "counter_Writes wr (concat (map pair_chunks kvs)) c1 = (e2, c2)" by fastforce
  obtain e3 c3 where w3: "counter_Writes wr z c2 = (e3, c3)" by fastforce
  obtain tx' where tx': "in_bucket b (bucket_ForEach (write_pair wr) c1) (db, tx) =
      Inr (each (write_pair wr) kvs c1, (db, tx'))" "tx_holds n (db, tx') M0 M"
    using tx_scan [OF assms, of "write_pair wr" c1] by blast
  show ?thesis
  proof (cases e)
    case None
    then show ?thesis
      using w w2 w3 tx' by (intro exI [of _ tx'], cases e2) (simp_all add: wb ch counter_Writes_append each_write_pair)
  next
    case (Some err)
    then show ?thesis using w assms(1) by (intro exI [of _ tx]) (simp add: wb ch counter_Writes_append)
  qed
qed

lemma write_buckets_spec:
  assumes "tx_holds n (db, tx) M0 M" and "set xs \<subseteq> dom M" and "length xs < f"
    and "0 \<le> dirIdx dc \<and> tl xs = drop (Suc (nat (dirIdx dc))) (dir dc)"
  shows "\<exists>tx'. write_buckets f wr (hd_opt xs) dc (c, db, tx) =
      (case counter_Writes wr (buckets_chunks M xs) c of (e, c') \<Rightarrow> Inr (e, c', db, tx')) \<and> tx_holds n (db, tx') M0 M"
  using assms
proof (induction xs arbitrary: f dc c tx)
  case Nil
  then show ?case by (auto simp: buckets_chunks_def)
next
  case (Cons nm xs)
  obtain f' where f: "f = Suc f'" using Cons.prems(3) by (cases f) auto
  obtain kvs where kvs: "M nm = Some kvs" using Cons.prems(2) by auto
  obtain b tx1 where b: "tx_Bucket nm tx = (Some b, tx1)" "tx_holds n (db, tx1) M0 M" "map_of (bctx tx1) nm = Some b"
    using tx_Bucket_holds [OF Cons.prems(1), of nm] kvs by auto
  obtain tx2 where tx2: "write_bucket wr nm b (c, db, tx1) =
      (case counter_Writes wr (bucket_chunks nm kvs) c of (e, c') \<Rightarrow> Inr (e, c', db, tx2))" "tx_holds n (db, tx2) M0 M"
    using write_bucket_spec [OF b(2,3) kvs] by blast
  obtain e c1 where w: "counter_Writes wr (bucket_chunks nm kvs) c = (e, c1)" by fastforce
  have ch: "buckets_chunks M (nm # xs) = bucket_chunks nm kvs @ buckets_chunks M xs" by (simp add: buckets_chunks_def kvs)
  obtain dc' where dc': "dir_Next dc = (hd_opt xs, dc')" "0 \<le> dirIdx dc' \<and> tl xs = drop (Suc (nat (dirIdx dc'))) (dir dc')"
    using dir_iter.nxt_here [of dc xs] Cons.prems(4) by auto
  show ?case
  proof (cases e)
    case None
    obtain tx' where "write_buckets f' wr (hd_opt xs) dc' (c1, db, tx2) =
        (case counter_Writes wr (buckets_chunks M xs) c1 of (e, c') \<Rightarrow> Inr (e, c', db, tx'))" "tx_holds n (db, tx') M0 M"
      using Cons.IH [OF tx2(2) _ _ dc'(2), of f' c1] Cons.prems(2,3) f by auto
    then show ?thesis using f b(1) tx2(1) w None dc'(1) by (intro exI [of _ tx']) (simp add: ch counter_Writes_append)
  next
    case (Some err)
    then show ?thesis using f b(1) tx2 w by (intro exI [of _ tx2]) (simp add: ch counter_Writes_append)
  qed
qed

lemma serializeSnapshot_spec:
  assumes "tx_holds n (db, tx) M0 M"
  shows "\<exists>tx'. serializeSnapshot wr w (db, tx) =
      (case counter_Writes wr (snapshot_chunks M) \<lparr>cw_w = w, cw_n = 0\<rparr> of
         (e, c) \<Rightarrow> Inr ((cw_n c, e), cw_w c, (db, tx'))) \<and> tx_holds n (db, tx') M0 M"
proof -
  let ?xs = "sorted_list_of_set (dom M)" and ?c = "\<lparr>cw_w = w, cw_n = 0\<rparr>"
  obtain dc where dc: "dir_First \<lparr>dir = ?xs, dirIdx = -1\<rparr> = (hd_opt ?xs, dc)" "0 \<le> dirIdx dc \<and> tl ?xs = drop (Suc (nat (dirIdx dc))) (dir dc)"
    using dir_iter.start_here [of "\<lparr>dir = ?xs, dirIdx = -1\<rparr>" ?xs] by auto
  have dir: "dir dc = ?xs" using dc(1) by (auto simp: dir_First_def Let_def)
  obtain e c1 where h: "counter_Writes wr [snapshot_header] ?c = (e, c1)" by fastforce
  have ch: "snapshot_chunks M = [snapshot_header] @ buckets_chunks M ?xs @ [PutUint32 0]" by (simp add: snapshot_chunks_def)
  note cur = tx_Cursor_dir [OF assms]
  show ?thesis
  proof (cases e)
    case None
    obtain tx' where tx': "write_buckets (Suc (length ?xs)) wr (hd_opt ?xs) dc (c1, db, tx) =
        (case counter_Writes wr (buckets_chunks M ?xs) c1 of (e, c') \<Rightarrow> Inr (e, c', db, tx'))" "tx_holds n (db, tx') M0 M"
      using write_buckets_spec [OF assms _ _ dc(2), of "Suc (length ?xs)" wr c1] dom_view(3) [OF assms] by auto
    then show ?thesis
      using h None cur dc(1) dir
      by (intro exI [of _ tx'])
        (auto simp: serializeSnapshot_def ch counter_Writes_append simp del: counter_Writes.simps(2) append_Cons split: prod.splits option.splits)
  next
    case (Some err)
    then show ?thesis
      using h assms by (intro exI [of _ tx]) (simp add: serializeSnapshot_def ch counter_Writes_append del: counter_Writes.simps(2) append_Cons)
  qed
qed

section \<open>What is restored\<close>

text \<open>The two loops of \<^verbatim>\<open>Restore\<close> on pair lists and maps.\<close>

function spec_pairs :: "reader \<Rightarrow> kv list \<Rightarrow> outcome \<times> reader \<times> kv list" where
  "spec_pairs rd kvs =
     (case read_pair rd of
        (Leave o', rd) \<Rightarrow> (o', rd, kvs)
      | (ListEnd, rd) \<Rightarrow> (Returned None, rd, kvs)
      | (Got (k, v), rd) \<Rightarrow>
          (case put_error k v of
             Some err \<Rightarrow> (Returned (Some (Wrapf ''vmbolt: restore put'' err)), rd, kvs)
           | None \<Rightarrow> spec_pairs rd (alist_put k v kvs)))"
  by pat_completeness auto
termination
  by (relation "measure (\<lambda>(rd, kvs). length (rdata rd))") (auto dest!: read_pair_shrinks [OF sym])

declare spec_pairs.simps [simp del]

lemma spec_pairs_shrinks: "spec_pairs rd kvs = (o', rd', kvs') \<Longrightarrow> length (rdata rd') \<le> length (rdata rd)"
proof (induction rd kvs arbitrary: o' rd' kvs' rule: spec_pairs.induct)
  case (1 rd kvs)
  obtain x rd1 where x: "read_pair rd = (x, rd1)" by fastforce
  note l = read_pair_shrinks [OF x]
  show ?case
    using "1.prems" x l "1.IH" [OF x [symmetric]]
    by (subst (asm) spec_pairs.simps) (fastforce split: got.splits prod.splits option.splits)
qed

function spec_restore :: "reader \<Rightarrow> (bytes \<rightharpoonup> kv list) \<Rightarrow> outcome \<times> (bytes \<rightharpoonup> kv list)" where
  "spec_restore rd M =
     (case read_name rd of
        (Leave o', rd) \<Rightarrow> (o', M)
      | (ListEnd, rd) \<Rightarrow> (Returned None, M)
      | (Got nm, rd) \<Rightarrow>
          if M nm \<noteq> None then (Returned (Some (Wrapf ''vmbolt: restore bucket'' ErrBucketExists)), M)
          else (case spec_pairs rd [] of
                  (Returned None, rd, kvs) \<Rightarrow> spec_restore rd (M(nm \<mapsto> kvs))
                | (o', _, kvs) \<Rightarrow> (o', M(nm \<mapsto> kvs))))"
  by pat_completeness auto
termination
  by (relation "measure (\<lambda>(rd, M). length (rdata rd))")
    (auto dest!: read_name_shrinks [OF sym] spec_pairs_shrinks [OF sym])

declare spec_restore.simps [simp del]

lemma read_pair_key: "read_pair rd = (Got (k, v), rd') \<Longrightarrow> k \<noteq> []"
  by (auto simp: read_pair_def unat_eq_zero split: if_splits prod.splits sum.splits dest!: ReadFull_len)

lemma read_name_name: "read_name rd = (Got nm, rd') \<Longrightarrow> nm \<noteq> []"
  by (auto simp: read_name_def unat_eq_zero split: if_splits prod.splits sum.splits dest!: ReadFull_len)

lemma in_bucket_put_error:
  assumes "tx_holds n (db, tx) M0 M" and "writable tx" and "put_error k v = Some err"
  shows "in_bucket b (bucket_Put k v) (db, tx) = Inr (Some err, (db, tx))"
proof -
  have "db_open tx" using assms(1) by (simp add: tx_holds_def)
  then show ?thesis
    using assms(2,3) by (auto simp: in_bucket_def bucket_Put_def put_error_def put_back_id split: if_splits)
qed

lemma handle_keeps:
  assumes "tx_holds n (db, tx) M0 M" and "map_of (bctx tx) nm = Some b" and "evolves (bucket_wst (db, tx) b) w"
  shows "keeps n (db, tx) (put_back w (db, tx))"
proof -
  have "handles_wf n (db, tx)" "b < length (bufs tx)" "n \<le> length (nodes db)"
    using assms(1) tx_holdsD(1) [OF assms(1,2)] tx_base(2) by (auto simp: tx_holds_def)
  then show ?thesis using same_tx_put_back assms(3) same_tx_keeps by blast
qed

lemma restore_pairs_agrees:
  assumes "tx_holds n (db, tx) M0 M" and "writable tx" and "map_of (bctx tx) nm = Some b" and "M nm = Some kvs"
    and "spec_pairs rd kvs = (o', rd', kvs')"
  shows "\<exists>s'. restore_pairs b rd (db, tx) = (o', rd', s') \<and> tx_holds n s' M0 (M(nm \<mapsto> kvs')) \<and> keeps n (db, tx) s'"
  using assms
proof (induction rd kvs arbitrary: db tx M rule: spec_pairs.induct)
  case (1 rd kvs)
  note prems = "1.prems"
  have same: "M(nm \<mapsto> kvs) = M" using prems(4) by auto
  obtain x rd1 where x: "read_pair rd = (x, rd1)" by fastforce
  show ?case
  proof (cases x)
    case (Got p)
    obtain k v where p: "p = (k, v)" by fastforce
    show ?thesis
    proof (cases "put_error k v")
      case None
      then have ok: "write_ok (Put k v)" by (auto simp: put_error_def split: if_splits)
      obtain w where w: "in_bucket b (bucket_exec (Put k v)) (db, tx) = Inr (None, put_back w (db, tx))"
        "evolves (bucket_wst (db, tx) b) w" "tx_holds n (put_back w (db, tx)) M0 (M(nm \<mapsto> apply_write (Put k v) kvs))"
        using tx_exec [OF prems(1-4) ok] by blast
      obtain db1 tx1 where s1: "put_back w (db, tx) = (db1, tx1)" by fastforce
      have k1: "keeps n (db, tx) (db1, tx1)"
        using handle_keeps [OF prems(1,3) w(2)] s1 by simp
      have tx1: "writable tx1" "map_of (bctx tx1) nm = Some b"
        using prems(2,3) put_back_simps(2) [of w db tx] unfolding s1 by simp_all
      have sp: "spec_pairs rd1 (alist_put k v kvs) = (o', rd', kvs')"
        using prems(5) x Got p None by (simp add: spec_pairs.simps [of rd])
      have "tx_holds n (db1, tx1) M0 (M(nm \<mapsto> alist_put k v kvs))" using w(3) s1 by simp
      from "1.IH" [OF x [symmetric] Got p [symmetric] None this tx1 fun_upd_same sp]
      obtain s' where s': "restore_pairs b rd1 (db1, tx1) = (o', rd', s')"
        "tx_holds n s' M0 (M(nm \<mapsto> kvs'))" "keeps n (db1, tx1) s'" by (simp only: fun_upd_upd) blast
      have "bucket_exec (Put k v) = bucket_Put k v" by (rule ext) simp
      then have "restore_pairs b rd (db, tx) = (o', rd', s')"
        using x Got p w(1) s1 s'(1) by (subst restore_pairs.simps) simp
      then show ?thesis using s'(2,3) k1 keeps_trans by blast
    next
      case (Some err)
      then have "in_bucket b (bucket_Put k v) (db, tx) = Inr (Some err, (db, tx))"
        using in_bucket_put_error [OF prems(1,2)] by blast
      then show ?thesis using x Got p Some prems same by (simp add: spec_pairs.simps [of rd] restore_pairs.simps [of b rd])
    qed
  qed (use x prems same in \<open>auto simp: spec_pairs.simps [of rd] restore_pairs.simps [of b rd]\<close>)
qed

lemma set_fill_holds:
  assumes "tx_holds n (db, tx) M0 M" and "b < length (bufs tx)"
  shows "\<exists>tx'. set_fill x b (db, tx) = (db, tx') \<and> tx_holds n (db, tx') M0 M \<and> keeps n (db, tx) (db, tx') \<and> bctx tx' = bctx tx \<and>
     writable tx' = writable tx"
proof -
  let ?bs = "(bufs tx)[b := (bufs tx ! b)\<lparr>FillPercent := x\<rparr>]" and ?tx = "tx\<lparr>bufs := (bufs tx)[b := (bufs tx ! b)\<lparr>FillPercent := x\<rparr>]\<rparr>"
  have nth: "c < length (bufs tx) \<Longrightarrow> ?bs ! c = (if c = b then (bufs tx ! b)\<lparr>FillPercent := x\<rparr> else bufs tx ! c)" for c
    by (simp add: nth_list_update)
  have same: "c < length (bufs tx) \<Longrightarrow> name (?bs ! c) = name (bufs tx ! c) \<and> dirty (?bs ! c) = dirty (bufs tx ! c)" for c
    by (simp add: nth)
  have wf: "handles_wf n (db, tx)" using assms(1) by (simp add: tx_holds_def)
  then have "handles_wf n (db, ?tx)" using same unfolding handles_wf_def by (auto split: prod.splits)
  moreover have "dir_wf M0 ?tx" using assms(1) by (simp add: tx_holds_def dir_wf_def)
  moreover have "view_at n (db, ?tx) M0 nm (M nm)" for nm
  proof (cases "map_of (bctx tx) nm")
    case None
    then show ?thesis using view_None(1) [OF assms(1) None] by (simp add: view_at_def)
  next
    case (Some c)
    have c: "c < length (bufs tx)" "\<exists>kvs. M nm = Some kvs \<and> handle_ok n (nm \<in> created tx) (bucket_wst (db, tx) c) kvs"
      using tx_holdsD [OF assms(1) Some] by auto
    have "bucket_wst (db, ?tx) c = (if c = b then (bucket_wst (db, tx) c)\<lparr>FillPercent := x\<rparr> else bucket_wst (db, tx) c)"
      using c(1) nth [OF c(1)] by (auto intro!: wst_eqI)
    moreover have "handle_ok n l (w\<lparr>FillPercent := x\<rparr>) kvs = handle_ok n l w kvs" for l w kvs
      by (simp add: handle_ok_def winv_def owned_def fresh_def leaf_base_def leaf_root_def rootView_def cong: option.case_cong)
    ultimately show ?thesis using c(2) Some by (auto simp: view_at_def)
  qed
  moreover have "keeps n (db, tx) (db, ?tx)" by (rule keeps_nodes) simp_all
  ultimately show ?thesis using assms(1) by (simp add: set_fill_def tx_holds_def)
qed

lemma create_keeps:
  assumes "CreateBucket nm (db, tx) = (Inr b, (db', tx'))" and "n \<le> length (nodes db)"
  shows "keeps n (db, tx) (db', tx')"
  using assms by (auto simp: CreateBucket_def keeps_def putBctx_def Let_def nth_append split: if_splits)

lemma restore_buckets_agrees:
  assumes "tx_holds n s M0 M" and "writable (snd s)"
  shows "\<exists>s'. restore_buckets rd s = (fst (spec_restore rd M), s') \<and> tx_holds n s' M0 (snd (spec_restore rd M)) \<and> keeps n s s'"
  using assms
proof (induction rd M arbitrary: s rule: spec_restore.induct)
  case (1 rd M)
  obtain x rd1 where x: "read_name rd = (x, rd1)" by fastforce
  obtain db tx where s: "s = (db, tx)" by fastforce
  note prems = "1.prems" [unfolded s snd_conv]
  show ?case
  proof (cases x)
    case (Got nm)
    have nm: "nm \<noteq> []" using read_name_name x Got by blast
    show ?thesis
    proof (cases "M nm")
      case None
      obtain db1 tx1 where c: "CreateBucket nm (db, tx) = (Inr (length (bufs tx)), (db1, tx1))"
        "tx_holds n (db1, tx1) M0 (M(nm \<mapsto> []))" "map_of (bctx tx1) nm = Some (length (bufs tx))" "writable tx1"
        using CreateBucket_new [OF prems nm None] by blast
      have k1: "keeps n (db, tx) (db1, tx1)" using create_keeps [OF c(1)] tx_base(2) [OF prems(1)] by blast
      obtain tx2 where f: "set_fill (9 / 10) (length (bufs tx)) (db1, tx1) = (db1, tx2)" "tx_holds n (db1, tx2) M0 (M(nm \<mapsto> []))"
        "keeps n (db1, tx1) (db1, tx2)" "bctx tx2 = bctx tx1" "writable tx2 = writable tx1"
        using set_fill_holds [OF c(2) tx_holdsD(1) [OF c(2,3)]] by blast
      obtain o' rd2 kvs where sp: "spec_pairs rd1 [] = (o', rd2, kvs)" by (cases "spec_pairs rd1 []") auto
      obtain s3 where s3: "restore_pairs (length (bufs tx)) rd1 (db1, tx2) = (o', rd2, s3)"
        "tx_holds n s3 M0 (M(nm \<mapsto> kvs))" "keeps n (db1, tx2) s3"
        using restore_pairs_agrees [OF f(2), of nm "length (bufs tx)" "[]" rd1] f(4,5) c(3,4) sp by auto
      have k3: "keeps n (db, tx) s3" using k1 f(3) s3(3) keeps_trans by blast
      show ?thesis
      proof (cases "o' = Returned None")
        case True
        have "\<not> M nm \<noteq> None" "writable (snd s3)" using None k3 prems(2) unfolding keeps_def by simp_all
        from "1.IH" [OF x [symmetric] Got this(1) sp [unfolded True, symmetric] refl refl refl s3(2) this(2)]
        obtain s' where s': "restore_buckets rd2 s3 = (fst (spec_restore rd2 (M(nm \<mapsto> kvs))), s')"
          "tx_holds n s' M0 (snd (spec_restore rd2 (M(nm \<mapsto> kvs))))" "keeps n s3 s'" by blast
        show ?thesis
          using s' s x Got None c(1) f(1) s3(1) sp True keeps_trans [OF k3 s'(3)]
          by (intro exI [of _ s']) (simp add: restore_buckets.simps [of rd] spec_restore.simps [of rd])
      next
        case False
        then show ?thesis
          using s x Got None c(1) f(1) s3(1,2) sp k3
          by (intro exI [of _ s3])
            (simp add: restore_buckets.simps [of rd] spec_restore.simps [of rd] split: outcome.splits option.splits)
      qed
    next
      case (Some kvs)
      then have "CreateBucket nm (db, tx) = (Inl ErrBucketExists, (db, tx))" using CreateBucket_exists [OF prems nm] by simp
      then show ?thesis using x Got Some prems s by (simp add: restore_buckets.simps [of rd] spec_restore.simps [of rd])
    qed
  qed (use x prems s in \<open>simp_all add: restore_buckets.simps [of rd] spec_restore.simps [of rd]\<close>)
qed

lemma restore_implements: "implements (restore_buckets rd) M (spec_restore rd M)"
  unfolding implements_def using restore_buckets_agrees by blast

section \<open>Streams that were written\<close>

definition storable :: "(bytes \<rightharpoonup> kv list) \<Rightarrow> bool" where
  "storable M \<longleftrightarrow> finite (dom M) \<and> (\<forall>nm kvs. M nm = Some kvs \<longrightarrow>
     nm \<noteq> [] \<and> length nm < 2 ^ 32 \<and> ascending (map fst kvs) \<and> (\<forall>p\<in>set kvs. put_error (fst p) (snd p) = None))"

lemma ReadFull_exact: "length x = n \<Longrightarrow> rdata rd = x @ ys \<Longrightarrow> ReadFull n rd = (Inr x, rd\<lparr>rdata := ys\<rparr>)"
  by (auto simp: ReadFull_def)

lemma put_error_None: "put_error k v = None \<longleftrightarrow> k \<noteq> [] \<and> length k \<le> MaxKeySize \<and> length v \<le> MaxValueSize"
  by (auto simp: put_error_def)

lemma wire_length:
  "n < 2 ^ 32 \<Longrightarrow> unat (of_nat n :: 32 word) = n" "n < 2 ^ 64 \<Longrightarrow> unat (of_nat n :: 64 word) = n"
  by (simp_all add: unat_of_nat take_bit_nat_eq_self)

lemma wire_zero: "0 < n \<Longrightarrow> n < 2 ^ 32 \<Longrightarrow> (of_nat n :: 32 word) \<noteq> 0"
  using wire_length(1) [of n] by force

lemma pair_sizes:
  assumes "put_error k v = None"
  shows "0 < length k" and "length k < 2 ^ 32" and "length v < 2 ^ 64" and "length v \<le> maxAlloc"
  using assms by (simp_all add: put_error_None MaxKeySize_def MaxValueSize_def maxAlloc_def)

text \<open>A stream that is a prefix of a written one is either read as if it were whole, or runs out.\<close>

lemma ReadFull_prefix:
  assumes "rdata rd @ q = x @ ys"
  shows "(\<exists>p. rdata rd = x @ p \<and> p @ q = ys \<and> ReadFull (length x) rd = (Inr x, rd\<lparr>rdata := p\<rparr>)) \<or>
         (q \<noteq> [] \<and> (\<exists>e rd'. ReadFull (length x) rd = (Inl e, rd')))"
  using assms by (auto simp: append_eq_append_conv2 ReadFull_def)

lemma read_pair_prefix:
  assumes "rdata rd @ q = concat (pair_chunks (k, v)) @ ys" and "put_error k v = None"
  shows "(\<exists>p. p @ q = ys \<and> read_pair rd = (Got (k, v), rd\<lparr>rdata := p\<rparr>)) \<or>
         (q \<noteq> [] \<and> (\<exists>e rd'. read_pair rd = (Leave (Returned (Some e)), rd')))"
proof -
  let ?a = "PutUint32 (of_nat (length k))" and ?b = "PutUint64 (of_nat (length v))"
  note sz = pair_sizes [OF assms(2)] and wire = wire_length
  have k: "(of_nat (length k) :: 32 word) \<noteq> 0" using wire_zero sz by blast
  have 1: "rdata rd @ q = ?a @ k @ ?b @ v @ ys" using assms(1) by (simp add: pair_chunks_def)
  show ?thesis
    using ReadFull_prefix [OF 1]
  proof (elim disjE exE conjE)
    fix p1 assume p1: "p1 @ q = k @ ?b @ v @ ys" "ReadFull (length ?a) rd = (Inr ?a, rd\<lparr>rdata := p1\<rparr>)"
    then have "rdata (rd\<lparr>rdata := p1\<rparr>) @ q = k @ ?b @ v @ ys" by simp
    from ReadFull_prefix [OF this] show ?thesis
    proof (elim disjE exE conjE)
      fix p2 assume p2: "p2 @ q = ?b @ v @ ys" "ReadFull (length k) (rd\<lparr>rdata := p1\<rparr>) = (Inr k, rd\<lparr>rdata := p1, rdata := p2\<rparr>)"
      then have "rdata (rd\<lparr>rdata := p2\<rparr>) @ q = ?b @ v @ ys" by simp
      from ReadFull_prefix [OF this] show ?thesis
      proof (elim disjE exE conjE)
        fix p3 assume p3: "p3 @ q = v @ ys" "ReadFull (length ?b) (rd\<lparr>rdata := p2\<rparr>) = (Inr ?b, rd\<lparr>rdata := p2, rdata := p3\<rparr>)"
        then have "rdata (rd\<lparr>rdata := p3\<rparr>) @ q = v @ ys" by simp
        from ReadFull_prefix [OF this] show ?thesis
          using p1 p2 p3 k sz by (auto simp: read_pair_def wire)
      qed (use p1 p2 k sz in \<open>auto simp: read_pair_def wire\<close>)
    qed (use p1 k sz in \<open>auto simp: read_pair_def wire\<close>)
  qed (auto simp: read_pair_def)
qed

lemma read_pair_end:
  assumes "rdata rd @ q = PutUint32 0 @ ys"
  shows "(\<exists>p. p @ q = ys \<and> read_pair rd = (ListEnd, rd\<lparr>rdata := p\<rparr>)) \<or>
         (q \<noteq> [] \<and> (\<exists>e rd'. read_pair rd = (Leave (Returned (Some e)), rd')))"
  using ReadFull_prefix [OF assms] by (auto simp: read_pair_def)

lemma read_name_prefix:
  assumes "rdata rd @ q = PutUint32 (of_nat (length nm)) @ nm @ ys" and "nm \<noteq> []" and "length nm < 2 ^ 32"
  shows "(\<exists>p. p @ q = ys \<and> read_name rd = (Got nm, rd\<lparr>rdata := p\<rparr>)) \<or>
         (q \<noteq> [] \<and> (\<exists>e rd'. read_name rd = (Leave (Returned (Some e)), rd')))"
proof -
  have k: "(of_nat (length nm) :: 32 word) \<noteq> 0" using wire_zero assms(2,3) by blast
  show ?thesis
    using ReadFull_prefix [OF assms(1)]
  proof (elim disjE exE conjE)
    fix p1 assume p1: "rdata rd = PutUint32 (of_nat (length nm)) @ p1" "p1 @ q = nm @ ys"
    then show ?thesis
      using ReadFull_prefix [of "rd\<lparr>rdata := p1\<rparr>" q nm ys] ReadFull_exact [OF _ p1(1), of 4] k assms(3)
      by (auto simp: read_name_def wire_length)
  qed (auto simp: read_name_def)
qed

lemma read_name_end:
  assumes "rdata rd @ q = PutUint32 0"
  shows "(q = [] \<and> read_name rd = (ListEnd, rd\<lparr>rdata := []\<rparr>)) \<or>
         (q \<noteq> [] \<and> (\<exists>e rd'. read_name rd = (Leave (Returned (Some e)), rd')))"
  using ReadFull_prefix [of rd q "PutUint32 0" "[]"] assms by (auto simp: read_name_def)

lemma alist_put_last: "\<forall>p\<in>set kvs. fst p < k \<Longrightarrow> alist_put k v kvs = kvs @ [(k, v)]"
  by (auto simp: alist_put_def takeWhile_eq_all_conv dropWhile_eq_Nil_conv less_imp_le)

lemma spec_pairs_prefix:
  assumes "rdata rd @ q = concat (concat (map pair_chunks kvs)) @ PutUint32 0 @ ys"
    and "ascending (map fst (acc @ kvs))" and "\<forall>p\<in>set kvs. put_error (fst p) (snd p) = None"
  shows "(\<exists>p. p @ q = ys \<and> spec_pairs rd acc = (Returned None, rd\<lparr>rdata := p\<rparr>, acc @ kvs)) \<or>
         (q \<noteq> [] \<and> (\<exists>e r. spec_pairs rd acc = (Returned (Some e), r)))"
  using assms
proof (induction kvs arbitrary: rd acc)
  case Nil
  then show ?case using read_pair_end [of rd q ys] by (auto simp: spec_pairs.simps [of rd])
next
  case (Cons kv kvs)
  obtain k v where kv: "kv = (k, v)" by fastforce
  have ok: "put_error k v = None" using Cons.prems(3) kv by simp
  have less: "\<forall>p\<in>set acc. fst p < k" using Cons.prems(2) kv by (auto simp: ascending_append)
  have "rdata rd @ q = concat (pair_chunks (k, v)) @ concat (concat (map pair_chunks kvs)) @ PutUint32 0 @ ys"
    using Cons.prems(1) kv by simp
  from read_pair_prefix [OF this ok] show ?case
  proof (elim disjE exE conjE)
    fix p assume p: "p @ q = concat (concat (map pair_chunks kvs)) @ PutUint32 0 @ ys" "read_pair rd = (Got (k, v), rd\<lparr>rdata := p\<rparr>)"
    then show ?thesis
      using Cons.IH [of "rd\<lparr>rdata := p\<rparr>" "acc @ [(k, v)]"] Cons.prems(2,3) kv ok alist_put_last [OF less]
      by (simp add: spec_pairs.simps [of rd])
  qed (auto simp: spec_pairs.simps [of rd])
qed

lemma spec_restore_prefix:
  assumes "rdata rd @ q = concat (buckets_chunks M nms) @ PutUint32 0" and "storable M" and "set nms \<subseteq> dom M"
    and "distinct nms" and "set nms \<inter> dom A = {}"
  shows "(q = [] \<and> spec_restore rd A = (Returned None, A ++ M |` set nms)) \<or>
         (q \<noteq> [] \<and> (\<exists>e r. spec_restore rd A = (Returned (Some e), r)))"
  using assms
proof (induction nms arbitrary: rd A)
  case Nil
  then show ?case using read_name_end [of rd q] by (auto simp: spec_restore.simps [of rd] buckets_chunks_def)
next
  case (Cons nm nms)
  obtain kvs where kvs: "M nm = Some kvs" using Cons.prems(3) by auto
  have ok: "nm \<noteq> []" "length nm < 2 ^ 32" "ascending (map fst ([] @ kvs))" "\<forall>p\<in>set kvs. put_error (fst p) (snd p) = None"
    using Cons.prems(2) kvs by (auto simp: storable_def)
  let ?ys = "concat (buckets_chunks M nms) @ PutUint32 0"
  have A: "A nm = None" using Cons.prems(5) by auto
  have "rdata rd @ q = PutUint32 (of_nat (length nm)) @ nm @ concat (concat (map pair_chunks kvs)) @ PutUint32 0 @ ?ys"
    using Cons.prems(1) kvs by (simp add: buckets_chunks_def bucket_chunks_def)
  from read_name_prefix [OF this ok(1,2)] show ?case
  proof (elim disjE exE conjE)
    fix p assume p: "p @ q = concat (concat (map pair_chunks kvs)) @ PutUint32 0 @ ?ys" "read_name rd = (Got nm, rd\<lparr>rdata := p\<rparr>)"
    have eq: "A(nm \<mapsto> kvs) ++ M |` set nms = A ++ M |` set (nm # nms)"
      using kvs Cons.prems(4) by (auto simp: map_add_def restrict_map_def fun_eq_iff split: option.splits)
    have dj: "set nms \<subseteq> dom M" "distinct nms" "set nms \<inter> dom (A(nm \<mapsto> kvs)) = {}" using Cons.prems(3-5) by auto
    note ih = Cons.IH [OF _ Cons.prems(2) dj, unfolded eq]
    have "(\<exists>p'. p' @ q = ?ys \<and> spec_pairs (rd\<lparr>rdata := p\<rparr>) [] = (Returned None, rd\<lparr>rdata := p'\<rparr>, kvs)) \<or>
        (q \<noteq> [] \<and> (\<exists>e r. spec_pairs (rd\<lparr>rdata := p\<rparr>) [] = (Returned (Some e), r)))"
      using spec_pairs_prefix [of "rd\<lparr>rdata := p\<rparr>" q kvs ?ys "[]"] p(1) ok(3,4) by simp
    then show ?thesis
    proof (elim disjE exE conjE)
      fix p' assume p': "p' @ q = ?ys" "spec_pairs (rd\<lparr>rdata := p\<rparr>) [] = (Returned None, rd\<lparr>rdata := p'\<rparr>, kvs)"
      have "spec_restore rd A = spec_restore (rd\<lparr>rdata := p'\<rparr>) (A(nm \<mapsto> kvs))"
        using p'(2) p(2) A by (simp add: spec_restore.simps [of rd])
      moreover have "rdata (rd\<lparr>rdata := p'\<rparr>) @ q = ?ys" using p'(1) by simp
      ultimately show ?thesis using ih by presburger
    qed (use p(2) A in \<open>auto simp: spec_restore.simps [of rd]\<close>)
  qed (auto simp: spec_restore.simps [of rd])
qed

section \<open>Properties\<close>

text \<open>The writer of a \<^verbatim>\<open>bytes.Buffer\<close>, that accepts everything.\<close>

definition buffer_Write :: "bytes writer" where
  "buffer_Write p out = ((int (length p), None), out @ p)"

lemma buffer_Writes:
  "counter_Writes buffer_Write ps \<lparr>cw_w = out, cw_n = n\<rparr> = (None, \<lparr>cw_w = out @ concat ps, cw_n = n + of_nat (length (concat ps))\<rparr>)"
  by (induction ps arbitrary: out n) (simp_all add: counter_Write_def buffer_Write_def)

definition header_ok :: "bytes \<Rightarrow> bool" where
  "header_ok d \<longleftrightarrow> 16 \<le> length d \<and> take 4 d = snapshotMagic \<and> Uint32 (take 4 (drop 4 d)) = snapshotVersion"

lemma Restore_header:
  "Restore sched rd db =
     (if header_ok (rdata rd) then Update sched (restore_buckets (rd\<lparr>rdata := drop 16 (rdata rd)\<rparr>)) db
      else Some (Returned (Some
        (if length (rdata rd) < 16 then Wrapf ''vmbolt: snapshot header'' (if rend rd = io_EOF \<and> rdata rd \<noteq> [] then ErrUnexpectedEOF else rend rd)
         else if take 4 (rdata rd) \<noteq> snapshotMagic then Errorf ''vmbolt: not a BMSP snapshot''
         else Errorf ''vmbolt: unsupported snapshot version'')), db))"
  by (auto simp: Restore_def ReadFull_def header_ok_def take_drop min_def)

lemma header_ok_written: "header_ok (snapshot_header @ d)" "length snapshot_header = 16"
  by (simp_all add: header_ok_def snapshot_header_def snapshotMagic_def)

lemma snapshot_layout: "concat (snapshot_chunks M) = snapshot_header @ concat (buckets_chunks M (sorted_list_of_set (dom M))) @ PutUint32 0"
  by (simp add: snapshot_chunks_def)





text \<open>
  C6: Writing a database to a buffer and opening a file with these bytes gives a database that holds
  the same buckets with the same pairs; the count returned is the length of the stream.
\<close>

theorem snapshot_roundtrip:
  assumes "db_holds db M" and "storable M" and "sched_ok sched" and "\<not> ReadOnly opts"
  shows "\<exists>tx db1 out tx' db'. Begin False db = Some (Inr tx, db1) \<and>
     WriteTo buffer_Write [] (db1, tx) = Inr ((of_nat (length out), None), out, (db1, tx')) \<and>
     Open sched (Some (Some \<lparr>fcontent = \<lparr>rdata = out, rend = io_EOF\<rparr>, fseek = None\<rparr>)) (Some opts) = Some (Inr (Inr db')) \<and>
     db_holds db' M"
proof -
  obtain st db1 where b: "Begin False db = Some (Inr (new_tx False st), db1)"
    "tx_holds (length (nodes db)) (db1, new_tx False st) M M"
    using Begin_read [OF assms(1)] by blast
  let ?d = "concat (buckets_chunks M (sorted_list_of_set (dom M))) @ PutUint32 0" and ?out = "concat (snapshot_chunks M)"
  let ?rd = "\<lparr>rdata = ?out, rend = io_EOF\<rparr>" and ?db = "open_empty (Some opts)"
  obtain tx' where w: "WriteTo buffer_Write [] (db1, new_tx False st) = Inr ((of_nat (length ?out), None), ?out, (db1, tx'))"
    using serializeSnapshot_spec [OF b(2), of buffer_Write "[]"] by (auto simp: WriteTo_def buffer_Writes)
  have "M |` dom M = M" by (rule ext) (simp add: restrict_map_def domIff)
  moreover have "finite (dom M)" using assms(2) by (simp add: storable_def)
  ultimately have sp: "spec_restore \<lparr>rdata = ?d, rend = io_EOF\<rparr> Map.empty = (Returned None, M)"
    using spec_restore_prefix [of "\<lparr>rdata = ?d, rend = io_EOF\<rparr>" "[]" M "sorted_list_of_set (dom M)" Map.empty] assms(2)
    by simp
  have "\<not> readOnly ?db" using assms(4) by (simp add: open_empty_def db_init_def)
  note fresh = open_empty_holds open_empty_ready(3) this open_empty_ready(2)
  obtain db' where u: "Update sched (restore_buckets \<lparr>rdata = ?d, rend = io_EOF\<rparr>) ?db = Some (Returned None, db')" "db_holds db' M"
    using Update_atomic [OF fresh restore_implements assms(3), of "\<lparr>rdata = ?d, rend = io_EOF\<rparr>"] sp by (auto simp: commit_view_def)
  have "Restore sched ?rd ?db = Some (Returned None, db')"
    using u(1) header_ok_written by (simp add: Restore_header snapshot_layout)
  then have "Open sched (Some (Some \<lparr>fcontent = ?rd, fseek = None\<rparr>)) (Some opts) = Some (Inr (Inr db'))"
    by (simp add: Open_def maybeRestore_def snapshot_layout snapshot_header_def snapshotMagic_def)
  then show ?thesis using b(1) w u(2) by blast
qed

theorem snapshot_roundtrip_witness:
  "\<exists>out db'. Open (\<lambda>s. std_env (snd s)) (Some (Some \<lparr>fcontent = \<lparr>rdata = out, rend = io_EOF\<rparr>, fseek = None\<rparr>)) (Some DefaultOptions) =
     Some (Inr (Inr db')) \<and> db_holds db' [[98] \<mapsto> [([1], [7])]]"
proof -
  obtain db where "db_holds db [[98] \<mapsto> [([1], [7])]]"
    using Update_atomic [OF open_empty_holds open_empty_ready(3,1,2) run_ops_implements std_sched_ok, of example_prog]
      example_prog_spec by (auto simp: commit_view_def)
  moreover have "storable [[98] \<mapsto> [([1], [7])]]" by (auto simp: storable_def put_error_None MaxKeySize_def MaxValueSize_def split: if_splits)
  moreover have "\<not> ReadOnly DefaultOptions" by (simp add: DefaultOptions_def)
  ultimately show ?thesis using snapshot_roundtrip [OF _ _ std_sched_ok] by blast
qed

text \<open>
  C8: \<^verbatim>\<open>Restore\<close> of a stream that was cut short anywhere returns an error, whatever error the reader
  ends with, and the database holds what it held.
\<close>

theorem truncated_stream_rejected:
  assumes "db_holds db N" and "\<not> readOnly db" and "\<not> rwlock db" and "storable M"
    and "p @ q = concat (snapshot_chunks M)" and "q \<noteq> []" and "dom M \<inter> dom N = {}"
  shows "\<exists>err db'. Restore sched \<lparr>rdata = p, rend = e\<rparr> db = Some (Returned (Some err), db') \<and> db_holds db' N \<and> \<not> rwlock db'"
proof (cases "header_ok p")
  case True
  let ?d = "concat (buckets_chunks M (sorted_list_of_set (dom M))) @ PutUint32 0" and ?rd = "\<lparr>rdata = drop 16 p, rend = e\<rparr>"
  have "16 \<le> length p" using True by (simp add: header_ok_def)
  then have "rdata ?rd @ q = ?d"
    using arg_cong [OF assms(5), of "drop 16"] header_ok_written(2) by (simp add: snapshot_layout)
  moreover have "finite (dom M)" using assms(4) by (simp add: storable_def)
  ultimately obtain err r where r: "spec_restore ?rd N = (Returned (Some err), r)"
    using spec_restore_prefix [of ?rd q M "sorted_list_of_set (dom M)" N] assms(4,6,7) by auto
  show ?thesis
    using Update_aborts [OF assms(1-3) restore_implements, of ?rd sched] r True by (auto simp: Restore_header)
qed (use assms(1,3) in \<open>auto simp: Restore_header\<close>)

theorem truncated_stream_rejected_witness:
  "\<exists>err db'. Restore (\<lambda>s. std_env (snd s)) \<lparr>rdata = snapshot_header, rend = io_EOF\<rparr> (open_empty None) = Some (Returned (Some err), db') \<and> db_holds db' Map.empty"
  using truncated_stream_rejected [OF open_empty_holds open_empty_ready(1,2), of Map.empty snapshot_header "PutUint32 0" "\<lambda>s. std_env (snd s)" io_EOF]
  by (auto simp: storable_def snapshot_chunks_def buckets_chunks_def PutUint32_def)

text \<open>
  C32: A snapshot cannot be opened read-only: \<^verbatim>\<open>Open\<close> restores through \<^verbatim>\<open>Update\<close>, which a read-only
  database refuses.
\<close>

theorem read_only_open_fails:
  assumes "ReadOnly opts" and "header_ok (rdata (fcontent f))" and "fseek f = None"
  shows "Open sched (Some (Some f)) (Some opts) =
     Some (Inr (Inl (Wrapf ''vmbolt: restore snapshot'' ErrDatabaseReadOnly)))"
proof -
  have "Update sched fn (open_empty (Some opts)) = Some (Returned (Some ErrDatabaseReadOnly), open_empty (Some opts))" for fn
    using assms(1) by (simp add: Update_def Begin_def beginRWTx_def open_empty_def db_init_def Let_def)
  moreover have "rdata (fcontent f) \<noteq> []" "take 4 (rdata (fcontent f)) = snapshotMagic" "16 \<le> length (rdata (fcontent f))"
    using assms(2) by (auto simp: header_ok_def)
  ultimately show ?thesis using assms(2,3) by (simp add: Open_def maybeRestore_def Restore_header)
qed

theorem read_only_open_fails_witness:
  "Open (\<lambda>s. std_env (snd s)) (Some (Some \<lparr>fcontent = \<lparr>rdata = snapshot_header @ PutUint32 0, rend = io_EOF\<rparr>, fseek = None\<rparr>))
     (Some \<lparr>ReadOnly = True, NoStatistics = False\<rparr>) =
   Some (Inr (Inl (Wrapf ''vmbolt: restore snapshot'' ErrDatabaseReadOnly)))"
  using read_only_open_fails [of "\<lparr>ReadOnly = True, NoStatistics = False\<rparr>"
      "\<lparr>fcontent = \<lparr>rdata = snapshot_header @ PutUint32 0, rend = io_EOF\<rparr>, fseek = None\<rparr>" "\<lambda>s. std_env (snd s)"] header_ok_written(1)
  by simp

text \<open>
  C33: A snapshot file with an absurd value length makes \<^verbatim>\<open>Open\<close> panic instead of returning an
  error: the length is handed to \<^verbatim>\<open>make\<close> unchecked.
\<close>

theorem huge_value_length_panics:
  "Open sched (Some (Some \<lparr>fcontent = \<lparr>rdata = snapshot_header @ PutUint32 1 @ [98] @ PutUint32 1 @ [1] @ PutUint64 (2 ^ 63),
     rend = io_EOF\<rparr>, fseek = None\<rparr>)) None = Some (Inl (Panic ''restore''))"
proof -
  define d where "d = PutUint32 1 @ [98] @ PutUint32 1 @ [1] @ PutUint64 (2 ^ 63)"
  define rd where "rd = \<lparr>rdata = d, rend = io_EOF\<rparr>"
  define rd1 where "rd1 = \<lparr>rdata = drop 5 d, rend = io_EOF\<rparr>"
  have n: "read_name rd = (Got [98], rd1)" by (simp add: rd_def rd1_def d_def read_name_def ReadFull_def)
  have "read_pair rd1 = (Leave Panicked, \<lparr>rdata = [], rend = io_EOF\<rparr>)"
    by (simp add: rd1_def d_def read_pair_def ReadFull_def maxAlloc_def)
  then have "fst (spec_restore rd Map.empty) = Panicked"
    using n by (simp add: spec_restore.simps [of rd] spec_pairs.simps [of rd1])
  then obtain db' where "Update sched (restore_buckets rd) (open_empty None) = Some (Panicked, db')"
    using Update_aborts [OF open_empty_holds open_empty_ready(1,2) restore_implements, of rd sched] by auto
  then have "Restore sched \<lparr>rdata = snapshot_header @ d, rend = io_EOF\<rparr> (open_empty None) = Some (Panicked, db')"
    using header_ok_written by (simp add: Restore_header rd_def)
  then show ?thesis
    unfolding d_def by (simp add: Open_def maybeRestore_def snapshot_header_def snapshotMagic_def)
qed

end
