(* ===== verification/Vm_Check.thy ===== *)
theory Vm_Check
  imports Vm_DB
begin

text \<open>
  The consistency check of \<^verbatim>\<open>tx_check.go\<close>. An error is a constructor of \<open>check_error\<close> with the
  arguments of its message; keys in messages are rendered by the stringer of the configuration, which
  belongs to the caller. The walk keeps the stack of \<^verbatim>\<open>checkBucket\<close> with its top in front.
\<close>

section \<open>Configuration\<close>

record KVStringer =
  KeyToString :: "bytes \<Rightarrow> string"
  ValueToString :: "bytes \<Rightarrow> string"

definition hex_digit :: "byte \<Rightarrow> char" where
  "hex_digit d = ''0123456789abcdef'' ! unat d"

definition hex_EncodeToString :: "bytes \<Rightarrow> string" where
  "hex_EncodeToString bs = concat (map (\<lambda>b. [hex_digit (drop_bit 4 b), hex_digit (take_bit 4 b)]) bs)"

definition HexKVStringer :: KVStringer where
  "HexKVStringer = \<lparr>KeyToString = hex_EncodeToString, ValueToString = hex_EncodeToString\<rparr>"

record checkConfig =
  kvStringer :: "KVStringer option"
  pageId :: "64 word"

type_synonym CheckOption = "checkConfig \<Rightarrow> checkConfig"

definition WithKVStringer :: "KVStringer option \<Rightarrow> CheckOption" where
  "WithKVStringer ks c = c\<lparr>kvStringer := ks\<rparr>"

definition WithPageId :: "64 word \<Rightarrow> CheckOption" where
  "WithPageId p c = c\<lparr>pageId := p\<rparr>"

definition newCheckConfig :: "CheckOption list \<Rightarrow> checkConfig" where
  "newCheckConfig opts =
     (let c = fold (\<lambda>o' c. o' c) opts \<lparr>kvStringer = Some HexKVStringer, pageId = 0\<rparr>
      in if kvStringer c = None then c\<lparr>kvStringer := Some HexKVStringer\<rparr> else c)"

section \<open>Errors\<close>

datatype check_error =
    NoSnapshot | NilDbState | NilState bytes
  | NilNode bytes | SharedNode bytes addr
  | NilChild bytes addr nat
  | ChildEmpty bytes addr addr string
  | Separator bytes string addr string
  | EmptyKey bytes addr nat
  | NotAscending bytes addr nat string string
  | LeafChild bytes addr nat
  | BranchValue bytes addr nat

section \<open>The checks\<close>

definition checkDBState :: "(bytes \<times> bucketState option) list option \<Rightarrow> check_error list" where
  "checkDBState s = (case s of
     None \<Rightarrow> [NilDbState]
   | Some bs \<Rightarrow> concat (map (\<lambda>(nm, b). if b = None then [NilState nm] else []) bs))"

fun checkNode_loop :: "bytes \<Rightarrow> addr \<Rightarrow> bool \<Rightarrow> KVStringer \<Rightarrow> nat \<Rightarrow> bytes \<Rightarrow> inode list \<Rightarrow> check_error list" where
  "checkNode_loop nm n leaf ks i prev [] = []"
| "checkNode_loop nm n leaf ks i prev (x # xs) =
     (if length (ikey x) = 0 then [EmptyKey nm n i] else []) @
     (if 0 < i \<and> bytes_Compare (ikey x) prev \<le> 0
      then [NotAscending nm n i (KeyToString ks prev) (KeyToString ks (ikey x))] else []) @
     (if leaf then (if ichild x \<noteq> None then [LeafChild nm n i] else [])
      else (if ichild x = None then [NilChild nm n i] else []) @ (if length (ivalue x) \<noteq> 0 then [BranchValue nm n i] else [])) @
     checkNode_loop nm n leaf ks (Suc i) (ikey x) xs"

definition checkNode :: "bytes \<Rightarrow> heap \<Rightarrow> addr \<Rightarrow> KVStringer \<Rightarrow> check_error list" where
  "checkNode nm h n ks = checkNode_loop nm n (isLeaf (h ! n)) ks 0 [] (inodes (h ! n))"

text \<open>The loop over the entries of a branch: errors, and the children pushed on the stack.\<close>

fun check_children ::
  "bytes \<Rightarrow> heap \<Rightarrow> addr \<Rightarrow> KVStringer \<Rightarrow> nat \<Rightarrow> inode list \<Rightarrow> addr option list \<Rightarrow> check_error list \<times> addr option list" where
  "check_children nm h n ks i [] st = ([], st)"
| "check_children nm h n ks i (x # xs) st =
     (case ichild x of
        None \<Rightarrow> (case check_children nm h n ks (Suc i) xs st of (es, st) \<Rightarrow> (NilChild nm n i # es, st))
      | Some c \<Rightarrow>
          if length (inodes (h ! c)) = 0
          then (case check_children nm h n ks (Suc i) xs st of
                  (es, st) \<Rightarrow> (ChildEmpty nm c n (KeyToString ks (ikey x)) # es, st))
          else (case check_children nm h n ks (Suc i) xs (Some c # st) of
                  (es, st) \<Rightarrow>
                    ((if ikey x \<noteq> ikey (inodes (h ! c) ! 0)
                      then [Separator nm (KeyToString ks (ikey x)) c (KeyToString ks (ikey (inodes (h ! c) ! 0)))] else []) @ es, st)))"

fun check_walk :: "nat \<Rightarrow> bytes \<Rightarrow> heap \<Rightarrow> KVStringer \<Rightarrow> addr option list \<Rightarrow> addr set \<Rightarrow> check_error list res" where
  "check_walk f nm h ks [] visited = Inr []"
| "check_walk 0 nm h ks (x # st) visited = Inl OutOfFuel"
| "check_walk (Suc f) nm h ks (None # st) visited =
     rbind (check_walk f nm h ks st visited) (\<lambda>es. Inr (NilNode nm # es))"
| "check_walk (Suc f) nm h ks (Some n # st) visited =
     (if n \<in> visited then rbind (check_walk f nm h ks st visited) (\<lambda>es. Inr (SharedNode nm n # es))
      else (case (if isLeaf (h ! n) then ([], st) else check_children nm h n ks 0 (inodes (h ! n)) st) of
              (cs, st) \<Rightarrow>
                rbind (check_walk f nm h ks st (insert n visited)) (\<lambda>es. Inr (checkNode nm h n ks @ cs @ es))))"

text \<open>Every entry of every node is pushed at most once, after the root.\<close>

definition check_fuel :: "heap \<Rightarrow> nat" where
  "check_fuel h = Suc (sum_list (map (\<lambda>n. length (inodes n)) h))"

definition checkBucket :: "bytes \<Rightarrow> heap \<Rightarrow> bucketState option \<Rightarrow> checkConfig \<Rightarrow> check_error list res" where
  "checkBucket nm h bs cfg =
     (case bs of
        None \<Rightarrow> Inr [NilState nm]
      | Some st \<Rightarrow>
          (case root st of
             None \<Rightarrow> Inr []
           | Some r \<Rightarrow> check_walk (check_fuel h) nm h (the (kvStringer cfg)) [Some r] {}))"

definition sortedBucketNames :: "(bytes \<times> bucketState option) list \<Rightarrow> bytes list" where
  "sortedBucketNames bs = sort (map fst bs)"

text \<open>
  The stream of \<^verbatim>\<open>Check\<close>: the errors of the state first, in the order \<open>ord\<close> in which the map is
  ranged over, then those of the buckets, whose goroutines interleave as \<open>sched\<close> says: each number
  picks the goroutine that sends next.
\<close>

fun send_all :: "nat list \<Rightarrow> check_error list list \<Rightarrow> check_error list" where
  "send_all [] qs = concat qs"
| "send_all (i # is) qs =
     (if i < length qs \<and> qs ! i \<noteq> [] then hd (qs ! i) # send_all is (qs[i := tl (qs ! i)]) else send_all is qs)"

fun check_buckets :: "heap \<Rightarrow> (bytes \<times> bucketState option) list \<Rightarrow> checkConfig \<Rightarrow> bytes list \<Rightarrow> check_error list list res" where
  "check_buckets h bs cfg [] = Inr []"
| "check_buckets h bs cfg (nm # nms) =
     rbind (checkBucket nm h (case map_of bs nm of None \<Rightarrow> None | Some b \<Rightarrow> b) cfg)
       (\<lambda>es. rbind (check_buckets h bs cfg nms) (\<lambda>ess. Inr (es # ess)))"

definition Check :: "CheckOption list \<Rightarrow> (bytes \<times> bucketState option) list \<Rightarrow> nat list \<Rightarrow> txst \<Rightarrow> check_error list res" where
  "Check opts ord sched s = (case s of (db, tx) \<Rightarrow>
     (let cfg = newCheckConfig opts
      in case base tx of
           None \<Rightarrow> Inr [NoSnapshot]
         | Some st \<Rightarrow>
             rbind (check_buckets (nodes db) (buckets st) cfg (sortedBucketNames (buckets st)))
               (\<lambda>ess. Inr (checkDBState (Some ord) @ send_all sched ess))))"

section \<open>What silence means\<close>

text \<open>
  A tree is \<open>node_ok\<close> when the keys of every node ascend and none is empty.
\<close>

fun node_ok :: "tree \<Rightarrow> bool" where
  "node_ok (Leaf a kvs) \<longleftrightarrow> ascending (map fst kvs) \<and> [] \<notin> fst ` set kvs"
| "node_ok (Branch a ets) \<longleftrightarrow> ascending (map fst ets) \<and> [] \<notin> fst ` set ets \<and> (\<forall>e\<in>set ets. node_ok (snd e))"

text \<open>Every pointer of the heap leads to a node of it.\<close>

definition closed :: "heap \<Rightarrow> bool" where
  "closed h \<longleftrightarrow> (\<forall>n\<in>set h. \<forall>i\<in>set (inodes n). case ichild i of None \<Rightarrow> True | Some c \<Rightarrow> c < length h)"

lemma closedD: "closed h \<Longrightarrow> a < length h \<Longrightarrow> i \<in> set (inodes (h ! a)) \<Longrightarrow> ichild i = Some c \<Longrightarrow> c < length h"
  unfolding closed_def by (force dest: nth_mem)

lemma checkNode_loop_nil:
  "checkNode_loop nm n leaf ks i prev xs = [] \<longleftrightarrow>
     (\<forall>x\<in>set xs. ikey x \<noteq> [] \<and> (if leaf then ichild x = None else ichild x \<noteq> None \<and> ivalue x = [])) \<and>
     ascending (if i = 0 then ikeys xs else prev # ikeys xs)"
proof (induction xs arbitrary: i prev)
  case (Cons x xs)
  have two: "ascending (a # b # ks) \<longleftrightarrow> a < b \<and> ascending (b # ks)" for a b :: bytes and ks by auto
  have "bytes_Compare (ikey x) prev \<le> 0 \<longleftrightarrow> \<not> prev < ikey x" by (auto simp: bytes_Compare_cases)
  then show ?case
    using Cons [of "Suc i" "ikey x"] by (cases "i = 0"; cases leaf) (auto simp: two simp del: sorted_wrt.simps)
qed simp

lemma check_children_nil:
  "check_children nm h n ks i xs st = ([], st') \<longleftrightarrow>
     (\<forall>x\<in>set xs. \<exists>c. ichild x = Some c \<and> inodes (h ! c) \<noteq> [] \<and> ikey x = ikey (hd (inodes (h ! c)))) \<and>
     st' = rev (map ichild xs) @ st"
  by (induction xs arbitrary: i st) (auto split: option.splits prod.splits simp: hd_conv_nth)

lemma check_children_stack: "set (snd (check_children nm h n ks i xs st)) \<subseteq> set st \<union> ichild ` set xs"
proof (induction xs arbitrary: i st)
  case (Cons x xs)
  then show ?case using Cons [of "Suc i" st] Cons [of "Suc i" "ichild x # st"] by (cases "ichild x") (auto simp: case_prod_beta)
qed simp

lemma check_children_length: "length (snd (check_children nm h n ks i xs st)) \<le> length st + length xs"
proof (induction xs arbitrary: i st)
  case (Cons x xs)
  then show ?case using Cons [of "Suc i" st] Cons [of "Suc i" "ichild x # st"] by (cases "ichild x") (simp_all add: case_prod_beta le_SucI)
qed simp

lemma pushed_closed:
  assumes "closed h" and "n < length h" and "set st2 \<subseteq> set st1 \<union> ichild ` set (inodes (h ! n))"
    and "\<forall>x\<in>set st1. \<forall>a. x = Some a \<longrightarrow> a < length h"
  shows "\<forall>x\<in>set st2. \<forall>a. x = Some a \<longrightarrow> a < length h"
proof (intro ballI allI impI)
  fix x a assume "x \<in> set st2" "x = Some a"
  then consider "Some a \<in> set st1" | i where "i \<in> set (inodes (h ! n))" "ichild i = Some a" using assms(3) by auto
  then show "a < length h" using assms(4) closedD [OF assms(1,2)] by cases blast+
qed

text \<open>The entries of the nodes not yet visited bound what can still be pushed.\<close>

definition unvisited :: "heap \<Rightarrow> addr set \<Rightarrow> nat" where
  "unvisited h visited = (\<Sum>a\<in>{..<length h} - visited. length (inodes (h ! a)))"

lemma unvisited_insert:
  assumes "n < length h" and "n \<notin> visited"
  shows "unvisited h visited = length (inodes (h ! n)) + unvisited h (insert n visited)"
proof -
  have eq: "{..<length h} - visited = insert n ({..<length h} - insert n visited)" using assms by auto
  show ?thesis unfolding unvisited_def eq by (rule sum.insert) auto
qed

lemma check_walk_returns:
  assumes "closed h" and "\<forall>x\<in>set st. \<forall>a. x = Some a \<longrightarrow> a < length h" and "length st + unvisited h visited \<le> f"
  shows "\<exists>es. check_walk f nm h ks st visited = Inr es"
  using assms(2,3)
proof (induction f arbitrary: st visited)
  case 0
  then show ?case by simp
next
  case (Suc f)
  show ?case
  proof (cases st)
    case (Cons x st1)
    show ?thesis
    proof (cases "\<exists>n. x = Some n \<and> n \<notin> visited")
      case True
      then obtain n where n: "x = Some n" "n \<notin> visited" by blast
      then have "n < length h" using Suc.prems(1) Cons by simp
      note u = unvisited_insert [OF this n(2)]
      let ?r = "if isLeaf (h ! n) then ([], st1) else check_children nm h n ks 0 (inodes (h ! n)) st1"
      have "length (snd ?r) \<le> length st1 + length (inodes (h ! n))" using check_children_length by simp
      then have "length (snd ?r) + unvisited h (insert n visited) \<le> f" using Suc.prems(2) Cons u by simp
      moreover have "set (snd ?r) \<subseteq> set st1 \<union> ichild ` set (inodes (h ! n))" using check_children_stack by simp
      then have "\<forall>x\<in>set (snd ?r). \<forall>a. x = Some a \<longrightarrow> a < length h"
        using pushed_closed [OF assms(1) \<open>n < length h\<close>] Suc.prems(1) Cons by simp
      ultimately obtain es where "check_walk f nm h ks (snd ?r) (insert n visited) = Inr es" using Suc.IH by blast
      then show ?thesis using Cons n by (cases ?r) (simp split del: if_split)
    next
      case False
      obtain es where "check_walk f nm h ks st1 visited = Inr es" using Suc Cons by fastforce
      then show ?thesis using Cons False by (cases x) auto
    qed
  qed simp
qed

text \<open>A silent walk has unfolded a forest: no address of it was seen before, and none twice.\<close>

definition forest :: "heap \<Rightarrow> addr set \<Rightarrow> tree list \<Rightarrow> bool" where
  "forest h visited ts \<longleftrightarrow>
     (\<forall>t\<in>set ts. repr h t \<and> tight t \<and> node_ok t) \<and> distinct (concat (map addrs ts)) \<and>
     set (concat (map addrs ts)) \<inter> visited = {}"

lemma distinct_concat_rev: "distinct (concat (map f (rev xs)) @ ys) \<longleftrightarrow> distinct (concat (map f xs) @ ys)"
proof (rule mset_eq_imp_distinct_iff)
  show "mset (concat (map f (rev xs)) @ ys) = mset (concat (map f xs) @ ys)" by (induction xs) auto
qed

lemma forest_rev: "forest h visited (rev cs @ ts) \<longleftrightarrow> forest h visited (cs @ ts)"
  using distinct_concat_rev [of addrs cs "concat (map addrs ts)"] by (simp add: forest_def del: distinct_append)

lemma forest_push:
  assumes "addrs t = n # concat (map addrs cs)" and "repr h t" and "tight t" and "node_ok t"
    and "\<forall>t'\<in>set cs. repr h t' \<and> tight t' \<and> node_ok t'"
  shows "forest h visited (t # ts) \<longleftrightarrow> n \<notin> visited \<and> forest h (insert n visited) (cs @ ts)"
  using assms by (auto simp: forest_def)

lemma all2_left: "list_all2 P xs ys \<Longrightarrow> x \<in> set xs \<Longrightarrow> \<exists>y\<in>set ys. P x y"
  by (induction rule: list_all2_induct) auto

lemma checkNode_silent:
  assumes "repr h t" and "node_ok t"
  shows "checkNode nm h (raddr t) ks = []"
proof (cases t)
  case (Leaf a kvs)
  have l: "list_all2 leaf_entry (inodes (h ! a)) kvs" "isLeaf (h ! a)" using assms(1) Leaf by simp_all
  have "ascending (ikeys (inodes (h ! a)))" "[] \<notin> set (ikeys (inodes (h ! a)))"
    unfolding entry_keys(1) [OF l(1), symmetric] using assms(2) Leaf by simp_all
  moreover have "\<forall>x\<in>set (inodes (h ! a)). ichild x = None" using all2_left [OF l(1)] by (fastforce simp: leaf_entry_def)
  ultimately show ?thesis using l(2) Leaf by (force simp: checkNode_def checkNode_loop_nil)
next
  case (Branch a ets)
  have l: "list_all2 branch_entry (inodes (h ! a)) ets" "\<not> isLeaf (h ! a)" using assms(1) Branch by simp_all
  have "ascending (ikeys (inodes (h ! a)))" "[] \<notin> set (ikeys (inodes (h ! a)))"
    unfolding entry_keys(2) [OF l(1), symmetric] using assms(2) Branch by simp_all
  moreover have "\<forall>x\<in>set (inodes (h ! a)). ichild x \<noteq> None \<and> ivalue x = []"
    using all2_left [OF l(1)] by (fastforce simp: branch_entry_def)
  ultimately show ?thesis using l(2) Branch by (force simp: checkNode_def checkNode_loop_nil)
qed

lemma forest_leaf:
  assumes "n < length h" and "isLeaf (h ! n)" and "checkNode nm h n ks = []" and "n \<notin> visited" and "forest h (insert n visited) ts"
  shows "\<exists>t. raddr t = n \<and> forest h visited (t # ts)"
proof -
  let ?kvs = "map (\<lambda>i. (ikey i, ivalue i)) (inodes (h ! n))"
  have c: "\<forall>x\<in>set (inodes (h ! n)). ikey x \<noteq> [] \<and> ichild x = None" "ascending (ikeys (inodes (h ! n)))"
    using assms(2,3) by (auto simp: checkNode_def checkNode_loop_nil)
  have "repr h (Leaf n ?kvs)" using assms(1,2) c(1) by (auto simp: leaf_entry_def list_all2_conv_all_nth)
  moreover have "node_ok (Leaf n ?kvs)" using c by (auto simp: comp_def)
  ultimately have "forest h visited (Leaf n ?kvs # ts)" using assms(4,5) by (auto simp: forest_def)
  then show ?thesis by (intro exI [of _ "Leaf n ?kvs"]) simp
qed

lemma forest_branch:
  assumes "n < length h" and "\<not> isLeaf (h ! n)" and "checkNode nm h n ks = []" and "n \<notin> visited"
    and "forest h (insert n visited) (rev cs @ ts)" and "map (\<lambda>t. Some (raddr t)) cs = map ichild (inodes (h ! n))"
    and "\<forall>x\<in>set (inodes (h ! n)). \<exists>c. ichild x = Some c \<and> inodes (h ! c) \<noteq> [] \<and> ikey x = ikey (hd (inodes (h ! c)))"
  shows "\<exists>t. raddr t = n \<and> forest h visited (t # ts)"
proof -
  let ?is = "inodes (h ! n)"
  let ?ets = "zip (ikeys ?is) cs"
  have len: "length cs = length ?is" using arg_cong [OF assms(6), of length] by simp
  have ch: "ichild (?is ! j) = Some (raddr (cs ! j))" if "j < length ?is" for j
    using arg_cong [OF assms(6), of "\<lambda>xs. xs ! j"] that len by simp
  have c: "\<forall>x\<in>set ?is. ikey x \<noteq> [] \<and> ivalue x = []" "ascending (ikeys ?is)"
    using assms(2,3) by (auto simp: checkNode_def checkNode_loop_nil)
  have f: "\<forall>t\<in>set cs. repr h t \<and> tight t \<and> node_ok t" using assms(5) by (auto simp: forest_def)
  have snd: "map snd ?ets = cs" "map fst ?ets = ikeys ?is" using len by simp_all
  have rp: "repr h (Branch n ?ets)"
    using assms(1,2) len ch c(1) f by (auto simp: list_all2_conv_all_nth branch_entry_def list_all_iff dest: set_zip_rightD)
  have "root_keys t \<noteq> [] \<and> hd (root_keys t) = k" if kt: "(k, t) \<in> set ?ets" for k t
  proof -
    obtain j where j: "j < length ?is" "k = ikey (?is ! j)" "t = cs ! j" using kt len by (auto simp: set_zip)
    have "root_keys t = ikeys (inodes (h ! raddr t))" using f j len repr_root_keys by auto
    moreover have "inodes (h ! raddr t) \<noteq> []" "k = ikey (hd (inodes (h ! raddr t)))"
      using assms(7) ch [OF j(1)] nth_mem [OF j(1)] j(2,3) by fastforce+
    ultimately show ?thesis by (simp add: hd_map)
  qed
  then have ti: "tight (Branch n ?ets)" using f by (auto dest: set_zip_rightD)
  have "[] \<notin> fst ` set ?ets" using c(1) by (force dest: set_zip_leftD)
  then have no: "node_ok (Branch n ?ets)" using c(2) f snd(2) by (auto dest: set_zip_rightD)
  have ad: "addrs (Branch n ?ets) = n # concat (map addrs cs)" 
    using arg_cong [OF snd(1), of "map addrs"] by (simp only: addrs.simps map_map comp_def)
  have "forest h (insert n visited) (cs @ ts)" using assms(5) by (simp only: forest_rev)
  then have "forest h visited (Branch n ?ets # ts)" using forest_push [OF ad rp ti no f] assms(4) by blast
  then show ?thesis by (intro exI [of _ "Branch n ?ets"]) simp
qed

lemma check_walk_sound:
  assumes "closed h" and "check_walk f nm h ks st visited = Inr []" and "\<forall>x\<in>set st. \<forall>a. x = Some a \<longrightarrow> a < length h"
  shows "\<exists>ts. map (\<lambda>t. Some (raddr t)) ts = st \<and> forest h visited ts"
  using assms(2,3)
proof (induction f arbitrary: st visited)
  case 0
  then show ?case by (cases st) (auto simp: forest_def)
next
  case (Suc f)
  show ?case
  proof (cases st)
    case Nil
    then show ?thesis by (auto simp: forest_def)
  next
    case (Cons x st1)
    obtain n where x: "x = Some n" "n \<notin> visited"
      using Suc.prems(1) Cons by (cases x) (auto simp: rbind_def split: if_splits sum.splits)
    have n: "n < length h" using Suc.prems(2) Cons x by simp
    obtain cs st2 where r: "(if isLeaf (h ! n) then ([], st1) else check_children nm h n ks 0 (inodes (h ! n)) st1) = (cs, st2)"
      by fastforce
    have nil: "checkNode nm h n ks = []" "cs = []" "check_walk f nm h ks st2 (insert n visited) = Inr []"
      using Suc.prems(1) Cons x r by (auto simp: rbind_def split: sum.splits)
    have "set st2 \<subseteq> set st1 \<union> ichild ` set (inodes (h ! n))"
      using r check_children_stack [of nm h n ks 0 "inodes (h ! n)" st1] by (auto split: if_splits)
    then have "\<forall>x\<in>set st2. \<forall>a. x = Some a \<longrightarrow> a < length h"
      using pushed_closed [OF assms(1) n] Suc.prems(2) Cons by simp
    then obtain ts where ts: "map (\<lambda>t. Some (raddr t)) ts = st2" "forest h (insert n visited) ts" using Suc.IH nil(3) by blast
    have "\<exists>t ts'. raddr t = n \<and> map (\<lambda>t. Some (raddr t)) ts' = st1 \<and> forest h visited (t # ts')"
    proof (cases "isLeaf (h ! n)")
      case True
      then show ?thesis using forest_leaf [OF n True nil(1) x(2) ts(2)] ts(1) r by auto
    next
      case False
      then have c: "\<forall>x\<in>set (inodes (h ! n)). \<exists>c. ichild x = Some c \<and> inodes (h ! c) \<noteq> [] \<and> ikey x = ikey (hd (inodes (h ! c)))"
        "st2 = rev (map ichild (inodes (h ! n))) @ st1"
        using r nil(2) check_children_nil by auto
      then obtain cs' ts' where ts': "ts = cs' @ ts'" "map (\<lambda>t. Some (raddr t)) cs' = rev (map ichild (inodes (h ! n)))"
        "map (\<lambda>t. Some (raddr t)) ts' = st1" using ts(1) by (auto simp: map_eq_append_conv)
      then have "map (\<lambda>t. Some (raddr t)) (rev cs') = map ichild (inodes (h ! n))" by (simp add: rev_map [symmetric])
      then show ?thesis using forest_branch [OF n False nil(1) x(2) _ _ c(1), of "rev cs'" ts'] ts(2) ts' by auto
    qed
    then obtain t ts' where "raddr t = n" "map (\<lambda>t. Some (raddr t)) ts' = st1" "forest h visited (t # ts')" by blast
    then show ?thesis using Cons x by (intro exI [of _ "t # ts'"]) simp
  qed
qed

lemma check_walk_complete:
  assumes "check_walk f nm h ks (map (\<lambda>t. Some (raddr t)) ts) visited = Inr es" and "forest h visited ts"
  shows "es = []"
  using assms
proof (induction f arbitrary: ts visited es)
  case 0
  then show ?case by (cases ts) auto
next
  case (Suc f)
  show ?case
  proof (cases ts)
    case (Cons t ts1)
    let ?n = "raddr t"
    have t: "repr h t" "tight t" "node_ok t" "?n \<notin> visited"
      using Suc.prems(2) Cons raddr_in_addrs [of t] by (auto simp: forest_def simp del: raddr_in_addrs)
    show ?thesis
    proof (cases t)
      case (Leaf a kvs)
      have "checkNode nm h a ks = []" using checkNode_silent [OF t(1,3)] Leaf by simp
      moreover have "forest h (insert a visited) ts1" using Suc.prems(2) Cons Leaf by (auto simp: forest_def)
      ultimately show ?thesis
        using Suc.prems(1) Suc.IH [of ts1 "insert a visited"] Cons Leaf t(1,4) by (auto simp: rbind_def split: sum.splits)
    next
      case (Branch a ets)
      let ?cs = "rev (map snd ets) @ ts1"
      have e: "list_all2 branch_entry (inodes (h ! a)) ets" "\<not> isLeaf (h ! a)" using t(1) Branch by simp_all
      have "checkNode nm h a ks = []" using checkNode_silent [OF t(1,3)] Branch by simp
      moreover have "check_children nm h a ks 0 (inodes (h ! a)) (map (\<lambda>t. Some (raddr t)) ts1) = ([], map (\<lambda>t. Some (raddr t)) ?cs)"
      proof -
        have "\<exists>c. ichild x = Some c \<and> inodes (h ! c) \<noteq> [] \<and> ikey x = ikey (hd (inodes (h ! c)))" if xin: "x \<in> set (inodes (h ! a))" for x
        proof -
          obtain e' where e': "e' \<in> set ets" "branch_entry x e'" using all2_left [OF e(1) xin] by blast
          have "repr h (snd e')" using t(1) Branch e'(1) by (auto simp: list_all_iff)
          then have "ikeys (inodes (h ! raddr (snd e'))) \<noteq> []" "hd (ikeys (inodes (h ! raddr (snd e')))) = fst e'"
            using t(2) Branch e'(1) repr_root_keys by auto
          then show ?thesis using e'(2) by (auto simp: branch_entry_def hd_map)
        qed
        moreover have "map ichild (inodes (h ! a)) = map (\<lambda>t. Some (raddr t)) (map snd ets)"
          using e(1) by (induction rule: list_all2_induct) (auto simp: branch_entry_def)
        ultimately show ?thesis by (simp add: check_children_nil rev_map)
      qed
      moreover have "forest h (insert a visited) (map snd ets @ ts1)"
        using Suc.prems(2) Cons Branch t(1-3) forest_push [of t a "map snd ets"] by (auto simp: comp_def list_all_iff)
      then have "forest h (insert a visited) ?cs" by (simp only: forest_rev)
      ultimately show ?thesis
        using Suc.prems(1) Suc.IH [of ?cs "insert a visited"] Cons Branch e(2) t(4)
        by (auto simp: rbind_def split: sum.splits)
    qed
  qed (use Suc.prems in auto)
qed

section \<open>Properties\<close>

lemma unvisited_all: "unvisited h {} = sum_list (map (\<lambda>n. length (inodes n)) h)"
  by (simp add: unvisited_def sum_list_sum_nth atLeast0LessThan)

text \<open>
  C16: On every heap, cyclic ones included, the check of a bucket returns. It reports nothing exactly
  when the nodes below the root form a tree in which no node is reached twice, the keys of every node
  ascend and are not empty, and every separator is the first key of a child with entries.
\<close>

theorem check_silent_iff_tree:
  assumes "closed h" and "r < length h"
  shows "\<exists>es. checkBucket nm h (Some \<lparr>root = Some r\<rparr>) cfg = Inr es \<and>
     (es = [] \<longleftrightarrow> (\<exists>t. raddr t = r \<and> repr h t \<and> distinct (addrs t) \<and> tight t \<and> node_ok t))"
proof -
  let ?ks = "the (kvStringer cfg)"
  obtain es where es: "check_walk (check_fuel h) nm h ?ks [Some r] {} = Inr es"
    using check_walk_returns [OF assms(1), of "[Some r]" "{}" "check_fuel h" nm ?ks] assms(2)
    by (auto simp: unvisited_all check_fuel_def simp del: check_walk.simps)
  have "\<exists>t. raddr t = r \<and> forest h {} [t]" if nil: "es = []"
    using check_walk_sound [OF assms(1) es [unfolded nil]] assms(2) by auto
  moreover have "es = []" if "raddr t = r" "forest h {} [t]" for t
    using check_walk_complete [of "check_fuel h" nm h ?ks "[t]"] es that by simp
  ultimately show ?thesis using es by (auto simp: checkBucket_def forest_def)
qed

theorem check_silent_iff_tree_witness:
  "checkBucket [98] (heap two_leaves) (Some \<lparr>root = Some 2\<rparr>) (newCheckConfig []) = Inr []"
proof -
  have "closed (heap two_leaves)" by code_simp
  moreover have "repr (heap two_leaves) two_leaves_tree" "distinct (addrs two_leaves_tree)" "tight two_leaves_tree" "node_ok two_leaves_tree"
    by code_simp+
  moreover have "raddr two_leaves_tree = 2" "2 < length (heap two_leaves)" by code_simp+
  ultimately show ?thesis using check_silent_iff_tree [of "heap two_leaves" 2 "[98]" "newCheckConfig []"] by force
qed

text \<open>A tree whose first leaf reaches into the range of its second.\<close>

definition overlapping :: wst where
  "overlapping = example_wst\<lparr>baseState := Some \<lparr>root = Some 2\<rparr>, heap :=
     [new_node\<lparr>isLeaf := True, nkey := [1], inodes :=
        [\<lparr>iflags = 0, ikey = [1], ivalue = [7], ichild = None\<rparr>, \<lparr>iflags = 0, ikey = [9], ivalue = [7], ichild = None\<rparr>]\<rparr>,
      new_node\<lparr>isLeaf := True, nkey := [5], inodes := [\<lparr>iflags = 0, ikey = [5], ivalue = [7], ichild = None\<rparr>]\<rparr>,
      new_node\<lparr>inodes := [\<lparr>iflags = 0, ikey = [1], ivalue = [], ichild = Some 0\<rparr>,
                          \<lparr>iflags = 0, ikey = [5], ivalue = [], ichild = Some 1\<rparr>]\<rparr>]\<rparr>"


end
