(* ===== verification/Vm_Flat.thy ===== *)
theory Vm_Flat
  imports Vm_Commit
begin

text \<open>
  Committing a bucket of two levels: a root branch over leaves.

  \<open>finalize\<close> is re-entrant: a child that is done calls its parent, which runs the loop over its
  children again from the start. The first dirty leaf therefore drives the whole commit, and the
  calls that are still open find everything done when they resume. \<open>flat_at\<close> is the invariant of
  this run. It is kept as long as the root does not split; when the root splits under a call that is
  still looping over its entries, the loop runs past the end.
\<close>

section \<open>Replacing an entry of a branch\<close>

abbreviation entries :: "tree list \<Rightarrow> (bytes \<times> tree) list" where
  "entries ts \<equiv> map (\<lambda>t. (first_key t, t)) ts"

lemma ok_upper: "ok lo (Some u) t \<Longrightarrow> u \<le> u' \<Longrightarrow> ok lo (Some u') t"
  and oks_upper: "oks lo (Some u) ets \<Longrightarrow> u \<le> u' \<Longrightarrow> oks lo (Some u') ets"
proof (induction lo "Some u" t and lo "Some u" ets rule: ok_oks.induct)
  case (1 lo a kvs)
  then show ?case by (auto simp: list_all_iff bnd_def)
qed (auto simp: bnd_def)

lemma oks_join:
  assumes "oks lo (Some (fst (hd ys))) xs" and "oks (fst (hd ys)) hi ys" and "xs \<noteq> []" and "ys \<noteq> []"
    and "bnd lo hi (fst (hd ys))"
  shows "oks lo hi (xs @ ys)"
proof (cases ys)
  case (Cons y zs)
  then show ?thesis using assms oks_append [of xs lo hi "fst y" "snd y" zs] by simp
qed (use assms in simp)

lemma oks_graft:
  assumes "oks lo hi (xs @ (k, t) # ys)" and "ps \<noteq> []" and "k1 = fst (hd ps)" and "oks (lo_of xs lo k1) (hi_of ys hi) ps"
    and "xs \<noteq> [] \<Longrightarrow> k \<le> k1"
  shows "oks lo hi (xs @ ps @ ys)"
proof -
  let ?L = "lo_of xs lo k1"
  have s: "xs \<noteq> [] \<longrightarrow> oks lo (Some k) xs" "oks (lo_of xs lo k) hi ((k, t) # ys)"
    using assms(1) oks_split [of lo hi xs k t ys] by blast+
  have h: "bnd ?L (hi_of ys hi) k1" using oks_hd_bnd [OF assms(4,2)] assms(3) by simp
  have "oks ?L hi (ps @ ys)"
  proof (cases ys)
    case (Cons y zs)
    have "bnd ?L hi (fst y)" "oks (fst y) hi ys"
      using s(2) Cons h oks_hd_bnd [of "fst y" hi ys] by (cases y; auto simp: oks_Cons bnd_def)+
    then show ?thesis using oks_join [of ?L ys ps hi] assms(2,4) Cons by (cases y) simp
  qed (use assms(4) in simp)
  moreover have "oks lo hi (xs @ ps @ ys)" if x: "xs \<noteq> []"
  proof (rule oks_join)
    show "oks lo (Some (fst (hd (ps @ ys)))) xs" using s(1) x assms(2,3,5) oks_upper by (metis hd_append2)
    show "oks (fst (hd (ps @ ys))) hi (ps @ ys)" using calculation x assms(2,3) by simp
    have "lo \<le> k" using s(1) x assms(1) oks_ascending_seps oks_hd_bnd [OF assms(1)] by (cases xs) (fastforce simp: bnd_def)+
    moreover have "bnd k1 hi k1" using \<open>oks ?L hi (ps @ ys)\<close> x oks_hd_bnd [of k1 hi "ps @ ys"] assms(2,3) by simp
    ultimately show "bnd lo hi (fst (hd (ps @ ys)))" using x assms(2,3,5) by (auto simp: bnd_def)
  qed (use x assms(2) in simp_all)
  ultimately show ?thesis by (cases "xs = []") simp_all
qed

text \<open>The position of an entry splits the inodes of its branch at the key of the entry.\<close>

lemma branch_at:
  assumes "list_all2 branch_entry is (xs @ (k, t) # ys)" and "ascending (ikeys is)"
  shows "\<exists>A i B. is = A @ i # B \<and> list_all2 branch_entry A xs \<and> branch_entry i (k, t) \<and> list_all2 branch_entry B ys \<and>
     filter (\<lambda>i. ikey i < k) is = A \<and> filter (\<lambda>i. k < ikey i) is = B"
proof -
  obtain A is' where a: "is = A @ is'" "list_all2 branch_entry A xs" "list_all2 branch_entry is' ((k, t) # ys)"
    using assms(1) by (auto simp: list_all2_append2)
  then obtain i B where i: "is' = i # B" "branch_entry i (k, t)" "list_all2 branch_entry B ys" by (auto simp: list_all2_Cons2)
  have k: "ikey i = k" using i(2) by (simp add: branch_entry_def)
  have o: "\<forall>x\<in>set A. ikey x < k" "\<forall>x\<in>set B. k < ikey x" using assms(2) a(1) i(1) k by (auto simp: ascending_append)
  then have "filter (\<lambda>i. ikey i < k) is = A" "filter (\<lambda>i. k < ikey i) is = B"
    using a(1) i(1) k by (auto simp: filter_empty_conv filter_id_conv less_le_not_le)
  then show ?thesis using a i by blast
qed

lemma intree_fields:
  assumes "intree h D t" and "length h \<le> length h'"
    and "\<forall>b\<in>set (addrs t). isLeaf (h' ! b) = isLeaf (h ! b) \<and> inodes (h' ! b) = inodes (h ! b) \<and>
           nkey (h' ! b) = nkey (h ! b) \<and> parent (h' ! b) = parent (h ! b)"
  shows "intree h' D t"
  using assms
proof (induction t)
  case (Leaf a kvs)
  then show ?case by (simp add: intree_def)
next
  case (Branch a ets)
  have "wchild h' D a e \<and> intree h' D (snd e)" if e: "e \<in> set ets" for e
  proof -
    have sub: "set (addrs (snd e)) \<subseteq> set (addrs (Branch a ets))" using e by force
    have "wchild h D a e" "intree h D (snd e)" using Branch.prems(1) e unfolding intree_Branch by blast+
    moreover have "raddr (snd e) \<in> set (addrs (Branch a ets))" using sub raddr_in_addrs by blast
    ultimately show ?thesis
      using Branch.IH [of "fst e" "snd e"] Branch.prems(2,3) e sub by (auto simp: wchild_def)
  qed
  then show ?case using Branch.prems unfolding intree_Branch by auto
qed

section \<open>The invariant of the run\<close>

definition pending :: "wst \<Rightarrow> bytes \<times> tree \<Rightarrow> bool" where
  "pending w e \<longleftrightarrow> raddr (snd e) \<in> dirty w \<and> \<not> spilled (heap w ! raddr (snd e))"

fun full_leaf :: "tree \<Rightarrow> bool" where
  "full_leaf (Leaf a kvs) \<longleftrightarrow> kvs \<noteq> []"
| "full_leaf (Branch a ets) \<longleftrightarrow> False"

definition flat_at :: "wst \<Rightarrow> addr \<Rightarrow> (bytes \<times> tree) list \<Rightarrow> bool" where
  "flat_at w n ets \<longleftrightarrow>
     intree (heap w) (dirty w) (Branch n ets) \<and> btree (Branch n ets) \<and> keys_ok (Branch n ets) \<and> owned w \<and>
     n \<in> dirty w \<and> parent (heap w ! n) = None \<and>
     (\<forall>e\<in>set ets. full_leaf (snd e) \<and> (pending w e \<or> fst e = first_key (snd e)))"

lemma flat_child:
  assumes "flat_at w n (xs @ (k, Leaf c kvs) # ys)" and "pending w (k, Leaf c kvs)"
  shows "c \<in> dirty w" and "c < length (heap w)" and "n < length (heap w)" and "c \<noteq> n" and "parent (heap w ! c) = Some n"
    and "nkey (heap w ! c) = k" and "k \<noteq> []" and "repr (heap w) (Leaf c kvs)" and "kvs \<noteq> []" and "\<not> spilled (heap w ! c)"
    and "ascending (ikeys (inodes (heap w ! n)))" and "list_all2 branch_entry (inodes (heap w ! n)) (xs @ (k, Leaf c kvs) # ys)"
    and "[] \<notin> fst ` set kvs"
proof -
  let ?e = "(k, Leaf c kvs)"
  have f: "intree (heap w) (dirty w) (Branch n (xs @ ?e # ys))" "btree (Branch n (xs @ ?e # ys))"
    "keys_ok (Branch n (xs @ ?e # ys))" "full_leaf (Leaf c kvs)"
    using assms(1) by (simp_all add: flat_at_def)
  have b: "n < length (heap w)" "list_all2 branch_entry (inodes (heap w ! n)) (xs @ ?e # ys)"
    "wchild (heap w) (dirty w) n ?e" "intree (heap w) (dirty w) (Leaf c kvs)"
    using f(1) unfolding intree_Branch by auto
  show "c \<in> dirty w" "\<not> spilled (heap w ! c)" using assms(2) by (simp_all add: pending_def)
  then show "parent (heap w ! c) = Some n" "nkey (heap w ! c) = k" using b(3) by (simp_all add: wchild_def)
  show "c < length (heap w)" "repr (heap w) (Leaf c kvs)" using b(4) by (simp_all add: intree_def)
  show "n < length (heap w)" "list_all2 branch_entry (inodes (heap w ! n)) (xs @ ?e # ys)" using b(1,2) by blast+
  show "c \<noteq> n" using f(2) by (auto simp: btree_def)
  show "k \<noteq> []" "[] \<notin> fst ` set kvs" using f(3) by (auto simp: keys_ok_def tkeys_def)
  show "kvs \<noteq> []" using f(4) by simp
  have "ascending (map fst (xs @ ?e # ys))" using f(2) oks_ascending_seps unfolding btree_def ok.simps by blast
  then show "ascending (ikeys (inodes (heap w ! n)))" using entry_keys(2) [OF b(2)] by simp
qed

text \<open>Where the parts of the leaf go.\<close>

lemma leaf_range:
  assumes "btree (Branch n (xs @ (k, Leaf c kvs) # ys))" and "kvs \<noteq> []" and "k1 = fst (hd kvs)"
  shows "ok (lo_of xs [] k1) (hi_of ys None) (Leaf c kvs)" and "xs \<noteq> [] \<Longrightarrow> k \<le> k1"
proof -
  have "oks [] None (xs @ (k, Leaf c kvs) # ys)" using assms(1) by (simp add: btree_def)
  then have o: "ok (lo_of xs [] k) (hi_of ys None) (Leaf c kvs)" using oks_split [of "[]" None xs k "Leaf c kvs" ys] by (auto simp: oks_Cons)
  then show "xs \<noteq> [] \<Longrightarrow> k \<le> k1" using assms(2,3) by (cases kvs) (auto simp: bnd_def)
  have "\<forall>p\<in>set kvs. k1 \<le> fst p" using o assms(2,3) by (cases kvs) (auto simp: less_imp_le)
  then show "ok (lo_of xs [] k1) (hi_of ys None) (Leaf c kvs)" using o by (auto simp: list_all_iff bnd_def lo_of_def)
qed

lemma leaf_step_run:
  assumes "flat_at w n (xs @ (k, Leaf c kvs) # ys)" and "pending w (k, Leaf c kvs)" and "split c w = (cs, w1)"
  shows "\<exists>ts w2 A i B. map raddr ts = cs \<and> (\<forall>t\<in>set ts. full_leaf t) \<and>
     parts (heap w1) (lo_of xs [] (fst (hd kvs))) (hi_of ys None) (Leaf c kvs) ts \<and> oks [] None (xs @ entries ts @ ys) \<and>
     inodes (heap w ! n) = A @ i # B \<and> list_all2 branch_entry A xs \<and> list_all2 branch_entry B ys \<and>
     finalize_nodes cs w1 = Inr w2 \<and> (\<forall>a\<in>set cs. heap w2 ! a = spilled_node (heap w1 ! a)) \<and>
     heap w2 ! n = (heap w ! n)\<lparr>inodes := A @ map (child_entry (heap w1)) cs @ B\<rparr> \<and>
     (\<forall>b<length (heap w). b \<noteq> c \<longrightarrow> b \<noteq> n \<longrightarrow> heap w2 ! b = heap w ! b) \<and>
     length (heap w2) = length (heap w1) \<and> dirty w2 = dirty w1 \<and> rootNode w2 = rootNode w1 \<and> FillPercent w2 = FillPercent w"
    (is "\<exists>ts w2 A i B. ?P ts w2 A i B")
proof -
  note c = flat_child [OF assms(1,2)]
  let ?k1 = "fst (hd kvs)"
  have bt: "btree (Branch n (xs @ (k, Leaf c kvs) # ys))" using assms(1) by (simp add: flat_at_def)
  have so: "split_of w c w1 cs" using split_spec [OF assms(3) c(2)] by blast
  have ine: "inodes (heap w ! c) \<noteq> []" using c(8,9) by auto
  obtain kvss where k: "length kvss = length cs" "concat kvss = kvs" "\<forall>t'\<in>set (map2 Leaf cs kvss). repr (heap w1) t'"
    "parts (heap w1) (lo_of xs [] ?k1) (hi_of ys None) (Leaf c kvs) (map2 Leaf cs kvss)"
    using leaf_parts [OF c(8) leaf_range(1) [OF bt c(9) refl] so ine] by blast
  let ?ts = "map2 Leaf cs kvss"
  have ra: "map raddr ?ts = cs" using k(1) by (intro nth_equalityI) auto
  have cs: "cs = c # tl cs" "?ts \<noteq> []" using so k(1) by (cases cs; auto simp: split_of_def)+
  have s: "n < length (heap w1)" "heap w1 ! n = heap w ! n" "n \<notin> set cs" "distinct cs"
    "\<forall>a\<in>set (tl cs). nkey (heap w1 ! a) = []" "nkey (heap w1 ! c) = k" "\<forall>a\<in>set cs. parent (heap w1 ! a) = Some n"
    "\<forall>b<length (heap w). b \<noteq> c \<longrightarrow> b \<notin> set cs \<and> heap w1 ! b = heap w ! b" "FillPercent w1 = FillPercent w"
  proof -
    have *: "set (tl cs) \<subseteq> {length (heap w)..<length (heap w1)}" using so by (simp add: split_of_def)
    then have new: "b \<notin> set cs" if "b < length (heap w)" "b \<noteq> c" for b using that cs(1) by (metis atLeastLessThan_iff linorder_not_less set_ConsD subsetD)
    then show "n \<notin> set cs" using c(3,4) by blast
    show "\<forall>b<length (heap w). b \<noteq> c \<longrightarrow> b \<notin> set cs \<and> heap w1 ! b = heap w ! b" using so new by (simp add: split_of_def)
    show "\<forall>a\<in>set cs. parent (heap w1 ! a) = Some n" using so c(5) by (auto simp: split_of_def)
  qed (use so c(3-6) in \<open>auto simp: split_of_def\<close>)
  have P: "\<forall>t'\<in>set ?ts. first_key t' = fkey (heap w1 ! raddr t') \<and> inodes (heap w1 ! raddr t') \<noteq> [] \<and>
      first_key t' \<in> tkeys (Leaf c kvs) \<and> repr (heap w1) t'"
    using k(3,4) unfolding parts_def by blast
  have kne: "[] \<notin> tkeys (Leaf c kvs)" using c(13) by (simp add: tkeys_def)
  have fk: "map (\<lambda>a. fkey (heap w1 ! a)) cs = map first_key ?ts" using P ra by (metis (no_types, lifting) map_cong map_map comp_apply)
  have A': "\<forall>a\<in>set (c # tl cs). parent (heap w1 ! a) = Some n \<and> a < length (heap w1) \<and> inodes (heap w1 ! a) \<noteq> [] \<and> fkey (heap w1 ! a) \<noteq> []"
  proof
    fix a assume "a \<in> set (c # tl cs)"
    then have a: "a \<in> set cs" using cs(1) by simp
    then have "a \<in> set (map raddr ?ts)" by (simp only: ra)
    then obtain t' where t': "t' \<in> set ?ts" "raddr t' = a" unfolding set_map by blast
    then have "a < length (heap w1)" using P repr_raddr by blast
    moreover have "fkey (heap w1 ! a) \<noteq> []" using P t' kne by metis
    ultimately show "parent (heap w1 ! a) = Some n \<and> a < length (heap w1) \<and> inodes (heap w1 ! a) \<noteq> [] \<and> fkey (heap w1 ! a) \<noteq> []"
      using s(7) a P t' by blast
  qed
  have hd: "fst (hd (entries ?ts)) = ?k1"
  proof -
    have "hd kvss \<noteq> []" "concat kvss = kvs" "kvss \<noteq> []" using P cs k(1,2) by (cases cs; cases kvss; auto simp: fkey_def)+
    then have "hd kvs = hd (hd kvss)" by (cases kvss) auto
    then show ?thesis using cs k(1) by (cases cs; cases kvss) auto
  qed
  have gr: "oks [] None (xs @ entries ?ts @ ys)"
  proof (rule oks_graft)
    show "oks [] None (xs @ (k, Leaf c kvs) # ys)" using bt by (simp add: btree_def)
    show "oks (lo_of xs [] ?k1) (hi_of ys None) (entries ?ts)" using k(4) unfolding parts_def by blast
  qed (use cs(2) hd leaf_range(2) [OF bt c(9) refl] in \<open>simp_all del: map_map\<close>)
  obtain A i B where ab: "inodes (heap w ! n) = A @ i # B" "list_all2 branch_entry A xs" "list_all2 branch_entry B ys"
    "filter (\<lambda>i. ikey i < k) (inodes (heap w ! n)) = A" "filter (\<lambda>i. k < ikey i) (inodes (heap w ! n)) = B"
    using branch_at [OF c(12,11)] by blast
  have "ascending (map fst (xs @ entries ?ts @ ys))" by (rule oks_ascending_seps [OF gr])
  then have asc: "ascending (ikeys A @ map (\<lambda>a. fkey (heap w1 ! a)) (c # tl cs) @ ikeys B)"
    unfolding cs(1) [symmetric] fk using entry_keys(2) [OF ab(2)] entry_keys(2) [OF ab(3)] by (simp add: comp_def)
  obtain w2 where w2: "finalize_nodes (c # tl cs) w1 = Inr w2"
    "\<forall>a\<in>set (c # tl cs). heap w2 ! a = spilled_node (heap w1 ! a)"
    "heap w2 ! n = (heap w1 ! n)\<lparr>inodes := A @ map (child_entry (heap w1)) (c # tl cs) @ B\<rparr>"
    "\<forall>b. b \<notin> set (c # tl cs) \<longrightarrow> b \<noteq> n \<longrightarrow> heap w2 ! b = heap w1 ! b"
    "length (heap w2) = length (heap w1)" "dirty w2 = dirty w1" "rootNode w2 = rootNode w1" "FillPercent w2 = FillPercent w1"
    using finalize_parts_spec [OF A' s(5,1), of k A B] s(2-4,6) cs(1) c(7,11) ab(4,5) asc by auto
  moreover have "\<forall>t\<in>set ?ts. full_leaf t"
  proof
    fix t assume t: "t \<in> set ?ts"
    then obtain a ps where "t = Leaf a ps" by auto
    then show "full_leaf t" using P t by fastforce
  qed
  moreover have "\<forall>b<length (heap w). b \<noteq> c \<longrightarrow> b \<noteq> n \<longrightarrow> heap w2 ! b = heap w ! b" using w2(4) s(8) cs(1) by simp
  ultimately have "?P ?ts w2 A i B"
    unfolding cs(1) [symmetric] using k(4) gr ab(1-3) s(2,8,9) ra by (intro conjI) (simp_all only:)
  then show ?thesis by (intro exI)
qed

text \<open>One leaf done: its entry gives way to the entries of its parts, and one leaf fewer is pending.\<close>

definition pendings :: "wst \<Rightarrow> (bytes \<times> tree) list \<Rightarrow> nat" where
  "pendings w ets = length (filter (pending w) ets)"

lemma leaf_step:
  assumes "flat_at w n (xs @ (k, Leaf c kvs) # ys)" (is "flat_at w n ?ets") and "pending w (k, Leaf c kvs)"
    and "split c w = (cs, w1)" and "finalize_nodes cs w1 = Inr w2"
  shows "\<exists>ts. flat_at w2 n (xs @ entries ts @ ys) \<and> map raddr ts = cs \<and> concat (map items ts) = kvs \<and>
     pendings w2 (xs @ entries ts @ ys) < pendings w ?ets \<and> evolves w w2 \<and> rootNode w2 = rootNode w \<and>
     parent (heap w2 ! c) = Some n \<and> set cs \<subseteq> insert c {length (heap w)..} \<and>
     heap w2 ! n = (heap w ! n)\<lparr>inodes := take (length xs) (inodes (heap w ! n)) @ map (child_entry (heap w1)) cs @
       drop (Suc (length xs)) (inodes (heap w ! n))\<rparr>"
proof -
  note c = flat_child [OF assms(1,2)]
  obtain ts A i B where r: "map raddr ts = cs" "\<forall>t\<in>set ts. full_leaf t"
    "parts (heap w1) (lo_of xs [] (fst (hd kvs))) (hi_of ys None) (Leaf c kvs) ts"
    "oks [] None (xs @ entries ts @ ys)" "inodes (heap w ! n) = A @ i # B"
    "list_all2 branch_entry A xs" "list_all2 branch_entry B ys" "\<forall>a\<in>set cs. heap w2 ! a = spilled_node (heap w1 ! a)"
    "heap w2 ! n = (heap w ! n)\<lparr>inodes := A @ map (child_entry (heap w1)) cs @ B\<rparr>"
    "\<forall>b<length (heap w). b \<noteq> c \<longrightarrow> b \<noteq> n \<longrightarrow> heap w2 ! b = heap w ! b"
    "length (heap w2) = length (heap w1)" "dirty w2 = dirty w1" "rootNode w2 = rootNode w1"
    using leaf_step_run [OF assms(1-3)] assms(4) by auto
  have so: "split_of w c w1 cs" using split_spec [OF assms(3) c(2)] by blast
  have F: "intree (heap w) (dirty w) (Branch n ?ets)" "btree (Branch n ?ets)" "keys_ok (Branch n ?ets)" "owned w"
    "n \<in> dirty w" "parent (heap w ! n) = None" "\<forall>e\<in>set ?ets. full_leaf (snd e) \<and> (pending w e \<or> fst e = first_key (snd e))"
    using assms(1) by (simp_all add: flat_at_def)
  have st: "owned w2" "evolves w w2" "set cs \<subseteq> dirty w2"
    using split_step [OF assms(3) c(1) F(4)] finalize_nodes_step [OF assms(4)] evolves_trans r(12) by blast+
  have it: "concat (map items ts) = kvs" using r(3) by (simp add: parts_def)
  have P: "intree (heap w1) {} t" "first_key t = fkey (heap w1 ! raddr t)" "tkeys t \<subseteq> tkeys (Leaf c kvs)"
    "first_key t \<in> tkeys (Leaf c kvs)" "raddr t \<in> set cs" "addrs t = [raddr t]" "full_leaf t" if "t \<in> set ts" for t
  proof -
    show "intree (heap w1) {} t" "first_key t = fkey (heap w1 ! raddr t)" "tkeys t \<subseteq> tkeys (Leaf c kvs)" "first_key t \<in> tkeys (Leaf c kvs)"
      using r(3) that unfolding parts_def by blast+
    show "raddr t \<in> set cs" unfolding r(1) [symmetric] using that by simp
    show "full_leaf t" using r(2) that by blast
    then show "addrs t = [raddr t]" by (cases t) simp_all
  qed
  have hc: "cs = c # tl cs" "c \<in> set cs" using so by (cases cs; simp add: split_of_def)+
  have new: "b \<notin> set cs" if "b < length (heap w)" "b \<noteq> c" for b
  proof -
    have "set (tl cs) \<subseteq> {length (heap w)..<length (heap w1)}" using so by (simp add: split_of_def)
    then show ?thesis using that hc(1) by (metis atLeastLessThan_iff linorder_not_less set_ConsD subsetD)
  qed
  have old: "raddr (snd e) < length (heap w)" "raddr (snd e) \<noteq> c" "raddr (snd e) \<noteq> n" "addrs (snd e) = [raddr (snd e)]"
    if "e \<in> set (xs @ ys)" for e
  proof -
    have "full_leaf (snd e)" "intree (heap w) (dirty w) (snd e)" using F(1,7) that by (auto simp: intree_Branch)
    then show "raddr (snd e) < length (heap w)" "addrs (snd e) = [raddr (snd e)]" by (cases "snd e"; simp add: intree_def)+
    then show "raddr (snd e) \<noteq> c" "raddr (snd e) \<noteq> n" using F(2) that unfolding btree_def by (auto dest!: split_list)
  qed
  have same: "heap w2 ! raddr (snd e) = heap w ! raddr (snd e)" "raddr (snd e) \<in> dirty w2 \<longleftrightarrow> raddr (snd e) \<in> dirty w"
    "pending w2 e \<longleftrightarrow> pending w e" if "e \<in> set (xs @ ys)" for e
    using r(10) old [OF that] evolves_dirty [OF st(2)] by (simp_all add: pending_def)
  have n2: "n \<in> dirty w2" "n < length (heap w2)" using evolves_dirtyD [OF st(2) F(5)] st(2) c(3) by (simp_all add: evolves_def)
  have part: "wchild (heap w2) (dirty w2) n (first_key t, t)" "intree (heap w2) (dirty w2) t" "\<not> pending w2 (first_key t, t)"
    if t: "t \<in> set ts" for t
  proof -
    have "parent (heap w1 ! raddr t) = Some n" using so c(5) P(5) [OF t] by (simp add: split_of_def)
    then show "wchild (heap w2) (dirty w2) n (first_key t, t)" using P(2,5) [OF t] r(8) n2 by (simp add: wchild_def)
    show "intree (heap w2) (dirty w2) t" using P(1,5-7) [OF t] r(8,11) by (cases t) (auto simp: intree_def)
    show "\<not> pending w2 (first_key t, t)" using P(5) [OF t] r(8) by (simp add: pending_def)
  qed
  have keep: "wchild (heap w2) (dirty w2) n e" "intree (heap w2) (dirty w2) (snd e)" if e: "e \<in> set (xs @ ys)" for e
  proof -
    have s: "same_on (set (addrs (snd e))) (heap w) (dirty w) (heap w2) (dirty w2)"
      using old [OF e] same [OF e] st(2) by (simp add: same_on_def evolves_def)
    have "wchild (heap w) (dirty w) n e" "intree (heap w) (dirty w) (snd e)" using F(1) e unfolding intree_Branch by auto
    then show "wchild (heap w2) (dirty w2) n e" "intree (heap w2) (dirty w2) (snd e)"
      using wchild_same [OF _ s] intree_same [OF _ s] n2(1) raddr_in_addrs by blast+
  qed
  have "intree (heap w2) (dirty w2) (Branch n (xs @ entries ts @ ys))"
  proof -
    have "list_all2 branch_entry (map (child_entry (heap w1)) cs) (entries ts)"
      unfolding r(1) [symmetric] using P(2) by (simp add: list.rel_map list.rel_refl_strong branch_entry_def child_entry_def)
    then have "list_all2 branch_entry (inodes (heap w2 ! n)) (xs @ entries ts @ ys)"
      unfolding r(9) using r(6,7) by (simp add: list_all2_appendI)
    moreover have "\<not> isLeaf (heap w2 ! n)" using F(1) r(9) by (simp add: intree_Branch)
    moreover have "\<forall>e\<in>set (xs @ entries ts @ ys). wchild (heap w2) (dirty w2) n e \<and> intree (heap w2) (dirty w2) (snd e)"
    proof
      fix e assume "e \<in> set (xs @ entries ts @ ys)"
      then consider "e \<in> set (xs @ ys)" | t where "t \<in> set ts" "e = (first_key t, t)" by auto
      then show "wchild (heap w2) (dirty w2) n e \<and> intree (heap w2) (dirty w2) (snd e)"
        by cases (use part keep in \<open>auto simp del: set_append\<close>)
    qed
    ultimately show ?thesis unfolding intree_Branch using n2 by blast
  qed
  moreover have "btree (Branch n (xs @ entries ts @ ys))"
  proof -
    have d: "distinct (concat (map addrs ts))" "set (concat (map addrs ts)) \<subseteq> set cs"
      using r(3) P(5,6) by (auto simp: parts_def)
    have o: "set (addrs_of xs) \<inter> set cs = {}" "set (addrs_of ys) \<inter> set cs = {}" "n \<notin> set cs"
      using old new c(3,4) by fastforce+
    have "addrs (Branch n (xs @ entries ts @ ys)) = n # addrs_of xs @ concat (map addrs ts) @ addrs_of ys" by (simp add: comp_def)
    moreover have "distinct (n # addrs_of xs @ addrs_of ys)" using F(2) by (auto simp: btree_def)
    ultimately have "distinct (addrs (Branch n (xs @ entries ts @ ys)))"
      using d o unfolding distinct.simps distinct_append set_append by (simp only: distinct.simps distinct_append set_append) blast
    moreover have "ts \<noteq> []" using it c(9) by auto
    ultimately show ?thesis using r(4) by (simp add: btree_def)
  qed
  moreover have "keys_ok (Branch n (xs @ entries ts @ ys))"
    using F(3) P(3,4) unfolding keys_ok_def tkeys_Branch by fastforce
  moreover have "pendings w2 (xs @ entries ts @ ys) < pendings w ?ets"
  proof -
    have "filter (pending w2) xs = filter (pending w) xs" "filter (pending w2) ys = filter (pending w) ys"
      using same(3) by (auto intro: filter_cong)
    moreover have "filter (pending w2) (entries ts) = []" using part(3) by (auto simp: filter_empty_conv)
    ultimately show ?thesis using assms(2) by (simp add: pendings_def)
  qed
  moreover have "\<forall>e\<in>set (xs @ entries ts @ ys). full_leaf (snd e) \<and> (pending w2 e \<or> fst e = first_key (snd e))"
  proof
    fix e assume "e \<in> set (xs @ entries ts @ ys)"
    then consider "e \<in> set (xs @ ys)" | t where "t \<in> set ts" "e = (first_key t, t)" by auto
    then show "full_leaf (snd e) \<and> (pending w2 e \<or> fst e = first_key (snd e))"
      by cases (use F(7) same(3) [of e] P(7) in auto)
  qed
  moreover have "parent (heap w2 ! n) = None" "parent (heap w2 ! c) = Some n" "set cs \<subseteq> insert c {length (heap w)..}"
    using r(8,9) F(6) hc(2) so c(5) new by (auto simp: split_of_def not_le [symmetric])
  moreover have "take (length xs) (inodes (heap w ! n)) = A" "drop (Suc (length xs)) (inodes (heap w ! n)) = B"
    using r(5) list_all2_lengthD [OF r(6)] by simp_all
  moreover have "rootNode w2 = rootNode w" using r(13) so by (simp add: split_of_def)
  ultimately show ?thesis using r(1,9) it st(1,2) n2(1) unfolding flat_at_def
    by (intro exI [of _ ts] conjI) (simp_all only:)
qed


section \<open>The run\<close>

lemma finalize_children_skip:
  assumes "\<forall>j<m. \<forall>c. ichild (inodes (heap w ! n) ! j) = Some c \<longrightarrow> c \<in> dirty w \<longrightarrow> spilled (heap w ! c)"
    and "m \<le> length (inodes (heap w ! n))" and "m \<le> len" and "i \<le> m" and "0 < f"
  shows "finalize_children f n len i w = finalize_children f n len m w"
  using assms(4)
proof (induction "m - i" arbitrary: i)
  case (Suc x)
  then have i: "i < m" by simp
  obtain f' where f: "f = Suc f'" using assms(5) by (cases f) auto
  have "(case ichild (inodes (heap w ! n) ! i) of None \<Rightarrow> Inr w
      | Some c \<Rightarrow> if c \<in> dirty w then finalize f c w else Inr w) = Inr w"
    using assms(1) i f by (auto split: option.splits)
  then have "finalize_children f n len i w = finalize_children f n len (Suc i) w"
    using i assms(2,3) by (subst finalize_children.simps) simp
  also have "\<dots> = finalize_children f n len m w" using Suc i by simp
  finally show ?case .
qed simp

lemma flat_entry:
  assumes "flat_at w n ets" and "j < length ets"
  shows "j < length (inodes (heap w ! n))" and "ichild (inodes (heap w ! n) ! j) = Some (raddr (snd (ets ! j)))"
    and "ikey (inodes (heap w ! n) ! j) = fst (ets ! j)"
proof -
  have "list_all2 branch_entry (inodes (heap w ! n)) ets" using assms(1) by (simp add: flat_at_def intree_Branch)
  then show "j < length (inodes (heap w ! n))" "ichild (inodes (heap w ! n) ! j) = Some (raddr (snd (ets ! j)))"
    "ikey (inodes (heap w ! n) ! j) = fst (ets ! j)"
    using assms(2) by (auto simp: list_all2_conv_all_nth branch_entry_def)
qed

lemma flat_length: "flat_at w n ets \<Longrightarrow> length (inodes (heap w ! n)) = length ets"
  by (auto simp: flat_at_def intree_Branch dest: list_all2_lengthD)

lemma flat_settled:
  assumes "flat_at w n ets" and "pendings w ets = 0"
  shows "settled w n"
proof -
  have "spilled (heap w ! c)" if j: "j < length ets" "ichild (inodes (heap w ! n) ! j) = Some c" "c \<in> dirty w" for j c
    using flat_entry [OF assms(1) j(1)] j assms(2) nth_mem [OF j(1)] by (auto simp: pendings_def pending_def filter_empty_conv)
  then show ?thesis using flat_length [OF assms(1)] by (auto simp: settled_def in_set_conv_nth)
qed

text \<open>Enough room in one node for a separator per pair: the root is not split.\<close>

definition roomy :: "(bytes \<times> bytes) list \<Rightarrow> bool" where
  "roomy kvs \<longleftrightarrow>
     nodeHeaderOverheadBytes + sum_list (map (\<lambda>p. nodeInodeOverheadBytes + length (fst p)) kvs) < defaultMaxNodeSizeBytes"

lemma flat_tight:
  assumes "flat_at w n ets" and "pendings w ets = 0" and "e \<in> set ets"
  shows "fst e = first_key (snd e)" and "items (snd e) \<noteq> []" and "fst e = fst (hd (items (snd e)))" and "tight (snd e)"
    and "root_keys (snd e) \<noteq> [] \<and> hd (root_keys (snd e)) = fst e"
proof -
  have "full_leaf (snd e)" "\<not> pending w e" "pending w e \<or> fst e = first_key (snd e)"
    using assms by (auto simp: flat_at_def pendings_def filter_empty_conv)
  then show "fst e = first_key (snd e)" "items (snd e) \<noteq> []" "fst e = fst (hd (items (snd e)))" "tight (snd e)"
    "root_keys (snd e) \<noteq> [] \<and> hd (root_keys (snd e)) = fst e" by (cases "snd e"; simp add: hd_map)+
qed

lemma flat_root_fits:
  assumes "flat_at w n ets" and "pendings w ets = 0" and "roomy (items (Branch n ets))"
  shows "split n w = ([n], w)"
proof -
  let ?g = "\<lambda>p. nodeInodeOverheadBytes + length (fst p)"
  have l: "list_all2 branch_entry (inodes (heap w ! n)) ets" using assms(1) by (simp add: flat_at_def intree_Branch)
  then have "map inode_size (inodes (heap w ! n)) = map (\<lambda>e. nodeInodeOverheadBytes + length (fst e)) ets"
    by (induction rule: list_all2_induct) (simp_all add: branch_entry_def inode_size_def)
  moreover have "nodeInodeOverheadBytes + length (fst e) \<le> sum_list (map ?g (items (snd e)))" if "e \<in> set ets" for e
  proof -
    have "nodeInodeOverheadBytes + length (fst e) = ?g (hd (items (snd e)))" using flat_tight(3) [OF assms(1,2) that] by simp
    also have "\<dots> \<le> sum_list (map ?g (items (snd e)))" using flat_tight(2) [OF assms(1,2) that] by (cases "items (snd e)") simp_all
    finally show ?thesis .
  qed
  then have "sum_list (map (\<lambda>e. nodeInodeOverheadBytes + length (fst e)) ets) \<le> sum_list (map (\<lambda>e. sum_list (map ?g (items (snd e)))) ets)"
    by (intro sum_list_mono)
  moreover have "\<dots> = sum_list (map ?g (items (Branch n ets)))" by (induction ets) simp_all
  ultimately have "node_size (heap w ! n) < defaultMaxNodeSizeBytes" using assms(3) by (simp add: node_size_eq roomy_def)
  then show ?thesis by (subst split.simps) (simp add: splitTwo_def Let_def sizeLessThan_eq)
qed

text \<open>The mark on the root, which the calls that are still open set again.\<close>

lemma flat_mark:
  assumes "flat_at w n ets"
  shows "\<exists>w'. finalize_nodes [n] w = Inr w' \<and> flat_at w' n ets \<and> pendings w' ets = pendings w ets \<and> spilled (heap w' ! n) \<and>
     inodes (heap w' ! n) = inodes (heap w ! n) \<and> evolves w w' \<and> rootNode w' = rootNode w"
proof -
  let ?w = "upd_node n (\<lambda>x. x\<lparr>spilled := True\<rparr>) w"
  let ?w' = "?w\<lparr>stats := IncSpill 1 (stats ?w)\<rparr>"
  have f: "intree (heap w) (dirty w) (Branch n ets)" "btree (Branch n ets)" "owned w" "n \<in> dirty w" "parent (heap w ! n) = None"
    using assms by (simp_all add: flat_at_def)
  have lt: "n < length (heap w)" using f(1) by (simp add: intree_Branch)
  have h: "heap ?w' ! n = (heap w ! n)\<lparr>spilled := True\<rparr>" "\<And>b. b \<noteq> n \<Longrightarrow> heap ?w' ! b = heap w ! b"
    "length (heap ?w') = length (heap w)" "dirty ?w' = dirty w"
    using lt by (auto simp: upd_node_def)
  have r: "finalize_nodes [n] w = Inr ?w'" using f(5) h(1) by (simp add: finalize_node_def Let_def)
  have v: "isLeaf (heap ?w' ! b) = isLeaf (heap w ! b) \<and> inodes (heap ?w' ! b) = inodes (heap w ! b) \<and>
      nkey (heap ?w' ! b) = nkey (heap w ! b) \<and> parent (heap ?w' ! b) = parent (heap w ! b)" for b
    using h(1) h(2) [of b] by (cases "b = n") simp_all
  have i: "intree (heap ?w') (dirty ?w') (Branch n ets)" unfolding h(4) by (rule intree_fields [OF f(1)]) (use h(3) v in simp_all)
  have pe: "pending ?w' e = pending w e" if "e \<in> set ets" for e
  proof -
    have "raddr (snd e) \<in> set (addrs_of ets)" using that by (auto intro!: bexI [of _ e])
    then have "raddr (snd e) \<noteq> n" using f(2) unfolding btree_def by auto
    then show ?thesis using h(2,4) by (simp add: pending_def)
  qed
  have s: "owned ?w' \<and> evolves w ?w'" using finalize_nodes_step [OF r] f(3,4) by simp
  have "flat_at ?w' n ets" unfolding flat_at_def using assms i pe s h(4) v by (auto simp: flat_at_def)
  moreover have "pendings ?w' ets = pendings w ets" unfolding pendings_def using pe by (metis filter_cong)
  ultimately show ?thesis using r s h(1) by (intro exI [of _ ?w']) (simp add: upd_node_def)
qed


text \<open>The first pending leaf.\<close>

lemma leaf_finalize:
  assumes "flat_at w n (xs @ (k, Leaf c kvs) # ys)" and "pending w (k, Leaf c kvs)" and "\<not> spilled (heap w ! n)" and "0 < f"
    and "split c w = (cs, w1)" and "finalize_nodes cs w1 = Inr w2" and "finalize f n w2 = Inr w'"
  shows "finalize (Suc f) c w = Inr w'"
proof -
  note c = flat_child [OF assms(1,2)]
  have "settled w c"
    unfolding settled_def using c(8) by (auto simp: list_all2_conv_all_nth leaf_entry_def in_set_conv_nth)
  then have "finalize_children f c (length (inodes (heap w ! c))) 0 w = Inr w"
    using assms(4) finalize_children_settled by blast
  moreover have "parent (heap w2 ! c) = Some n" "\<not> spilled (heap w2 ! n)"
    using leaf_step [OF assms(1,2,5,6)] assms(3) by auto
  ultimately show ?thesis using c(10) assms(5-7) by simp
qed

lemma pendings_pos:
  assumes "flat_at w n ets" and "pendings w ets \<noteq> 0"
  shows "\<exists>xs k c kvs ys. ets = xs @ (k, Leaf c kvs) # ys \<and> pending w (k, Leaf c kvs) \<and> (\<forall>e\<in>set xs. \<not> pending w e)"
proof -
  have "\<exists>e\<in>set ets. pending w e" using assms(2) by (auto simp: pendings_def filter_empty_conv)
  then obtain xs e ys where e: "ets = xs @ e # ys" "pending w e" "\<forall>x\<in>set xs. \<not> pending w x"
    using split_list_first_prop [of ets "pending w"] by blast
  moreover have "full_leaf (snd e)" using assms(1) e(1) by (simp add: flat_at_def)
  then obtain k c kvs where "e = (k, Leaf c kvs)" by (cases e; cases "snd e") auto
  ultimately show ?thesis by blast
qed

definition flat_done :: "wst \<Rightarrow> addr \<Rightarrow> (bytes \<times> tree) list \<Rightarrow> wst \<Rightarrow> (bytes \<times> tree) list \<Rightarrow> bool" where
  "flat_done w n ets w' ets' \<longleftrightarrow>
     flat_at w' n ets' \<and> pendings w' ets' = 0 \<and> items (Branch n ets') = items (Branch n ets) \<and> length ets \<le> length ets' \<and>
     evolves w w' \<and> rootNode w' = rootNode w \<and> set (addrs_of ets') \<subseteq> set (addrs_of ets) \<union> {length (heap w)..}"

lemma flat_top:
  assumes "flat_at w n ets" and "pendings w ets = 0" and "roomy (items (Branch n ets))"
  shows "\<exists>w'. flat_done w n ets w' ets \<and> spilled (heap w' ! n) \<and>
     rbind (finalize_nodes (fst (split n w)) (snd (split n w)))
       (\<lambda>w. case parent (heap w ! n) of None \<Rightarrow> Inr w | Some p \<Rightarrow> if spilled (heap w ! p) then Inr w else finalize f p w) = Inr w'"
proof -
  obtain w' where w': "finalize_nodes [n] w = Inr w'" "flat_at w' n ets" "pendings w' ets = pendings w ets" "spilled (heap w' ! n)"
    "evolves w w'" "rootNode w' = rootNode w"
    using flat_mark [OF assms(1)] by blast
  moreover have "parent (heap w' ! n) = None" using w'(2) by (simp add: flat_at_def)
  ultimately show ?thesis using flat_root_fits [OF assms] assms(2) by (intro exI [of _ w']) (simp add: flat_done_def)
qed

lemma within_trans: "A \<subseteq> B \<union> X \<Longrightarrow> Y \<subseteq> X \<Longrightarrow> C \<subseteq> A \<union> Y \<Longrightarrow> C \<subseteq> B \<union> X"
  by blast

lemma finalize_flat:
  assumes "flat_at w n ets" and "\<not> spilled (heap w ! n)" and "roomy (items (Branch n ets))" and "2 * pendings w ets + 2 \<le> f"
  shows "\<exists>w' ets'. finalize f n w = Inr w' \<and> flat_done w n ets w' ets' \<and> spilled (heap w' ! n)"
  using assms
proof (induction "pendings w ets" arbitrary: w ets f rule: less_induct)
  case less
  obtain f0 where f0: "f = Suc (Suc f0)" "2 * pendings w ets \<le> f0" using less.prems(4) by (cases f; cases "f - 1") auto
  let ?len = "length (inodes (heap w ! n))"
  have run: "finalize f n w = rbind (finalize_children (Suc f0) n ?len 0 w) (\<lambda>w. rbind (finalize_nodes (fst (split n w)) (snd (split n w)))
       (\<lambda>w. case parent (heap w ! n) of None \<Rightarrow> Inr w | Some p \<Rightarrow> if spilled (heap w ! p) then Inr w else finalize (Suc f0) p w))"
    using less.prems(2) f0(1) by (simp add: case_prod_beta)
  show ?case
  proof (cases "pendings w ets = 0")
    case True
    have "finalize_children (Suc f0) n ?len 0 w = Inr w"
      by (rule finalize_children_settled [OF flat_settled [OF less.prems(1) True]]) simp_all
    then show ?thesis using run flat_top [OF less.prems(1) True less.prems(3), of "Suc f0"] by auto
  next
    case False
    obtain xs k c kvs ys where e: "ets = xs @ (k, Leaf c kvs) # ys" "pending w (k, Leaf c kvs)" "\<forall>e\<in>set xs. \<not> pending w e"
      using pendings_pos [OF less.prems(1) False] by blast
    note fl = less.prems(1) [unfolded e(1)]
    obtain cs w1 where sp: "split c w = (cs, w1)" by fastforce
    obtain w2 where w2: "finalize_nodes cs w1 = Inr w2" using leaf_step_run [OF fl e(2) sp] by blast
    obtain ts where ts: "flat_at w2 n (xs @ entries ts @ ys)" "map raddr ts = cs" "concat (map items ts) = kvs"
      "pendings w2 (xs @ entries ts @ ys) < pendings w ets" "evolves w w2" "rootNode w2 = rootNode w"
      "set cs \<subseteq> insert c {length (heap w)..}" "\<not> spilled (heap w2 ! n)"
      using leaf_step [OF fl e(2) sp w2] e(1) less.prems(2) by auto
    let ?new = "xs @ entries ts @ ys"
    have it: "items (Branch n ?new) = items (Branch n ets)" using e(1) ts(3) by (simp add: comp_def)
    have fu: "2 * pendings w2 ?new + 2 \<le> f0" using ts(4) f0(2) by simp
    have ro: "roomy (items (Branch n ?new))" using less.prems(3) it by (simp only:)
    from less.hyps [OF ts(4,1,8) ro fu] obtain w3 ets' where w3: "finalize f0 n w2 = Inr w3" "flat_done w2 n ?new w3 ets'" by blast
    have "ts \<noteq> []" using ts(3) flat_child(9) [OF fl e(2)] by auto
    then have l: "length ets \<le> length ?new" using e(1) by (cases ts) simp_all
    then have D: "flat_at w3 n ets'" "pendings w3 ets' = 0" "items (Branch n ets') = items (Branch n ets)" "length ets \<le> length ets'"
      using w3(2) it by (simp_all only: flat_done_def) simp
    have "finalize_children (Suc f0) n ?len 0 w = finalize_children (Suc f0) n ?len (length xs) w"
    proof (rule finalize_children_skip)
      show "\<forall>j<length xs. \<forall>d. ichild (inodes (heap w ! n) ! j) = Some d \<longrightarrow> d \<in> dirty w \<longrightarrow> spilled (heap w ! d)"
        using flat_entry(2) [OF less.prems(1)] e(1,3) by (auto simp: pending_def nth_append)
    qed (use flat_length [OF less.prems(1)] e(1) in simp_all)
    also have "\<dots> = finalize_children (Suc f0) n ?len (Suc (length xs)) w3"
      using flat_entry [OF less.prems(1), of "length xs"] flat_length [OF less.prems(1)] e(1) flat_child(1) [OF fl e(2)]
        leaf_finalize [OF fl e(2) less.prems(2) _ sp w2 w3(1)] fu by (subst finalize_children.simps) simp
    also have "\<dots> = Inr w3"
      using finalize_children_settled [OF flat_settled [OF D(1,2)]] flat_length [OF D(1)] flat_length [OF less.prems(1)] D(4) by simp
    finally have loop: "finalize_children (Suc f0) n ?len 0 w = Inr w3" .
    obtain w4 where w4: "flat_done w3 n ets' w4 ets'" "spilled (heap w4 ! n)" "finalize f n w = Inr w4"
      using run loop flat_top [OF D(1,2), of "Suc f0"] D(3) less.prems(3) by auto
    have new: "set (addrs_of ?new) \<subseteq> set (addrs_of ets) \<union> {length (heap w)..}"
    proof -
      have "addrs t = [raddr t]" if "t \<in> set ts" for t
      proof -
        have "(first_key t, t) \<in> set ?new" using that by simp
        then have "full_leaf t" using ts(1) unfolding flat_at_def by fastforce
        then show ?thesis by (cases t) simp_all
      qed
      then have "set (concat (map addrs ts)) \<subseteq> set cs" unfolding ts(2) [symmetric] by auto
      then show ?thesis using ts(7) e(1) by (auto simp: comp_def)
    qed
    have "{length (heap w2)..} \<subseteq> {length (heap w)..}" using ts(5) by (simp add: evolves_def)
    then have "set (addrs_of ets') \<subseteq> set (addrs_of ets) \<union> {length (heap w)..}"
      using within_trans [OF new] w3(2) by (simp only: flat_done_def)
    moreover have "evolves w w4" using w3(2) w4(1) ts(5) evolves_trans unfolding flat_done_def by blast
    moreover have "flat_at w4 n ets'" "pendings w4 ets' = 0" "rootNode w4 = rootNode w"
      using w3(2) w4(1) ts(6) by (simp_all only: flat_done_def)
    ultimately have "flat_done w n ets w4 ets'" using D(3,4) by (simp only: flat_done_def)
    then show ?thesis using w4 by blast
  qed
qed


section \<open>Spilling a bucket of two levels\<close>

text \<open>
  A tree of at most two levels whose leaves have entries; a leaf that was not copied begins with its
  separator.
\<close>

fun flat_tree :: "addr set \<Rightarrow> tree \<Rightarrow> bool" where
  "flat_tree D (Leaf a kvs) \<longleftrightarrow> True"
| "flat_tree D (Branch a ets) \<longleftrightarrow>
     (\<forall>e\<in>set ets. full_leaf (snd e) \<and> (raddr (snd e) \<in> D \<or> fst e = first_key (snd e)))"

lemma flat_tree_tight: "flat_tree {} t \<Longrightarrow> tight t"
proof (cases t)
  case (Branch a ets)
  assume "flat_tree {} t"
  then have "root_keys (snd e) \<noteq> [] \<and> hd (root_keys (snd e)) = fst e \<and> tight (snd e)" if "e \<in> set ets" for e
    using that Branch by (cases "snd e") (auto simp: hd_map)
  then show ?thesis using Branch by simp
qed simp

lemma flat_start:
  assumes "winv w (Branch n ets)" and "rootNode w = Some n" and "keys_ok (Branch n ets)" and "flat_tree (dirty w) (Branch n ets)"
  shows "flat_at w n ets" and "\<not> spilled (heap w ! n)"
proof -
  have w: "owned w" "fresh w" "parent (heap w ! n) = None" "n \<in> dirty w" using assms(1,2) by (auto simp: winv_def owned_def)
  then show "\<not> spilled (heap w ! n)" by (simp add: fresh_def)
  have "pending w e \<longleftrightarrow> raddr (snd e) \<in> dirty w" for e using w(2) by (auto simp: pending_def fresh_def)
  then show "flat_at w n ets" using assms w by (auto simp: flat_at_def winv_def)
qed

lemma flat_done_tree:
  assumes "flat_done w n ets w' ets'"
  shows "intree (heap w') {} (Branch n ets')" and "flat_tree {} (Branch n ets')"
proof -
  have f: "flat_at w' n ets'" "pendings w' ets' = 0" using assms by (simp_all only: flat_done_def)
  then have "intree (heap w') (dirty w') (Branch n ets')" by (simp add: flat_at_def)
  then show "intree (heap w') {} (Branch n ets')"
  proof -
    have "intree (heap w') {} (snd e)" if e: "e \<in> set ets'" for e
    proof -
      have "full_leaf (snd e)" "intree (heap w') (dirty w') (snd e)" using e f(1) by (auto simp: flat_at_def intree_Branch)
      then show ?thesis by (cases "snd e") (simp_all add: intree_def)
    qed
    then show ?thesis using \<open>intree (heap w') (dirty w') (Branch n ets')\<close> by (auto simp: intree_Branch wchild_def)
  qed
  show "flat_tree {} (Branch n ets')"
  proof -
    have "\<forall>e\<in>set ets'. full_leaf (snd e)" using f(1) by (simp add: flat_at_def)
    then show ?thesis using flat_tight(1) [OF f] by simp
  qed
qed

lemma flat_spill:
  assumes "flat_at w n ets" and "\<not> spilled (heap w ! n)" and "roomy (items (Branch n ets))" and "rootNode w = Some n"
  shows "\<exists>w' ets'. bucket_spill w = Inr w' \<and> flat_done w n ets w' ets'"
proof -
  have n: "n < length (heap w)" using assms(1) by (simp add: flat_at_def intree_Branch)
  have "pendings w ets \<le> length (inodes (heap w ! n))" unfolding flat_length [OF assms(1)] pendings_def by simp
  moreover have "length (inodes (heap w ! n)) \<le> sum_list (map (\<lambda>n. length (inodes n)) (heap w))"
    by (rule member_le_sum_list) (use n in auto)
  ultimately have "2 * pendings w ets + 2 \<le> ffuel w" by (simp add: ffuel_def)
  from finalize_flat [OF assms(1-3) this] obtain w1 ets' where w1: "finalize (ffuel w) n w = Inr w1" "flat_done w n ets w1 ets'" by blast
  have d: "flat_at w1 n ets'" "rootNode w1 = rootNode w" using w1(2) by (simp_all only: flat_done_def)
  then have "parent (heap w1 ! n) = None" by (simp add: flat_at_def)
  then have "node_root (dfuel (heap w1)) (heap w1) n = Inr n" by (simp add: dfuel_def)
  then have "bucket_spill w = Inr (w1\<lparr>rootNode := Some n\<rparr>)" using assms(4) w1(1) by (simp add: bucket_spill_def)
  moreover have "w1\<lparr>rootNode := Some n\<rparr> = w1" using d(2) assms(4) by simp
  ultimately show ?thesis using w1(2) by auto
qed


text \<open>A leaf root with room for its separators in one node: the spill leaves at most two levels.\<close>

lemma leaf_split_flat:
  assumes "winv w (Leaf r kvs)" and "rootNode w = Some r" and "keys_ok (Leaf r kvs)" and "split r w = (ns, w1)" and "tl ns \<noteq> []"
  shows "\<exists>ts w2. finalize_nodes ns w1 = Inr w2 \<and> flat_at w2 (length (heap w)) (entries ts) \<and> pendings w2 (entries ts) = 0 \<and>
     items (Branch (length (heap w)) (entries ts)) = kvs \<and> r \<in> raddr ` set ts \<and> r \<in> dirty w2 \<and>
     \<not> spilled (heap w2 ! length (heap w)) \<and> parent (heap w2 ! r) = Some (length (heap w))"
proof -
  let ?p = "length (heap w)"
  have w: "intree (heap w) {} (Leaf r kvs)" "btree (Leaf r kvs)" "r \<in> dirty w" "owned w" "parent (heap w ! r) = None" "r < length (heap w)"
    using assms(1,2) by (auto simp: winv_def intree_def owned_def)
  obtain ts w2 where ts: "map raddr ts = ns" "parts (heap w1) [] None (Leaf r kvs) ts"
    and w2: "finalize_nodes ns w1 = Inr w2" "\<forall>a\<in>set ns. heap w2 ! a = spilled_node (heap w1 ! a) \<and> parent (heap w2 ! a) = Some ?p"
      "heap w2 ! ?p = new_node\<lparr>bucket := bucket (heap w ! r), inodes := map (child_entry (heap w1)) ns\<rparr>"
      "?p < length (heap w2)" "dirty w2 = dirty w \<union> {?p..<length (heap w2)}" "owned w2" "evolves w w2" "?p \<notin> set (addrs (Leaf r kvs)) \<union> set ns"
      "intree (heap w2) {} (Branch ?p (entries ts))"
    using split_root [OF w(1,2) assms(3) _ w(3-5) assms(4,5)] by auto
  have r: "r \<in> set ns" "ns \<noteq> []" using split_spec [OF assms(4) w(6)] by (auto simp: split_of_def)
  have "ts \<noteq> []" using ts(1) r(2) by auto
  then have t1: "btree (Branch ?p (entries ts))" "items (Branch ?p (entries ts)) = kvs" "keys_ok (Branch ?p (entries ts))"
    using parts_over [OF ts(2) _ _ refl, of ?p] w2(8) ts(1) assms(3) by (auto simp: keys_ok_def)
  have part: "full_leaf t" "raddr t \<in> set ns" if t: "t \<in> set ts" for t
  proof -
    show n: "raddr t \<in> set ns" unfolding ts(1) [symmetric] using t by simp
    have "repr (heap w1) t" "inodes (heap w1 ! raddr t) \<noteq> []" using ts(2) t by (simp_all add: parts_def intree_def)
    moreover have "isLeaf (heap w1 ! raddr t)"
      using split_spec [OF assms(4) w(6)] n assms(1) by (simp add: split_of_def winv_def intree_def)
    ultimately show "full_leaf t" by (cases t) auto
  qed
  have wc: "wchild (heap w2) (dirty w2) ?p (first_key t, t)" "intree (heap w2) (dirty w2) t" "\<not> pending w2 (first_key t, t)" if t: "t \<in> set ts" for t
  proof -
    have "wchild (heap w2) {} ?p (first_key t, t)" "intree (heap w2) {} t" using w2(9) t by (auto simp: intree_Branch)
    moreover have "parent (heap w2 ! raddr t) = Some ?p" "spilled (heap w2 ! raddr t)" using w2(2) part(2) [OF t] by auto
    ultimately show "wchild (heap w2) (dirty w2) ?p (first_key t, t)" "intree (heap w2) (dirty w2) t" "\<not> pending w2 (first_key t, t)"
      using part(1) [OF t] w2(4,5) by (cases t; simp add: wchild_def intree_def pending_def)+
  qed
  have "intree (heap w2) (dirty w2) (Branch ?p (entries ts))" using w2(9) wc by (auto simp: intree_Branch)
  moreover have "?p \<in> dirty w2" "parent (heap w2 ! ?p) = None" "\<not> spilled (heap w2 ! ?p)" using w2(3-5) by (simp_all add: new_node_def)
  ultimately have "flat_at w2 ?p (entries ts)" unfolding flat_at_def using t1 w2(6) part by auto
  moreover have "pendings w2 (entries ts) = 0" using wc(3) by (auto simp: pendings_def filter_empty_conv)
  moreover have "r \<in> raddr ` set ts" using r(1) ts(1) by auto
  moreover have "r \<in> dirty w2" using w(3) w2(5) by simp
  ultimately show ?thesis using w2(1,2) t1(2) r(1) \<open>\<not> spilled (heap w2 ! ?p)\<close> by blast
qed

lemma leaf_flat:
  assumes "winv w (Leaf r kvs)" and "rootNode w = Some r" and "keys_ok (Leaf r kvs)" and "roomy kvs"
  shows "\<exists>w' t'. bucket_spill w = Inr w' \<and> rootNode w' = Some (raddr t') \<and> repr (heap w') t' \<and> flat_tree {} t'"
proof -
  have w: "r < length (heap w)" "isLeaf (heap w ! r)" "list_all2 leaf_entry (inodes (heap w ! r)) kvs"
    "parent (heap w ! r) = None" "\<not> spilled (heap w ! r)" "repr (heap w) (Leaf r kvs)"
    using assms(1,2) by (auto simp: winv_def intree_def owned_def fresh_def)
  have st: "settled w r" unfolding settled_def using w(3) by (auto simp: list_all2_conv_all_nth leaf_entry_def in_set_conv_nth)
  obtain f where f: "ffuel w = Suc f" "0 < f" using ffuel_node [OF w(1)] by (cases "ffuel w") auto
  obtain ns w1 where sp: "split r w = (ns, w1)" by fastforce
  have run: "finalize (ffuel w) r w = rbind (finalize_nodes ns w1) (\<lambda>w. case parent (heap w ! r) of
       None \<Rightarrow> Inr w | Some p \<Rightarrow> if spilled (heap w ! p) then Inr w else finalize f p w)"
    using w(5) finalize_children_settled [OF st f(2) order_refl] sp f(1) by simp
  show ?thesis
  proof (cases "tl ns = []")
    case True
    have "split_of w r w1 ns" using split_spec [OF sp w(1)] by blast
    then have n: "ns = [r]" "w1 = w" using True by (cases ns; simp add: split_of_def)+
    let ?w = "upd_node r (\<lambda>x. x\<lparr>spilled := True\<rparr>) w"
    let ?w' = "?w\<lparr>stats := IncSpill 1 (stats ?w)\<rparr>"
    have h: "heap ?w' ! r = (heap w ! r)\<lparr>spilled := True\<rparr>" "length (heap ?w') = length (heap w)" using w(1) by (simp_all add: upd_node_def)
    have "finalize_nodes [r] w = Inr ?w'" using h w(4) by (simp add: finalize_node_def Let_def)
    then have "finalize (ffuel w) r w = Inr ?w'" using run n w(4) h(1) by simp
    moreover have "node_root (dfuel (heap ?w')) (heap ?w') r = Inr r" using w(4) h by (simp add: dfuel_def)
    ultimately have "bucket_spill w = Inr (?w'\<lparr>rootNode := Some r\<rparr>)" using assms(2) by (simp add: bucket_spill_def)
    moreover have "repr (heap ?w') (Leaf r kvs)" using w(1-3) h by simp
    ultimately show ?thesis by (intro exI [of _ "?w'\<lparr>rootNode := Some r\<rparr>"] exI [of _ "Leaf r kvs"]) simp
  next
    case False
    let ?p = "length (heap w)"
    obtain ts w2 where w2: "finalize_nodes ns w1 = Inr w2" "flat_at w2 ?p (entries ts)" "pendings w2 (entries ts) = 0"
      "items (Branch ?p (entries ts)) = kvs" "r \<in> raddr ` set ts" "r \<in> dirty w2" "\<not> spilled (heap w2 ! ?p)" "parent (heap w2 ! r) = Some ?p"
      using leaf_split_flat [OF assms(1-3) sp False] by blast
    obtain f' where f': "f = Suc f'" "0 < f'" using f(1) by (cases f) (auto simp: ffuel_def)
    have ch: "finalize_children f' ?p (length (inodes (heap w2 ! ?p))) 0 w2 = Inr w2"
      by (rule finalize_children_settled [OF flat_settled [OF w2(2,3)] f'(2)]) simp
    obtain w3 where w3: "finalize f ?p w2 = Inr w3" "flat_done w2 ?p (entries ts) w3 (entries ts)"
      using flat_top [OF w2(2,3), of f'] assms(4) w2(4,7) ch f'(1) by (auto simp: case_prod_beta)
    have fin: "finalize (ffuel w) r w = Inr w3" using run w2(1,7,8) w3(1) by simp
    have d: "flat_at w3 ?p (entries ts)" "rootNode w3 = rootNode w2" "evolves w2 w3" using w3(2) by (simp_all only: flat_done_def)
    have "parent (heap w3 ! r) = Some ?p" "parent (heap w3 ! ?p) = None"
      using d(1) w2(5) evolves_dirtyD [OF d(3) w2(6)] by (auto simp: flat_at_def intree_Branch wchild_def)
    moreover have "dfuel (heap w3) = Suc (Suc (dfuel (heap w3) - 2))"
      using d(1) by (auto simp: flat_at_def intree_Branch dfuel_def)
    ultimately have "node_root (dfuel (heap w3)) (heap w3) r = Inr ?p" by (metis node_root.simps(2) option.simps(4) option.simps(5))
    then have "bucket_spill w = Inr (w3\<lparr>rootNode := Some ?p\<rparr>)" using assms(2) fin by (simp add: bucket_spill_def)
    moreover have "repr (heap w3) (Branch ?p (entries ts))" using flat_done_tree(1) [OF w3(2)] by (simp only: intree_def)
    ultimately show ?thesis using flat_done_tree(2) [OF w3(2)]
      by (intro exI [of _ "w3\<lparr>rootNode := Some ?p\<rparr>"] exI [of _ "Branch ?p (entries ts)"]) simp
  qed
qed


end
