(* ===== verification/Spec2Isabelle.thy ===== *)
theory Spec2Isabelle
  imports Vm_System Vm_Snapshot Vm_Check Vm_Flat
begin

text \<open>
  \<^bold>\<open>Verification of vmbolt\<close>

  vmbolt is a key/value store that lives in memory: named buckets, each a B+tree of nodes linked by
  pointers, one writer at a time and any number of readers. A transaction pins the published state
  (\<^verbatim>\<open>dbState\<close>); a writer copies the nodes on the path to the leaf it changes, and a commit rebalances
  and splits these copies and publishes new roots. Nothing that was published is ever changed.

  \<^bold>\<open>How the program is modelled.\<close> The store is an explicit heap, a list of node records; a Go
  pointer is an index and allocation appends. A bucket handle (\<^verbatim>\<open>Bucket\<close>) is a record; a method of it
  works on \<open>wst\<close>, the handle together with what it reads through its transaction. A transaction method
  works on \<open>txst\<close>, the pair of database and transaction. A panic is the value \<open>Inl (Panic m)\<close>, an
  error of type \<^verbatim>\<open>error\<close> a constructor of \<open>error\<close>. Counters are 64-bit words. The order in which Go
  ranges over a map, the clock and the writer of a stream are arguments; the theorems hold for all of
  them. Blocking on the writer lock is \<open>None\<close>.

  \<^bold>\<open>The theories\<close>, in the order in which they build on each other:

  \<^item> \<open>Vm_Prelude\<close>: faults and their monad, byte strings and their order, \<^verbatim>\<open>sort.Search\<close> (locale
    \<open>least_index\<close>), ordered pair lists with \<open>alist_put\<close> and \<open>alist_del\<close>.
  \<^item> \<open>Vm_Stats\<close> (\<^verbatim>\<open>errors/errors.go\<close>, counters of \<^verbatim>\<open>tx.go\<close> and \<^verbatim>\<open>db.go\<close>): the error values, \<open>TxStats\<close>,
    \<open>Stats\<close>, additions and differences.
  \<^item> \<open>Vm_Node\<close> (\<^verbatim>\<open>snapshot_node.go\<close>, \<^verbatim>\<open>node.go\<close>): inodes, nodes, sizes, \<open>put\<close>, \<open>del\<close>, \<open>splitIndex\<close>,
    \<open>splitTwo\<close>, \<open>split\<close>. The loop of \<open>split\<close> recurses on a shrinking node.
  \<^item> \<open>Vm_Tree\<close>: the abstraction. \<open>tree\<close> unfolds the nodes below an address, \<open>repr\<close> relates it to the
    heap, \<open>btree\<close> is the ordering invariant and \<open>items\<close> the pairs from left to right.
  \<^item> \<open>Vm_Cursor\<close> (\<^verbatim>\<open>cursor.go\<close>): the cursor with its stack of element references, and directory
    cursors. \<open>cursor_first\<close>, \<open>cursor_next\<close> and \<open>search\<close> are shown to visit \<open>items\<close> in order; the locale
    \<open>forward_iter\<close> gives loops over an iterator once for directory, bucket and range scans.
  \<^item> \<open>Vm_Bucket\<close> (\<^verbatim>\<open>bucket.go\<close>): copy-on-write (\<open>copyNode\<close>, \<open>writableRoot\<close>, \<open>childForWrite\<close>,
    \<open>cursor_node\<close>), \<open>Get\<close>, \<open>Put\<close>, \<open>Delete\<close>, \<open>ForEach\<close>, \<open>Stats\<close>, \<open>Inspect\<close>. \<open>winv\<close> is the invariant of a
    handle, \<open>evolves\<close> says that only owned nodes change; the locale \<open>ordered_store\<close> is the contract of
    a bucket against ordered pair lists.
  \<^item> \<open>Vm_Commit\<close> (\<^verbatim>\<open>node.go\<close>, \<^verbatim>\<open>bucket.go\<close>): \<open>rebalance\<close>, \<open>finalize\<close>, \<open>bucket_spill\<close>, \<open>publishRoot\<close>, with the
    re-entrant calls of \<open>finalize\<close> on the parent as they are in the code.
  \<^item> \<open>Vm_Tx\<close> (\<^verbatim>\<open>tx.go\<close>): the bucket directory of a transaction, sizes, closing, \<open>Commit\<close>. \<open>tx_holds\<close>
    relates a transaction to the map it pinned and the map it shows.
  \<^item> \<open>Vm_TxCommit\<close>: \<open>Commit\<close> publishes the map the transaction shows; the locale \<open>bucket_stage\<close> is
    shared by the rebalance and the spill loop.
  \<^item> \<open>Vm_DB\<close> (\<^verbatim>\<open>db.go\<close>): \<open>Open\<close> of an empty database, \<open>Close\<close>, \<open>Begin\<close>, \<open>Update\<close>, \<open>View\<close>, batches.
    \<open>implements\<close> says that a callback refines a specification on maps; \<open>Update\<close> is then atomic.
  \<^item> \<open>Vm_System\<close>: a step relation that interleaves readers with a writer; its reachable states
    satisfy \<open>sys_inv\<close>, from which snapshot isolation, mutual exclusion and progress follow.
  \<^item> \<open>Vm_Snapshot\<close> (\<^verbatim>\<open>snapshot.go\<close>, the rest of \<^verbatim>\<open>Open\<close>): the stream format, \<open>WriteTo\<close>, \<open>Restore\<close>,
    \<open>maybeRestore\<close>; round trip, truncation, arbitrary streams.
  \<^item> \<open>Vm_Check\<close> (\<^verbatim>\<open>tx_check.go\<close>): \<open>Check\<close> and what its silence means.

  \<^bold>\<open>Fuel.\<close> Recursion over pointers carries fuel, because a Go heap may be cyclic. \<open>dfuel\<close> is the number
  of nodes plus one: on a tree without repeated addresses no descent is longer. \<open>ifuel\<close> counts the
  entries of all nodes, an upper bound for the pairs an iteration yields. \<open>ffuel\<close> adds the entries
  to the nodes: \<open>finalize\<close> enters a node once per entry or parent. \<open>check_fuel\<close> is one more than the
  number of entries, each of which is pushed at most once. The theorems show that the result is
  never \<open>OutOfFuel\<close> where the code returns; the one loop that does not return is shown to exhaust
  every amount.

  \<^bold>\<open>Scope of the commit theorems.\<close> A commit is shown to publish the right map when the buckets that
  were written are rooted at a leaf when the commit starts (a bucket may still grow to any number
  of leaves in the commit). For buckets with several levels the code has the faults listed
  as findings: \<open>rebalance\<close> depends on the iteration order of a map and may panic. The theorems about
  \<open>Put\<close>, \<open>Delete\<close>, cursors and published snapshots hold for trees of every height.

  \<^bold>\<open>Not modelled.\<close> \<^verbatim>\<open>logger.go\<close>, \<^verbatim>\<open>version.go\<close>, the \<^verbatim>\<open>String\<close> methods and the file I/O of \<^verbatim>\<open>CopyFile\<close> have
  no effect on the store; the timer of a batch only decides when \<open>batch_run\<close> is called; the goroutine
  scheduler is modelled as the interleaving of whole transaction calls, which is what the locks of
  the code allow; memory is unbounded except for the limit \<^verbatim>\<open>make\<close> itself enforces; the
  \<^verbatim>\<open>BBOLT_VERIFY\<close> switch is process state that no modelled code reads. Aliasing of byte slices between
  the caller and the store is not visible in the model: keys and values are values.
\<close>

end
